(* ===== verification/Prelude.thy ===== *)
theory Prelude
  imports Main "HOL-Library.Word" "HOL-Library.Multiset"
begin

text \<open>
  Shared vocabulary of the development: the machine types, the result types, the
  hash-map model with its interface, and the rule for invariants of step relations.

  A byte is a \<open>char\<close> (eight bits), so a Rust byte vector and a Rust \<open>String\<close> (its UTF-8
  bytes) are both a \<open>string\<close>; lengths are byte lengths, as \<open>len()\<close> is in Rust.
\<close>

named_theorems hm_simps "rewrite rules of the hash-map model"
named_theorems buf_simps "rewrite rules of the byte-buffer operations"

section \<open>Machine types\<close>

type_synonym bytes = string
type_synonym usize = "64 word"
type_synonym u16 = "16 word"
type_synonym raw_fd = "32 word"

text \<open>
  Times and durations are nanoseconds; a \<open>SystemTime\<close> is counted from the epoch.
\<close>

type_synonym systime = nat
type_synonym duration = nat

definition from_secs :: "nat \<Rightarrow> duration" where
  "from_secs n = n * 1000000000"

definition from_millis :: "nat \<Rightarrow> duration" where
  "from_millis n = n * 1000000"

text \<open>
  \<open>usize::MAX\<close> and \<open>isize::MAX\<close> on a 64-bit target (the target of the comment on
  stream tokens in \<open>src/server/mod.rs\<close>).
\<close>

definition usize_bound :: nat where
  "usize_bound = 2 ^ 64"

definition isize_max :: nat where
  "isize_max = 2 ^ 63 - 1"

text \<open>mio's \<open>Token(usize)\<close>, ordered by its number.\<close>

datatype token = Token (tok: usize)

instantiation token :: linorder
begin

definition less_eq_token :: "token \<Rightarrow> token \<Rightarrow> bool" where
  "less_eq_token a b \<longleftrightarrow> tok a \<le> tok b"

definition less_token :: "token \<Rightarrow> token \<Rightarrow> bool" where
  "less_token a b \<longleftrightarrow> tok a < tok b"

instance
  by standard (auto simp: less_eq_token_def less_token_def intro: token.expand)

end

section \<open>Results, errors and panics\<close>

text \<open>
  \<open>result\<close> is Rust's \<open>Result\<close>; \<open>exec\<close> is a computation that returns or panics.
  A panic keeps the message of the \<open>expect\<close> (or of the standard library) that raised it.
\<close>

datatype ('e, 'a) result = Ok 'a | Err 'e

datatype 'a exec = Ret 'a | Panic string

fun is_ok :: "('e, 'a) result \<Rightarrow> bool" where
  "is_ok (Ok _) = True"
| "is_ok (Err _) = False"

fun no_panic :: "'a exec \<Rightarrow> bool" where
  "no_panic (Ret _) = True"
| "no_panic (Panic _) = False"

fun exec_bind :: "'a exec \<Rightarrow> ('a \<Rightarrow> 'b exec) \<Rightarrow> 'b exec" where
  "exec_bind (Ret a) f = f a"
| "exec_bind (Panic m) f = Panic m"

lemma exec_bind_Ret_iff [simp]:
  "exec_bind m f = Ret b \<longleftrightarrow> (\<exists>a. m = Ret a \<and> f a = Ret b)"
  by (cases m) auto

lemma no_panic_iff: "no_panic m \<longleftrightarrow> (\<exists>a. m = Ret a)"
  by (cases m) auto

lemma no_panic_bind [intro]:
  "no_panic m \<Longrightarrow> (\<And>a. m = Ret a \<Longrightarrow> no_panic (f a)) \<Longrightarrow> no_panic (exec_bind m f)"
  by (cases m) auto

text \<open>I/O errors: the kind the code looks at, and the text it formats.\<close>

datatype io_kind = Interrupted | WouldBlock | OtherKind

datatype io_error = IoError (io_kind: io_kind) (io_text: string)

section \<open>Hash maps\<close>

text \<open>
  A \<open>HashMap\<close> is an association list with distinct keys, so that \<open>len\<close>, \<open>is_empty\<close> and
  \<open>drain\<close> compute. The order of \<open>drain\<close> is unspecified in Rust; nothing proved here
  depends on it. The code reads the maps through the five operations below.
\<close>

type_synonym ('k, 'v) hashmap = "('k \<times> 'v) list"

definition hm_get :: "('k, 'v) hashmap \<Rightarrow> 'k \<Rightarrow> 'v option" where
  "hm_get m k = map_of m k"

definition hm_delete :: "'k \<Rightarrow> ('k, 'v) hashmap \<Rightarrow> ('k, 'v) hashmap" where
  "hm_delete k m = filter (\<lambda>p. fst p \<noteq> k) m"

definition hm_insert :: "'k \<Rightarrow> 'v \<Rightarrow> ('k, 'v) hashmap \<Rightarrow> ('k, 'v) hashmap" where
  "hm_insert k v m = (k, v) # hm_delete k m"

definition hm_keys :: "('k, 'v) hashmap \<Rightarrow> 'k set" where
  "hm_keys m = set (map fst m)"

definition hm_wf :: "('k, 'v) hashmap \<Rightarrow> bool" where
  "hm_wf m \<longleftrightarrow> distinct (map fst m)"

lemma hm_wf_Nil [simp]: "hm_wf []"
  by (simp add: hm_wf_def)

lemma hm_keys_Nil [simp]: "hm_keys [] = {}"
  by (simp add: hm_keys_def)

lemma hm_get_Nil [simp]: "hm_get [] k = None"
  by (simp add: hm_get_def)

lemma hm_get_delete [simp]: "hm_get (hm_delete k m) x = (if x = k then None else hm_get m x)"
  by (induction m) (auto simp: hm_get_def hm_delete_def)

lemma hm_get_insert [simp]:
  "hm_get (hm_insert k v m) x = (if x = k then Some v else hm_get m x)"
  using hm_get_delete [of k m x] by (simp add: hm_insert_def hm_get_def)

lemma hm_keys_delete [simp]: "hm_keys (hm_delete k m) = hm_keys m - {k}"
  by (auto simp: hm_keys_def hm_delete_def)

lemma hm_keys_insert [simp]: "hm_keys (hm_insert k v m) = insert k (hm_keys m)"
  by (auto simp: hm_keys_def hm_delete_def hm_insert_def)

lemma hm_wf_delete [simp]: "hm_wf m \<Longrightarrow> hm_wf (hm_delete k m)"
  by (induction m) (auto simp: hm_wf_def hm_delete_def)

lemma hm_wf_insert [simp]: "hm_wf m \<Longrightarrow> hm_wf (hm_insert k v m)"
  using hm_wf_delete [of m k] by (auto simp: hm_wf_def hm_insert_def hm_delete_def)

lemma hm_get_None_iff: "hm_get m k = None \<longleftrightarrow> k \<notin> hm_keys m"
  by (simp add: hm_get_def hm_keys_def map_of_eq_None_iff)

lemma hm_get_SomeD: "hm_get m k = Some v \<Longrightarrow> k \<in> hm_keys m"
  by (metis hm_get_None_iff option.distinct(1))

lemma hm_mem_obtain: "k \<in> hm_keys m \<Longrightarrow> \<exists>v. hm_get m k = Some v"
  by (metis hm_get_None_iff not_None_eq)

lemma hm_delete_absent: "k \<notin> hm_keys m \<Longrightarrow> hm_delete k m = m"
  by (induction m) (auto simp: hm_keys_def hm_delete_def)

lemma hm_length_delete:
  "hm_wf m \<Longrightarrow> length (hm_delete k m) = (if k \<in> hm_keys m then length m - 1 else length m)"
proof (induction m)
  case Nil
  then show ?case by (simp add: hm_delete_def)
next
  case (Cons p m)
  then have "fst p \<notin> hm_keys m" and "hm_wf m"
    by (auto simp: hm_wf_def hm_keys_def)
  with Cons.IH hm_delete_absent [of k m] show ?case
    by (cases m) (auto simp: hm_delete_def hm_keys_def)
qed

lemma hm_length_pos: "k \<in> hm_keys m \<Longrightarrow> 0 < length m"
  by (cases m) (auto simp: hm_keys_def)

lemma hm_length_insert:
  "hm_wf m \<Longrightarrow> length (hm_insert k v m) = (if k \<in> hm_keys m then length m else Suc (length m))"
  using hm_length_pos [of k m] by (simp add: hm_insert_def hm_length_delete)

lemma hm_card: "hm_wf m \<Longrightarrow> card (hm_keys m) = length m"
  unfolding hm_wf_def hm_keys_def by (metis distinct_card length_map)

text \<open>The values a map holds, as a multiset.\<close>

definition hm_vals :: "('k, 'v) hashmap \<Rightarrow> 'v multiset" where
  "hm_vals m = mset (map snd m)"

lemma hm_vals_Nil [simp]: "hm_vals [] = {#}"
  by (simp add: hm_vals_def)

lemma hm_vals_insert:
  "hm_vals (hm_insert k v m) = add_mset v (hm_vals (hm_delete k m))"
  by (simp add: hm_vals_def hm_insert_def)

lemma hm_vals_delete:
  "hm_wf m \<Longrightarrow> hm_get m k = Some v \<Longrightarrow> hm_vals m = add_mset v (hm_vals (hm_delete k m))"
proof (induction m)
  case Nil
  then show ?case by simp
next
  case (Cons p m)
  then have wf: "hm_wf m" and new: "fst p \<notin> hm_keys m"
    by (auto simp: hm_wf_def hm_keys_def)
  show ?case
  proof (cases "fst p = k")
    case True
    with Cons.prems(2) new hm_delete_absent [of k m] show ?thesis
      by (cases p) (simp add: hm_get_def hm_delete_def hm_vals_def)
  next
    case False
    with Cons.prems(2) have "hm_get m k = Some v" by (cases p) (simp add: hm_get_def)
    with Cons.IH [OF wf] False show ?thesis by (simp add: hm_vals_def hm_delete_def)
  qed
qed

lemma hm_vals_delete_None: "hm_get m k = None \<Longrightarrow> hm_vals (hm_delete k m) = hm_vals m"
  by (simp add: hm_get_None_iff hm_delete_absent)

text \<open>
  The interface the server and the worker rely on: lookup after insert and delete, and
  the size of a well-formed table. Entries move between tables (a stream goes from
  \<open>reading\<close> to \<open>processing\<close> and back), and the facts the clients need are about such moves.
\<close>

locale stream_table =
  fixes get :: "'t \<Rightarrow> 'k \<Rightarrow> 'v option"
    and ins :: "'k \<Rightarrow> 'v \<Rightarrow> 't \<Rightarrow> 't"
    and del :: "'k \<Rightarrow> 't \<Rightarrow> 't"
    and len :: "'t \<Rightarrow> nat"
    and wf :: "'t \<Rightarrow> bool"
  assumes get_ins: "get (ins k v t) x = (if x = k then Some v else get t x)"
    and get_del: "get (del k t) x = (if x = k then None else get t x)"
    and wf_ins: "wf t \<Longrightarrow> wf (ins k v t)"
    and wf_del: "wf t \<Longrightarrow> wf (del k t)"
    and len_ins: "wf t \<Longrightarrow> len (ins k v t) = (if get t k = None then Suc (len t) else len t)"
    and len_del: "wf t \<Longrightarrow> get t k \<noteq> None \<Longrightarrow> Suc (len (del k t)) = len t"
begin

lemma len_ins_le: "wf t \<Longrightarrow> len (ins k v t) \<le> Suc (len t)"
  by (simp add: len_ins)

lemma len_del_le: "wf t \<Longrightarrow> get t k = Some v \<Longrightarrow> Suc (len (del k t)) \<le> len t"
  by (simp add: len_del)

lemma move_len_le:
  assumes "wf a" and "wf b" and "get a k = Some v"
  shows "len (del k a) + len (ins k' w b) \<le> len a + len b"
  using len_del_le [OF assms(1,3)] len_ins_le [OF assms(2), of k' w] by linarith

lemma move_len:
  assumes "wf a" and "wf b" and "get a k = Some v" and "get b k' = None"
  shows "len (del k a) + len (ins k' w b) = len a + len b"
  using assms len_del [of a k] by (simp add: len_ins)

lemma move_apart:
  assumes "\<And>x. get a x = None \<or> get b x = None"
  shows "get (del k a) x = None \<or> get (ins k w b) x = None"
  using assms by (auto simp: get_del get_ins)

end

interpretation hm: stream_table hm_get hm_insert hm_delete length hm_wf
proof unfold_locales
  fix t :: "('k, 'v) hashmap" and k v
  assume wf: "hm_wf t"
  show "length (hm_insert k v t) = (if hm_get t k = None then Suc (length t) else length t)"
    using wf by (simp add: hm_length_insert hm_get_None_iff)
next
  fix t :: "('k, 'v) hashmap" and k
  assume wf: "hm_wf t" and "hm_get t k \<noteq> None"
  then have "k \<in> hm_keys t" by (simp add: hm_get_None_iff)
  with wf show "Suc (length (hm_delete k t)) = length t"
    using hm_length_pos [of k t] by (simp add: hm_length_delete)
qed simp_all

section \<open>Runs of a step relation\<close>

text \<open>
  \<open>run step s xs t\<close>: from \<open>s\<close>, the inputs \<open>xs\<close> lead to \<open>t\<close>, one step each. An invariant
  of the steps is an invariant of the runs; each component that keeps state interprets
  the locale with its own step relation and invariant.
\<close>

inductive run :: "('i \<Rightarrow> 's \<Rightarrow> 's \<Rightarrow> bool) \<Rightarrow> 's \<Rightarrow> 'i list \<Rightarrow> 's \<Rightarrow> bool"
  for step where
  run_nil: "run step s [] s"
| run_cons: "step x s u \<Longrightarrow> run step u xs t \<Longrightarrow> run step s (x # xs) t"

inductive_cases run_NilE [elim!]: "run step s [] t"
inductive_cases run_ConsE: "run step s (x # xs) t"

inductive_simps run_Nil_iff [simp]: "run step s [] t"
inductive_simps run_Cons_iff [simp]: "run step s (x # xs) t"

lemma run_append: "run step s (xs @ ys) t \<longleftrightarrow> (\<exists>u. run step s xs u \<and> run step u ys t)"
  by (induction xs arbitrary: s) auto

locale step_invariant =
  fixes step :: "'i \<Rightarrow> 's \<Rightarrow> 's \<Rightarrow> bool"
    and inv :: "'s \<Rightarrow> bool"
  assumes step_inv: "step x s t \<Longrightarrow> inv s \<Longrightarrow> inv t"
begin

lemma run_inv: "run step s xs t \<Longrightarrow> inv s \<Longrightarrow> inv t"
  by (induction rule: run.induct) (blast intro: step_inv)+

lemma run_inv_prefix: "run step s (xs @ ys) t \<Longrightarrow> inv s \<Longrightarrow> \<exists>u. run step s xs u \<and> inv u"
  by (auto simp: run_append dest: run_inv)

end

section \<open>Byte buffers\<close>

text \<open>
  The compaction loop \<open>for n in 0..k { buf[n] = buf[n + off]; }\<close> that every buffer of the
  code ends with, one assignment at a time.
\<close>

function shift_loop :: "nat \<Rightarrow> nat \<Rightarrow> nat \<Rightarrow> bytes \<Rightarrow> bytes" where
  "shift_loop n k off buf =
     (if n < k then shift_loop (Suc n) k off (buf[n := buf ! (n + off)]) else buf)"
  by pat_completeness auto
termination
  by (relation "measure (\<lambda>(n, k, off, buf). k - n)") auto

declare shift_loop.simps [simp del]

lemma length_shift_loop [simp]: "length (shift_loop n k off buf) = length buf"
proof (induction n k off buf rule: shift_loop.induct)
  case (1 n k off buf)
  then show ?case by (simp add: shift_loop.simps [of n k off buf])
qed

lemma shift_loop_nth:
  "k + off \<le> length buf \<Longrightarrow> i < length buf \<Longrightarrow>
   shift_loop n k off buf ! i = (if n \<le> i \<and> i < k then buf ! (i + off) else buf ! i)"
proof (induction n k off buf rule: shift_loop.induct)
  case (1 n k off buf)
  show ?case
  proof (cases "n < k")
    case True
    with "1.IH" "1.prems"
    have "shift_loop (Suc n) k off (buf[n := buf ! (n + off)]) ! i =
        (if Suc n \<le> i \<and> i < k then buf[n := buf ! (n + off)] ! (i + off)
         else buf[n := buf ! (n + off)] ! i)"
      by simp
    with True "1.prems" show ?thesis
      by (auto simp: shift_loop.simps [of n k off buf] nth_list_update)
  next
    case False
    then show ?thesis by (auto simp: shift_loop.simps [of n k off buf])
  qed
qed

lemma take_shift_loop [buf_simps]:
  "k + off \<le> length buf \<Longrightarrow> take k (shift_loop 0 k off buf) = take k (drop off buf)"
  by (rule nth_equalityI) (auto simp: shift_loop_nth add.commute)

end
