(* ===== verification/RustStd.thy ===== *)
theory RustStd
  imports Prelude
begin

text \<open>
  The parts of the Rust standard library the sources call on values that matter to a
  property: integer parsing and printing, ASCII case, \<open>str::from_utf8\<close>, \<open>split\<close>,
  \<open>SocketAddrV4::from_str\<close> and the addition of a \<open>Duration\<close> to a \<open>SystemTime\<close>.
\<close>

section \<open>Unsigned integers: parse and print\<close>

definition digit_val :: "char \<Rightarrow> nat option" where
  "digit_val c = (let n = of_char c in if 48 \<le> n \<and> n \<le> (57 :: nat) then Some (n - 48) else None)"

definition digit_char :: "nat \<Rightarrow> char" where
  "digit_char d = char_of (48 + d)"

text \<open>One \<open>checked_mul\<close> and one \<open>checked_add\<close> per digit; the width is the bound.\<close>

fun parse_digits :: "nat \<Rightarrow> nat \<Rightarrow> string \<Rightarrow> nat option" where
  "parse_digits bound acc [] = Some acc"
| "parse_digits bound acc (c # cs) =
     (case digit_val c of
        None \<Rightarrow> None
      | Some d \<Rightarrow>
          (let a = acc * 10 + d in if a < bound then parse_digits bound a cs else None))"

text \<open>
  \<open>str::parse\<close> for an unsigned type: empty text and a sign alone are errors, a leading
  plus sign is skipped, a leading minus sign is not a digit.
\<close>

definition parse_unsigned :: "nat \<Rightarrow> string \<Rightarrow> nat option" where
  "parse_unsigned bound s =
     (case s of
        [] \<Rightarrow> None
      | c # cs \<Rightarrow> if c = CHR ''+'' then (if cs = [] then None else parse_digits bound 0 cs)
                  else parse_digits bound 0 s)"

definition parse_usize :: "string \<Rightarrow> nat option" where
  "parse_usize = parse_unsigned usize_bound"

definition parse_u64 :: "string \<Rightarrow> nat option" where
  "parse_u64 = parse_unsigned (2 ^ 64)"

lemmas parse_defs = parse_usize_def parse_u64_def parse_unsigned_def digit_val_def usize_bound_def

fun show_nat :: "nat \<Rightarrow> string" where
  "show_nat n = (if n < 10 then [digit_char n] else show_nat (n div 10) @ [digit_char (n mod 10)])"

declare show_nat.simps [simp del]

lemma of_char_digit_char [simp]: "d < 10 \<Longrightarrow> of_char (digit_char d) = 48 + d"
  by (simp add: digit_char_def)

lemma digit_val_digit_char [simp]: "d < 10 \<Longrightarrow> digit_val (digit_char d) = Some d"
  by (simp add: digit_val_def Let_def)

lemma digit_char_neq_plus [simp]: "d < 10 \<Longrightarrow> digit_char d \<noteq> CHR ''+''"
proof
  assume "d < 10" and "digit_char d = CHR ''+''"
  then have "48 + d = of_char (CHR ''+'')" by (metis of_char_digit_char)
  then show False by simp
qed

lemma digit_val_bound: "digit_val c = Some d \<Longrightarrow> d < 10"
  by (auto simp: digit_val_def Let_def split: if_splits)

lemma show_nat_nonempty [simp]: "show_nat n \<noteq> []"
  by (subst show_nat.simps) simp

lemma parse_digits_append:
  "parse_digits bound acc (xs @ ys) =
     (case parse_digits bound acc xs of None \<Rightarrow> None | Some a \<Rightarrow> parse_digits bound a ys)"
  by (induction bound acc xs rule: parse_digits.induct)
    (auto simp: Let_def split: option.splits)

lemma parse_digits_show: "n < bound \<Longrightarrow> parse_digits bound 0 (show_nat n) = Some n"
proof (induction n rule: show_nat.induct)
  case (1 n)
  show ?case
  proof (cases "n < 10")
    case True
    with "1.prems" show ?thesis by (subst show_nat.simps) simp
  next
    case False
    with "1.prems" have "n div 10 < bound" by linarith
    with False "1.IH" have "parse_digits bound 0 (show_nat (n div 10)) = Some (n div 10)"
      by simp
    with False "1.prems" show ?thesis
      by (subst show_nat.simps) (simp add: parse_digits_append Let_def)
  qed
qed

lemma hd_show_nat: "\<exists>d < 10. hd (show_nat n) = digit_char d"
proof (induction n rule: show_nat.induct)
  case (1 n)
  then show ?case
    by (cases "n < 10") (auto simp: show_nat.simps [of n])
qed

lemma parse_show_nat: "n < bound \<Longrightarrow> parse_unsigned bound (show_nat n) = Some n"
  using hd_show_nat [of n] parse_digits_show [of n bound]
  by (cases "show_nat n") (auto simp: parse_unsigned_def)

lemma parse_digits_bound:
  "parse_digits bound acc s = Some n \<Longrightarrow> acc < bound \<Longrightarrow> n < bound"
  by (induction bound acc s rule: parse_digits.induct)
    (auto simp: Let_def split: option.splits if_splits)

lemma parse_unsigned_bound: "0 < bound \<Longrightarrow> parse_unsigned bound s = Some n \<Longrightarrow> n < bound"
  by (auto simp: parse_unsigned_def simp del: parse_digits.simps
      split: list.splits if_splits intro: parse_digits_bound)

lemma parse_usize_bound: "parse_usize s = Some n \<Longrightarrow> n < usize_bound"
  by (auto simp: parse_usize_def usize_bound_def dest!: parse_unsigned_bound [rotated])

section \<open>ASCII case\<close>

definition ascii_lower :: "char \<Rightarrow> char" where
  "ascii_lower c = (let n = of_char c :: nat in if 65 \<le> n \<and> n \<le> 90 then char_of (n + 32) else c)"

definition ascii_upper :: "char \<Rightarrow> char" where
  "ascii_upper c = (let n = of_char c :: nat in if 97 \<le> n \<and> n \<le> 122 then char_of (n - 32) else c)"

definition eq_ignore_ascii_case :: "string \<Rightarrow> string \<Rightarrow> bool" where
  "eq_ignore_ascii_case a b \<longleftrightarrow> map ascii_lower a = map ascii_lower b"

lemma eq_ignore_ascii_case_refl [simp]: "eq_ignore_ascii_case a a"
  by (simp add: eq_ignore_ascii_case_def)

lemma eq_ignore_ascii_case_sym: "eq_ignore_ascii_case a b \<Longrightarrow> eq_ignore_ascii_case b a"
  by (simp add: eq_ignore_ascii_case_def)

lemma eq_ignore_ascii_case_trans:
  "eq_ignore_ascii_case a b \<Longrightarrow> eq_ignore_ascii_case b c \<Longrightarrow> eq_ignore_ascii_case a c"
  by (simp add: eq_ignore_ascii_case_def)

section \<open>UTF-8\<close>

definition in_range :: "nat \<Rightarrow> nat \<Rightarrow> char \<Rightarrow> bool" where
  "in_range lo hi c \<longleftrightarrow> lo \<le> of_char c \<and> of_char c \<le> hi"

definition cont_byte :: "char \<Rightarrow> bool" where
  "cont_byte = in_range 128 191"

text \<open>The well-formed sequences of \<open>str::from_utf8\<close>, by the range of the first byte.\<close>

fun utf8_valid :: "bytes \<Rightarrow> bool" where
  "utf8_valid [] = True"
| "utf8_valid (a # r) =
     (if in_range 0 127 a then utf8_valid r
      else if in_range 194 223 a then
        (case r of b # r' \<Rightarrow> cont_byte b \<and> utf8_valid r' | _ \<Rightarrow> False)
      else if in_range 224 239 a then
        (case r of
           b # c # r' \<Rightarrow>
             in_range (if of_char a = (224 :: nat) then 160 else 128)
                      (if of_char a = (237 :: nat) then 159 else 191) b
             \<and> cont_byte c \<and> utf8_valid r'
         | _ \<Rightarrow> False)
      else if in_range 240 244 a then
        (case r of
           b # c # d # r' \<Rightarrow>
             in_range (if of_char a = (240 :: nat) then 144 else 128)
                      (if of_char a = (244 :: nat) then 143 else 191) b
             \<and> cont_byte c \<and> cont_byte d \<and> utf8_valid r'
         | _ \<Rightarrow> False)
      else False)"

lemma utf8_valid_ascii: "\<forall>c \<in> set s. in_range 0 127 c \<Longrightarrow> utf8_valid s"
  by (induction s) auto

section \<open>Splitting\<close>

text \<open>\<open>str::split\<close> at one character: \<open>n\<close> separators give \<open>n + 1\<close> parts.\<close>

fun split_at_char :: "char \<Rightarrow> string \<Rightarrow> string list" where
  "split_at_char d [] = [[]]"
| "split_at_char d (c # cs) =
     (if c = d then [] # split_at_char d cs
      else (case split_at_char d cs of [] \<Rightarrow> [[c]] | p # ps \<Rightarrow> (c # p) # ps))"

lemma split_at_char_nonempty [simp]: "split_at_char d s \<noteq> []"
  by (cases s) (auto split: list.splits)

lemma length_split_at_char: "length (split_at_char d s) = Suc (count_list s d)"
  by (induction s) (auto split: list.splits)

lemma split_at_char_no_sep: "d \<notin> set s \<Longrightarrow> split_at_char d s = [s]"
  by (induction s) auto

lemma split_at_char_append:
  "d \<notin> set s \<Longrightarrow> split_at_char d (s @ d # t) = s # split_at_char d t"
  by (induction s) auto

lemma split_at_char_parts:
  "split_at_char d s = p # ps \<Longrightarrow> s = p @ concat (map (\<lambda>x. d # x) ps) \<and> (\<forall>x \<in> set (p # ps). d \<notin> set x)"
proof (induction s arbitrary: p ps)
  case Nil
  then show ?case by simp
next
  case (Cons c s)
  obtain q qs where q: "split_at_char d s = q # qs" by (cases "split_at_char d s") auto
  from Cons.IH [OF q] have ih: "s = q @ concat (map (\<lambda>x. d # x) qs)" "\<forall>x \<in> set (q # qs). d \<notin> set x"
    by blast+
  show ?case
  proof (cases "c = d")
    case True
    with Cons.prems q have "p = []" "ps = q # qs" by simp_all
    with ih True show ?thesis by simp
  next
    case False
    with Cons.prems q have "p = c # q" "ps = qs" by simp_all
    with ih False show ?thesis by simp
  qed
qed

section \<open>Socket addresses\<close>

text \<open>
  \<open>SocketAddrV4::from_str\<close>: four decimal octets of at most three digits without a leading
  zero, a colon, and a 16-bit decimal port that may have leading zeros. \<open>read_number\<close>
  reads the longest run of digits and fails when the value leaves its width.
\<close>

record sock_addr_v4 =
  sa_ip :: "nat \<times> nat \<times> nat \<times> nat"
  sa_port :: u16

definition is_digit :: "char \<Rightarrow> bool" where
  "is_digit c \<longleftrightarrow> digit_val c \<noteq> None"

definition read_number :: "nat \<Rightarrow> nat option \<Rightarrow> bool \<Rightarrow> string \<Rightarrow> (nat \<times> string) option" where
  "read_number bound max_digits allow_zero_prefix s =
     (let ds = takeWhile is_digit s; rest = dropWhile is_digit s
      in if ds = [] then None
         else if (case max_digits of None \<Rightarrow> False | Some m \<Rightarrow> m < length ds) then None
         else if \<not> allow_zero_prefix \<and> hd ds = CHR ''0'' \<and> 1 < length ds then None
         else (case parse_digits bound 0 ds of None \<Rightarrow> None | Some n \<Rightarrow> Some (n, rest)))"

definition read_given_char :: "char \<Rightarrow> string \<Rightarrow> string option" where
  "read_given_char c s = (case s of [] \<Rightarrow> None | x # xs \<Rightarrow> if x = c then Some xs else None)"

definition read_octet :: "string \<Rightarrow> (nat \<times> string) option" where
  "read_octet = read_number 256 (Some 3) False"

definition read_dot_octet :: "string \<Rightarrow> (nat \<times> string) option" where
  "read_dot_octet s = Option.bind (read_given_char (CHR ''.'') s) read_octet"

definition parse_sock_addr_v4 :: "string \<Rightarrow> sock_addr_v4 option" where
  "parse_sock_addr_v4 s =
     Option.bind (read_octet s) (\<lambda>(a, s1).
     Option.bind (read_dot_octet s1) (\<lambda>(b, s2).
     Option.bind (read_dot_octet s2) (\<lambda>(c, s3).
     Option.bind (read_dot_octet s3) (\<lambda>(d, s4).
     Option.bind (read_given_char (CHR '':'') s4) (\<lambda>s5.
     Option.bind (read_number (2 ^ 16) None True s5) (\<lambda>(p, s6).
     if s6 = [] then Some \<lparr>sa_ip = (a, b, c, d), sa_port = of_nat p\<rparr> else None))))))"

section \<open>Time\<close>

text \<open>
  \<open>SystemTime + Duration\<close> panics when the seconds leave the signed 64-bit field.
\<close>

definition systime_add :: "systime \<Rightarrow> duration \<Rightarrow> systime exec" where
  "systime_add t d =
     (if (t + d) div 1000000000 < 2 ^ 63 then Ret (t + d)
      else Panic ''overflow when adding duration to instant'')"

end
