(* ===== verification/Config.thy ===== *)
theory Config
  imports RustStd
begin

text \<open>
  \<open>src/config.rs\<close>: the configuration record, its defaults, and \<open>from_env\<close>, which folds
  over the environment variables and stops at the first bad value. The file
  \<open>/etc/hostname\<close> and the environment are arguments.
\<close>

record config =
  num_workers :: nat
  num_threads :: nat
  bind_addr :: sock_addr_v4
  hostname :: string
  max_conns :: nat
  max_requests :: nat
  body_stacktrace :: bool
  log_response :: bool
  ctrlc_wait_time :: duration
  request_read_timeout :: duration
  python_code_timeout :: duration
  version :: "nat \<times> nat"

definition VERSION :: "nat \<times> nat" where
  "VERSION = (0, 2)"

text \<open>
  \<open>str::trim_end\<close> on the reversed bytes: the UTF-8 encodings of the \<open>White_Space\<close>
  characters, of one, two and three bytes.
\<close>

fun strip_ws_rev :: "nat list \<Rightarrow> nat list" where
  "strip_ws_rev [] = []"
| "strip_ws_rev (a # r) =
     (if a = 32 \<or> (9 \<le> a \<and> a \<le> 13) then strip_ws_rev r
      else (case r of
          b # r' \<Rightarrow>
            if b = 194 \<and> (a = 133 \<or> a = 160) then strip_ws_rev r'
            else (case r' of
                c # r'' \<Rightarrow>
                  if (c = 225 \<and> b = 154 \<and> a = 128)
                    \<or> (c = 226 \<and> b = 128 \<and> (128 \<le> a \<and> a \<le> 138 \<or> a = 168 \<or> a = 169 \<or> a = 175))
                    \<or> (c = 226 \<and> b = 129 \<and> a = 159)
                    \<or> (c = 227 \<and> b = 128 \<and> a = 128)
                  then strip_ws_rev r'' else a # r
              | [] \<Rightarrow> a # r)
        | [] \<Rightarrow> a # r))"

definition trim_end :: "string \<Rightarrow> string" where
  "trim_end s = map char_of (rev (strip_ws_rev (rev (map of_char s))))"

definition default_config :: "(io_error, string) result \<Rightarrow> config" where
  "default_config hostname_file =
     \<lparr>num_workers = 3, num_threads = 2,
      bind_addr = \<lparr>sa_ip = (0, 0, 0, 0), sa_port = 8080\<rparr>,
      hostname = trim_end (case hostname_file of Ok s \<Rightarrow> s | Err _ \<Rightarrow> ''casket''),
      max_conns = 256, max_requests = 64,
      body_stacktrace = True, log_response = True,
      ctrlc_wait_time = from_secs 10, request_read_timeout = from_secs 30,
      python_code_timeout = from_secs 10, version = VERSION\<rparr>"

section \<open>Reading the environment\<close>

text \<open>\<open>parse().map_err(..)\<close> on an unsigned type, with the arm's own message.\<close>

definition parse_or :: "string \<Rightarrow> 'a option \<Rightarrow> (string, 'a) result" where
  "parse_or msg v = (case v of None \<Rightarrow> Err msg | Some x \<Rightarrow> Ok x)"

definition parse_bool01 :: "string \<Rightarrow> string \<Rightarrow> (string, bool) result" where
  "parse_bool01 msg s =
     (case parse_usize s of
        None \<Rightarrow> Err msg
      | Some n \<Rightarrow> if n = 0 then Ok False else if n = 1 then Ok True else Err msg)"

fun map_result :: "('a \<Rightarrow> 'b) \<Rightarrow> ('e, 'a) result \<Rightarrow> ('e, 'b) result" where
  "map_result f (Ok a) = Ok (f a)"
| "map_result f (Err e) = Err e"

definition config_var :: "string \<Rightarrow> string \<Rightarrow> config \<Rightarrow> (string, config) result" where
  "config_var key v slf =
     (if key = ''CASKET_BIND_ADDR'' then
        map_result (\<lambda>a. slf\<lparr>bind_addr := a\<rparr>)
          (parse_or ''CASKET_BIND_ADDR invalid - AddrParseError(SocketV4)'' (parse_sock_addr_v4 v))
      else if key = ''CASKET_NUM_WORKERS'' then
        map_result (\<lambda>n. slf\<lparr>num_workers := n\<rparr>)
          (parse_or ''CASKET_NUM_WORKERS must be positive integer'' (parse_usize v))
      else if key = ''CASKET_NUM_THREADS_PER_WORKER'' then
        map_result (\<lambda>n. slf\<lparr>num_threads := n\<rparr>)
          (parse_or ''CASKET_NUM_THREADS_PER-WORKER must be positive integer'' (parse_usize v))
      else if key = ''CASKET_MAX_CONNECTIONS'' then
        map_result (\<lambda>n. slf\<lparr>max_conns := n\<rparr>)
          (parse_or ''CASKET_MAX_CONNECTIONS must be positive integer'' (parse_usize v))
      else if key = ''CASKET_MAX_REQUESTS'' then
        map_result (\<lambda>n. slf\<lparr>max_requests := n\<rparr>)
          (parse_or ''CASKET_MAX_REQUESTS must be positive integer'' (parse_usize v))
      else if key = ''CASKET_RETURN_STACKTRACE_IN_BODY'' then
        map_result (\<lambda>b. slf\<lparr>body_stacktrace := b\<rparr>)
          (parse_bool01 ''CASKET_RETURN_STACKTRACE_IN_BODY must be 0 or 1'' v)
      else if key = ''CASKET_LOG_HTTP_RESPONSE'' then
        map_result (\<lambda>b. slf\<lparr>log_response := b\<rparr>)
          (parse_bool01 ''CASKET_LOG_HTTP_RESPONSE must be 0 or 1'' v)
      else if key = ''CASKET_CTRLC_WAIT_TIME'' then
        map_result (\<lambda>n. slf\<lparr>ctrlc_wait_time := from_secs n\<rparr>)
          (parse_or ''CASKET_CTRLC_WAIT_TIME must be a positive integer'' (parse_u64 v))
      else if key = ''CASKET_REQUEST_READ_TIMEOUT'' then
        map_result (\<lambda>n. slf\<lparr>request_read_timeout := from_secs n\<rparr>)
          (parse_or ''CASKET_CTRLC_READ_TIMEOUT must be a positive integer'' (parse_u64 v))
      else if key = ''CASKET_PYTHON_CODE_GATEWAY_TIMEOUT'' then
        map_result (\<lambda>n. slf\<lparr>python_code_timeout := from_secs n\<rparr>)
          (parse_or ''CASKET_PYTHON_CODE_GATEWAY_TIMEOUT must be a positive integer'' (parse_u64 v))
      else Ok slf)"

fun env_loop :: "(string \<times> string) list \<Rightarrow> config \<Rightarrow> (string, config) result" where
  "env_loop [] slf = Ok slf"
| "env_loop ((key, v) # vars) slf =
     (case config_var key v slf of Err s \<Rightarrow> Err s | Ok slf' \<Rightarrow> env_loop vars slf')"

definition from_env ::
  "(io_error, string) result \<Rightarrow> (string \<times> string) list \<Rightarrow> (string, config) result" where
  "from_env hostname_file vars = env_loop vars (default_config hostname_file)"

definition port :: "config \<Rightarrow> u16" where
  "port c = sa_port (bind_addr c)"

section \<open>What a variable does to a setting\<close>

lemma map_result_Ok [simp]: "map_result f r = Ok b \<longleftrightarrow> (\<exists>a. r = Ok a \<and> b = f a)"
  by (cases r) auto

lemma is_ok_map_result [simp]: "is_ok (map_result f r) = is_ok r"
  by (cases r) auto

lemma parse_or_Ok [simp]: "parse_or m v = Ok a \<longleftrightarrow> v = Some a"
  by (auto simp: parse_or_def split: option.splits)

lemma is_ok_parse_or [simp]: "is_ok (parse_or m v) \<longleftrightarrow> v \<noteq> None"
  by (auto simp: parse_or_def split: option.splits)

lemma parse_bool01_Ok [simp]:
  "parse_bool01 m s = Ok b \<longleftrightarrow> parse_usize s = Some (if b then 1 else 0)"
  by (auto simp: parse_bool01_def split: option.splits if_splits)

lemma is_ok_parse_bool01 [simp]:
  "is_ok (parse_bool01 m s) \<longleftrightarrow> parse_usize s = Some 0 \<or> parse_usize s = Some 1"
  by (auto simp: parse_bool01_def split: option.splits if_splits)

definition setting :: "(string \<times> string) list \<Rightarrow> string \<Rightarrow> (string \<Rightarrow> 'v) \<Rightarrow> 'v \<Rightarrow> 'v" where
  "setting vars key val dflt = (case map_of (rev vars) key of None \<Rightarrow> dflt | Some v \<Rightarrow> val v)"

lemma setting_Nil [simp]: "setting [] key val dflt = dflt"
  by (simp add: setting_def)

lemma setting_Cons:
  "setting ((k, v) # vars) key val dflt = setting vars key val (if k = key then val v else dflt)"
  by (auto simp: setting_def map_add_def split: option.splits)

text \<open>
  A setting is a field of the configuration, the variable that sets it and the reading of
  the variable's text; no other variable touches the field. The last occurrence wins.
\<close>

locale env_setting =
  fixes field :: "config \<Rightarrow> 'v" and key :: string and val :: "string \<Rightarrow> 'v"
  assumes own: "config_var key v c = Ok c' \<Longrightarrow> field c' = val v"
    and other: "k \<noteq> key \<Longrightarrow> config_var k v c = Ok c' \<Longrightarrow> field c' = field c"
begin

lemma env_loop_field:
  "env_loop vars c = Ok c' \<Longrightarrow>
   field c' = setting vars key val (field c)"
proof (induction vars arbitrary: c)
  case Nil
  then show ?case by simp
next
  case (Cons kv vars)
  obtain k v where kv: "kv = (k, v)" by (cases kv)
  from Cons.prems kv obtain d where d: "config_var k v c = Ok d" and l: "env_loop vars d = Ok c'"
    by (auto split: result.splits)
  have "field d = (if k = key then val v else field c)"
    using d own other by auto
  with Cons.IH [OF l] show ?case
    by (simp add: kv setting_Cons)
qed

end

definition secs_val :: "string \<Rightarrow> duration" where
  "secs_val v = from_secs (the (parse_u64 v))"

definition usize_val :: "string \<Rightarrow> nat" where
  "usize_val v = the (parse_usize v)"

definition flag_val :: "string \<Rightarrow> bool" where
  "flag_val v \<longleftrightarrow> parse_usize v = Some 1"

lemmas setting_defs = config_var_def secs_val_def usize_val_def flag_val_def

interpretation s_workers: env_setting num_workers "''CASKET_NUM_WORKERS''" usize_val
  by unfold_locales (auto simp: setting_defs split: if_splits)
interpretation s_threads: env_setting num_threads "''CASKET_NUM_THREADS_PER_WORKER''" usize_val
  by unfold_locales (auto simp: setting_defs split: if_splits)
interpretation s_conns: env_setting max_conns "''CASKET_MAX_CONNECTIONS''" usize_val
  by unfold_locales (auto simp: setting_defs split: if_splits)
interpretation s_requests: env_setting max_requests "''CASKET_MAX_REQUESTS''" usize_val
  by unfold_locales (auto simp: setting_defs split: if_splits)
interpretation s_addr: env_setting bind_addr "''CASKET_BIND_ADDR''"
    "\<lambda>v. the (parse_sock_addr_v4 v)"
  by unfold_locales (auto simp: setting_defs split: if_splits)
interpretation s_trace: env_setting body_stacktrace "''CASKET_RETURN_STACKTRACE_IN_BODY''" flag_val
  by unfold_locales (auto simp: setting_defs split: if_splits)
interpretation s_log: env_setting log_response "''CASKET_LOG_HTTP_RESPONSE''" flag_val
  by unfold_locales (auto simp: setting_defs split: if_splits)
interpretation s_ctrlc: env_setting ctrlc_wait_time "''CASKET_CTRLC_WAIT_TIME''" secs_val
  by unfold_locales (auto simp: setting_defs split: if_splits)
interpretation s_read: env_setting request_read_timeout "''CASKET_REQUEST_READ_TIMEOUT''" secs_val
  by unfold_locales (auto simp: setting_defs split: if_splits)
interpretation s_code: env_setting python_code_timeout "''CASKET_PYTHON_CODE_GATEWAY_TIMEOUT''" secs_val
  by unfold_locales (auto simp: setting_defs split: if_splits)

text \<open>Which values a variable accepts; it does not depend on the rest of the configuration.\<close>

definition valid_var :: "string \<Rightarrow> string \<Rightarrow> bool" where
  "valid_var key v \<longleftrightarrow>
     (if key = ''CASKET_BIND_ADDR'' then parse_sock_addr_v4 v \<noteq> None
      else if key \<in> {''CASKET_NUM_WORKERS'', ''CASKET_NUM_THREADS_PER_WORKER'',
                     ''CASKET_MAX_CONNECTIONS'', ''CASKET_MAX_REQUESTS''} then parse_usize v \<noteq> None
      else if key \<in> {''CASKET_RETURN_STACKTRACE_IN_BODY'', ''CASKET_LOG_HTTP_RESPONSE''}
        then parse_usize v = Some 0 \<or> parse_usize v = Some 1
      else if key \<in> {''CASKET_CTRLC_WAIT_TIME'', ''CASKET_REQUEST_READ_TIMEOUT'',
                     ''CASKET_PYTHON_CODE_GATEWAY_TIMEOUT''} then parse_u64 v \<noteq> None
      else True)"

lemma config_var_ok: "is_ok (config_var key v c) \<longleftrightarrow> valid_var key v"
  by (simp add: config_var_def valid_var_def)

lemma env_loop_ok: "is_ok (env_loop vars c) \<longleftrightarrow> list_all (\<lambda>(k, v). valid_var k v) vars"
proof (induction vars arbitrary: c)
  case Nil
  then show ?case by simp
next
  case (Cons kv vars)
  obtain k v where kv: "kv = (k, v)" by (cases kv)
  show ?case
    using Cons.IH config_var_ok [of k v c] by (cases "config_var k v c") (auto simp: kv)
qed

text \<open>\<open>from_env\<close> succeeds exactly when every variable the program knows has an
  acceptable value; unknown variables are ignored.\<close>

theorem from_env_ok_iff:
  "is_ok (from_env host vars) \<longleftrightarrow> list_all (\<lambda>(k, v). valid_var k v) vars"
  by (simp add: from_env_def env_loop_ok)

text \<open>C30: when it succeeds, every setting is the reading of its own variable (the last
  occurrence) and the documented default where the variable is absent.\<close>

theorem from_env_settings:
  assumes "from_env host vars = Ok c"
  shows "num_workers c = setting vars ''CASKET_NUM_WORKERS'' usize_val 3
    \<and> num_threads c = setting vars ''CASKET_NUM_THREADS_PER_WORKER'' usize_val 2
    \<and> max_conns c = setting vars ''CASKET_MAX_CONNECTIONS'' usize_val 256
    \<and> max_requests c = setting vars ''CASKET_MAX_REQUESTS'' usize_val 64
    \<and> bind_addr c = setting vars ''CASKET_BIND_ADDR'' (\<lambda>v. the (parse_sock_addr_v4 v))
        \<lparr>sa_ip = (0, 0, 0, 0), sa_port = 8080\<rparr>
    \<and> body_stacktrace c = setting vars ''CASKET_RETURN_STACKTRACE_IN_BODY'' flag_val True
    \<and> log_response c = setting vars ''CASKET_LOG_HTTP_RESPONSE'' flag_val True
    \<and> ctrlc_wait_time c = setting vars ''CASKET_CTRLC_WAIT_TIME'' secs_val (from_secs 10)
    \<and> request_read_timeout c = setting vars ''CASKET_REQUEST_READ_TIMEOUT'' secs_val (from_secs 30)
    \<and> python_code_timeout c =
        setting vars ''CASKET_PYTHON_CODE_GATEWAY_TIMEOUT'' secs_val (from_secs 10)"
proof -
  from assms have l: "env_loop vars (default_config host) = Ok c"
    by (simp add: from_env_def)
  show ?thesis
    by (simp add: default_config_def
        s_workers.env_loop_field [OF l] s_threads.env_loop_field [OF l]
        s_conns.env_loop_field [OF l] s_requests.env_loop_field [OF l]
        s_addr.env_loop_field [OF l] s_trace.env_loop_field [OF l]
        s_log.env_loop_field [OF l] s_ctrlc.env_loop_field [OF l]
        s_read.env_loop_field [OF l] s_code.env_loop_field [OF l])
qed

theorem from_env_settings_witness:
  "\<exists>c. from_env (Ok ''box'') [(''CASKET_NUM_WORKERS'', ''5''), (''HOME'', ''/''),
      (''CASKET_CTRLC_WAIT_TIME'', ''25'')] = Ok c
    \<and> num_workers c = 5 \<and> num_threads c = 2 \<and> ctrlc_wait_time c = 25000000000"
proof -
  let ?vars = "[(''CASKET_NUM_WORKERS'', ''5''), (''HOME'', ''/''), (''CASKET_CTRLC_WAIT_TIME'', ''25'')]"
  have "parse_usize ''5'' = Some 5" and "parse_u64 ''25'' = Some 25"
    by (simp_all add: parse_defs)
  then have v: "valid_var ''CASKET_NUM_WORKERS'' ''5''" "valid_var ''HOME'' ''/''"
      "valid_var ''CASKET_CTRLC_WAIT_TIME'' ''25''" "usize_val ''5'' = 5" "secs_val ''25'' = 25000000000"
    by (simp_all add: valid_var_def usize_val_def secs_val_def from_secs_def)
  then have "is_ok (from_env (Ok ''box'') ?vars)"
    by (simp add: from_env_def env_loop_ok del: env_loop.simps)
  then obtain c where c: "from_env (Ok ''box'') ?vars = Ok c"
    by (cases "from_env (Ok ''box'') ?vars") auto
  have "setting ?vars ''CASKET_NUM_WORKERS'' usize_val 3 = 5"
    and "setting ?vars ''CASKET_NUM_THREADS_PER_WORKER'' usize_val 2 = 2"
    and "setting ?vars ''CASKET_CTRLC_WAIT_TIME'' secs_val (from_secs 10) = 25000000000"
    using v by (simp_all add: setting_Cons)
  with c from_env_settings [OF c] show ?thesis by simp
qed

text \<open>The numeric settings never leave the width of \<open>usize\<close>.\<close>

lemma from_env_usize_bounds:
  assumes "from_env host vars = Ok c"
  shows "num_workers c < usize_bound \<and> max_conns c < usize_bound \<and> max_requests c < usize_bound"
proof -
  have ok: "setting vars k usize_val d < usize_bound"
    if "d < usize_bound" and "k \<in> {''CASKET_NUM_WORKERS'', ''CASKET_MAX_CONNECTIONS'', ''CASKET_MAX_REQUESTS''}"
    for k d
  proof (cases "map_of (rev vars) k")
    case None
    with that show ?thesis by (simp add: setting_def)
  next
    case (Some v)
    then have "(k, v) \<in> set vars" by (auto dest: map_of_SomeD)
    moreover have "list_all (\<lambda>(k, v). valid_var k v) vars"
      using assms env_loop_ok [of vars "default_config host"] by (simp add: from_env_def)
    ultimately have "valid_var k v" by (auto simp: list_all_iff)
    with that(2) have "parse_usize v \<noteq> None" by (auto simp: valid_var_def)
    then show ?thesis
      using Some parse_usize_bound by (auto simp: setting_def usize_val_def)
  qed
  have l: "env_loop vars (default_config host) = Ok c"
    using assms by (simp add: from_env_def)
  have "3 < usize_bound" "256 < usize_bound" "64 < usize_bound"
    by (simp_all add: usize_bound_def)
  then show ?thesis
    by (simp add: s_workers.env_loop_field [OF l] s_conns.env_loop_field [OF l]
        s_requests.env_loop_field [OF l] ok default_config_def)
qed

end
