(* ===== verification/Workq.thy ===== *)
theory Workq
  imports Prelude
begin

text \<open>
  \<open>src/workq.rs\<close>: the round-robin queue that hands requests to the Python threads. A
  sender holds one \<open>mpsc\<close> channel per thread and the position it served last; a channel
  whose receiver has been dropped is removed when a send to it fails.
\<close>

section \<open>Channels\<close>

text \<open>
  The sending end of a standard-library \<open>mpsc\<close> channel: the messages not yet received and
  whether the receiver is still there. \<open>send\<close> gives the message back when it is not.
\<close>

record 't chan =
  chan_queue :: "'t list"
  chan_open :: bool

definition chan_new :: "'t chan" where
  "chan_new = \<lparr>chan_queue = [], chan_open = True\<rparr>"

definition chan_push :: "'t \<Rightarrow> 't chan \<Rightarrow> 't chan" where
  "chan_push t c = c\<lparr>chan_queue := chan_queue c @ [t]\<rparr>"

definition chan_send :: "'t chan \<Rightarrow> 't \<Rightarrow> ('t, 't chan) result" where
  "chan_send c t = (if chan_open c then Ok (chan_push t c) else Err t)"

section \<open>The queue\<close>

record 't sender =
  sender_pos :: nat
  senders :: "'t chan list"

definition workq_new :: "'t sender" where
  "workq_new = \<lparr>sender_pos = 0, senders = []\<rparr>"

definition new_recv :: "'t sender \<Rightarrow> 't sender" where
  "new_recv s = s\<lparr>senders := senders s @ [chan_new]\<rparr>"

text \<open>\<open>Vec::remove\<close>, at an index in range.\<close>

definition vec_remove :: "nat \<Rightarrow> 'a list \<Rightarrow> 'a list" where
  "vec_remove i xs = take i xs @ drop (Suc i) xs"

lemma length_vec_remove [simp]: "i < length xs \<Longrightarrow> length (vec_remove i xs) = length xs - 1"
  by (simp add: vec_remove_def)

text \<open>The \<open>while\<close> loop of \<open>send\<close>; indexing out of range panics.\<close>

function send_loop :: "nat \<Rightarrow> 't chan list \<Rightarrow> 't \<Rightarrow> ('t sender \<times> ('t, unit) result) exec" where
  "send_loop pos ss t =
     (if ss = [] then Ret (\<lparr>sender_pos = pos, senders = ss\<rparr>, Err t)
      else
        (let pos = (if pos = length ss then 0 else pos)
         in if pos < length ss then
              (case chan_send (ss ! pos) t of
                 Ok c \<Rightarrow> Ret (\<lparr>sender_pos = pos, senders = ss[pos := c]\<rparr>, Ok ())
               | Err t' \<Rightarrow> send_loop pos (vec_remove pos ss) t')
            else Panic ''index out of bounds''))"
  by pat_completeness auto
termination
  by (relation "measure (\<lambda>(pos, ss, t). length ss)") auto

declare send_loop.simps [simp del]

definition workq_send :: "'t sender \<Rightarrow> 't \<Rightarrow> ('t sender \<times> ('t, unit) result) exec" where
  "workq_send s t = send_loop (sender_pos s + 1) (senders s) t"

section \<open>The ring it implements\<close>

text \<open>
  Seen from the position served last, the channels form a ring. A send turns the ring by
  one, drops the closed channels at its front and serves the first open one.
\<close>

definition ring_at :: "nat \<Rightarrow> 't chan list \<Rightarrow> 't chan list" where
  "ring_at pos ss = drop pos ss @ take pos ss"

definition ring :: "'t sender \<Rightarrow> 't chan list" where
  "ring s = ring_at (sender_pos s) (senders s)"

definition serve_first :: "'t \<Rightarrow> 't chan list \<Rightarrow> 't chan list option" where
  "serve_first t r =
     (case dropWhile (\<lambda>c. \<not> chan_open c) r of [] \<Rightarrow> None | c # cs \<Rightarrow> Some (chan_push t c # cs))"

definition ring_send :: "'t chan list \<Rightarrow> 't \<Rightarrow> 't chan list option" where
  "ring_send r t = serve_first t (rotate1 r)"

definition sender_inv :: "'t sender \<Rightarrow> bool" where
  "sender_inv s \<longleftrightarrow> senders s = [] \<or> sender_pos s < length (senders s)"

lemma ring_at_length [simp]: "ring_at (length ss) ss = ring_at 0 ss"
  by (simp add: ring_at_def)

lemma ring_at_Cons: "pos < length ss \<Longrightarrow> ring_at pos ss = ss ! pos # drop (Suc pos) ss @ take pos ss"
  by (simp add: ring_at_def Cons_nth_drop_Suc [symmetric])

lemma ring_at_update:
  "pos < length ss \<Longrightarrow> ring_at pos (ss[pos := c]) = c # drop (Suc pos) ss @ take pos ss"
  by (simp add: ring_at_Cons)

lemma ring_at_remove:
  "pos < length ss \<Longrightarrow> ring_at pos (vec_remove pos ss) = drop (Suc pos) ss @ take pos ss"
  by (simp add: ring_at_def vec_remove_def)

lemma set_ring [simp]: "sender_inv s \<Longrightarrow> set (ring s) = set (senders s)"
  using set_append [of "drop (sender_pos s) (senders s)" "take (sender_pos s) (senders s)"]
    append_take_drop_id [of "sender_pos s" "senders s"]
  unfolding ring_def ring_at_def by (metis set_append sup_commute)

lemma ring_Suc: "pos < length ss \<Longrightarrow> ring_at (Suc pos) ss = rotate1 (ring_at pos ss)"
  by (simp add: ring_at_Cons) (simp add: ring_at_def take_Suc_conv_app_nth)

lemma send_loop_Nil [simp]: "send_loop pos [] t = Ret (\<lparr>sender_pos = pos, senders = []\<rparr>, Err t)"
  by (simp add: send_loop.simps)

text \<open>What the loop does, from any position it can be entered with.\<close>

lemma send_loop_spec:
  assumes "pos \<le> length ss"
  shows "case serve_first t (ring_at pos ss) of
      None \<Rightarrow> (\<exists>p. send_loop pos ss t = Ret (\<lparr>sender_pos = p, senders = []\<rparr>, Err t))
    | Some r \<Rightarrow> (\<exists>s. send_loop pos ss t = Ret (s, Ok ()) \<and> sender_inv s \<and> senders s \<noteq> [] \<and> ring s = r)"
  using assms
proof (induction pos ss t rule: send_loop.induct)
  case (1 pos ss t)
  show ?case
  proof (cases "ss = []")
    case True
    then show ?thesis
      by (simp add: ring_at_def serve_first_def)
  next
    case False
    define q where "q = (if pos = length ss then 0 else pos)"
    have q: "q < length ss" and rq: "ring_at pos ss = ring_at q ss"
      using False "1.prems" by (auto simp: q_def)
    show ?thesis
    proof (cases "chan_open (ss ! q)")
      case True
      then have "send_loop pos ss t =
          Ret (\<lparr>sender_pos = q, senders = ss[q := chan_push t (ss ! q)]\<rparr>, Ok ())"
        using False q by (simp add: send_loop.simps [of pos ss t] q_def [symmetric] chan_send_def Let_def)
      moreover have "ss[q := chan_push t (ss ! q)] \<noteq> []" using False by simp
      ultimately show ?thesis
        using True q
        by (simp add: rq ring_at_Cons serve_first_def sender_inv_def ring_def ring_at_update)
    next
      case closed: False
      have ih: "send_loop pos ss t = send_loop q (vec_remove q ss) t"
        using False q closed
        by (simp add: send_loop.simps [of pos ss t] q_def [symmetric] chan_send_def Let_def)
      have "serve_first t (ring_at pos ss) = serve_first t (ring_at q (vec_remove q ss))"
        using q closed by (simp add: rq ring_at_Cons ring_at_remove serve_first_def)
      moreover have "q \<le> length (vec_remove q ss)" using q by simp
      ultimately show ?thesis
        using "1.IH" [OF False q_def q, of t] closed q unfolding ih by (simp add: chan_send_def)
    qed
  qed
qed

lemma rotate1_append_eq: "rotate1 (x # xs) = xs @ [x]"
  by simp

lemma workq_send_ring:
  assumes "sender_inv s"
  shows "case ring_send (ring s) t of
      None \<Rightarrow> (\<exists>p. workq_send s t = Ret (\<lparr>sender_pos = p, senders = []\<rparr>, Err t))
    | Some r \<Rightarrow> (\<exists>s'. workq_send s t = Ret (s', Ok ()) \<and> sender_inv s' \<and> ring s' = r)"
proof (cases "senders s = []")
  case True
  then show ?thesis
    by (simp add: ring_send_def serve_first_def ring_def ring_at_def workq_send_def)
next
  case False
  with assms have pos: "sender_pos s < length (senders s)" by (simp add: sender_inv_def)
  then have "ring_at (sender_pos s + 1) (senders s) = rotate1 (ring s)"
    by (simp add: ring_Suc ring_def)
  with send_loop_spec [of "sender_pos s + 1" "senders s" t] pos show ?thesis
    by (auto simp: ring_send_def workq_send_def split: option.splits)
qed

text \<open>C20: on a well-formed queue a send never panics; it serves the first open channel in
  round-robin order after the one served last, forgets the closed ones it met, and fails
  only when no receiver is left.\<close>

theorem workq_send_refines_ring:
  assumes "sender_inv s"
  shows "case ring_send (ring s) t of
      None \<Rightarrow> (\<exists>p. workq_send s t = Ret (\<lparr>sender_pos = p, senders = []\<rparr>, Err t))
    | Some r \<Rightarrow> (\<exists>s'. workq_send s t = Ret (s', Ok ()) \<and> sender_inv s' \<and> ring s' = r)"
  using assms by (rule workq_send_ring)

theorem workq_send_refines_ring_witness:
  "\<exists>s'. workq_send \<lparr>sender_pos = 0, senders = [chan_new, chan_new\<lparr>chan_open := False\<rparr>, chan_new]\<rparr>
      (7 :: nat) = Ret (s', Ok ()) \<and> ring s' = [chan_push 7 chan_new, chan_new]"
proof -
  let ?s = "\<lparr>sender_pos = 0, senders = [chan_new, chan_new\<lparr>chan_open := False\<rparr>, chan_new]\<rparr> :: nat sender"
  have inv: "sender_inv ?s" by (simp add: sender_inv_def)
  have "ring_send (ring ?s) 7 = Some [chan_push 7 chan_new, chan_new]"
    by (simp add: ring_send_def serve_first_def ring_def ring_at_def chan_new_def)
  with workq_send_refines_ring [OF inv, of 7] show ?thesis by auto
qed

section \<open>Fairness\<close>

fun ring_sends :: "'t chan list \<Rightarrow> 't list \<Rightarrow> 't chan list option" where
  "ring_sends r [] = Some r"
| "ring_sends r (t # ts) = (case ring_send r t of None \<Rightarrow> None | Some r' \<Rightarrow> ring_sends r' ts)"

fun workq_sends :: "'t sender \<Rightarrow> 't list \<Rightarrow> 't sender option" where
  "workq_sends s [] = Some s"
| "workq_sends s (t # ts) =
     (case workq_send s t of Ret (s', Ok _) \<Rightarrow> workq_sends s' ts | _ \<Rightarrow> None)"

lemma workq_sends_ring:
  "sender_inv s \<Longrightarrow> ring_sends (ring s) ts = Some r \<Longrightarrow>
   \<exists>s'. workq_sends s ts = Some s' \<and> sender_inv s' \<and> ring s' = r"
proof (induction ts arbitrary: s)
  case Nil
  then show ?case by simp
next
  case (Cons t ts)
  then obtain r1 where r1: "ring_send (ring s) t = Some r1" and rs: "ring_sends r1 ts = Some r"
    by (auto split: option.splits)
  with workq_send_ring [OF Cons.prems(1), of t] obtain s1
    where "workq_send s t = Ret (s1, Ok ())" and "sender_inv s1" and "ring s1 = r1"
    by auto
  with Cons.IH rs show ?case by simp
qed

lemma ring_send_open:
  "chan_open c \<Longrightarrow> ring_send (h # c # cs) t = Some (chan_push t c # cs @ [h])"
  by (simp add: ring_send_def serve_first_def)

lemma chan_push_sel [simp]:
  "chan_open (chan_push t c) = chan_open c" "chan_queue (chan_push t c) = chan_queue c @ [t]"
  by (simp_all add: chan_push_def)

text \<open>
  One turn of the ring: the channels in \<open>todo\<close> are served in order while those already
  served gather behind them.
\<close>

lemma ring_sends_turn:
  assumes "\<forall>c \<in> set todo. chan_open c" and "length ts = length todo" and "todo \<noteq> []"
  shows "ring_sends (h # todo @ dn) ts =
     (let us = map2 chan_push ts todo in Some (last us # dn @ h # butlast us))"
  using assms
proof (induction ts arbitrary: h todo dn)
  case Nil
  then show ?case by simp
next
  case (Cons t ts)
  then obtain c cs where todo: "todo = c # cs" by (cases todo) auto
  have step: "ring_send (h # todo @ dn) t = Some (chan_push t c # cs @ dn @ [h])"
    using Cons.prems by (simp add: todo ring_send_open)
  show ?case
  proof (cases "cs = []")
    case True
    with Cons.prems todo have "ts = []" by simp
    with step True todo show ?thesis by simp
  next
    case False
    with Cons.prems todo have "ts \<noteq> []" "length ts = length cs" "\<forall>c \<in> set cs. chan_open c" by auto
    with Cons.IH [of cs "chan_push t c" "dn @ [h]"] False step todo show ?thesis
      by (simp add: Let_def)
  qed
qed

lemma ring_sends_append:
  "ring_sends r (xs @ ys) =
     (case ring_sends r xs of None \<Rightarrow> None | Some r' \<Rightarrow> ring_sends r' ys)"
  by (induction xs arbitrary: r) (auto split: option.splits)

lemma ring_full_turn:
  assumes op: "\<forall>c \<in> set (h # todo). chan_open c" and len: "length ts = length todo"
  shows "ring_sends (h # todo) (ts @ [t]) = Some (chan_push t h # map2 chan_push ts todo)"
proof (cases "todo = []")
  case True
  with op len show ?thesis by (simp add: ring_send_def serve_first_def)
next
  case False
  let ?us = "map2 chan_push ts todo"
  have us: "?us \<noteq> []" using False len by (cases ts; cases todo) auto
  have "ring_sends (h # todo) ts = Some (last ?us # h # butlast ?us)"
    using ring_sends_turn [of todo ts h "[]"] op len False by (simp add: Let_def)
  moreover have "ring_send (last ?us # h # butlast ?us) t = Some (chan_push t h # butlast ?us @ [last ?us])"
    using op by (simp add: ring_send_open)
  ultimately show ?thesis using us by (simp add: ring_sends_append)
qed

lemma map2_queue_length:
  "length ts = length cs \<Longrightarrow>
   map (\<lambda>c. length (chan_queue c)) (map2 chan_push ts cs) = map (\<lambda>c. Suc (length (chan_queue c))) cs"
  by (induction ts cs rule: list_induct2) auto

text \<open>While every receiver is alive, as many sends as there are channels give each
  channel exactly one of the messages and leave the ring where it was.\<close>

theorem workq_fair_turn:
  assumes "sender_inv s" and "\<forall>c \<in> set (senders s). chan_open c"
    and "length ts = length (senders s)"
  shows "\<exists>s'. workq_sends s ts = Some s' \<and>
    map (\<lambda>c. length (chan_queue c)) (ring s') = map (\<lambda>c. Suc (length (chan_queue c))) (ring s)"
proof (cases "ring s")
  case Nil
  with assms(1,3) have "ts = []" by (auto simp: ring_def ring_at_def)
  with Nil show ?thesis by simp
next
  case (Cons h todo)
  have "length (ring s) = length (senders s)"
    using assms(1) by (auto simp: ring_def ring_at_def sender_inv_def)
  with Cons assms(3) have "length ts = Suc (length todo)" by simp
  then obtain us u where ts: "ts = us @ [u]" and len: "length us = length todo"
    by (cases ts rule: rev_cases) auto
  have "\<forall>c \<in> set (h # todo). chan_open c"
    using assms(1,2) Cons set_ring by metis
  then have "ring_sends (ring s) ts = Some (chan_push u h # map2 chan_push us todo)"
    using ring_full_turn len by (simp add: ts Cons)
  with workq_sends_ring [OF assms(1)] obtain s'
    where "workq_sends s ts = Some s'" and "ring s' = chan_push u h # map2 chan_push us todo"
    by blast
  with map2_queue_length [OF len] show ?thesis by (simp add: Cons del: map_map)
qed

theorem workq_fair_turn_witness:
  "\<exists>s'. workq_sends (new_recv (new_recv workq_new)) [1 :: nat, 2] = Some s' \<and>
    map (\<lambda>c. length (chan_queue c)) (ring s') = [1, 1]"
proof -
  let ?s = "new_recv (new_recv workq_new) :: nat sender"
  have "sender_inv ?s" and "\<forall>c \<in> set (senders ?s). chan_open c"
    and "length [1 :: nat, 2] = length (senders ?s)"
    by (simp_all add: sender_inv_def new_recv_def workq_new_def chan_new_def)
  from workq_fair_turn [OF this] show ?thesis
    by (simp add: ring_def ring_at_def new_recv_def workq_new_def chan_new_def)
qed

section \<open>The contract its client uses\<close>

text \<open>
  The worker only needs this of the queue: while it is usable a send succeeds and adds the
  message to what the living receivers will see; otherwise the send gives it back.
\<close>

locale work_queue =
  fixes send :: "'q \<Rightarrow> 'm \<Rightarrow> ('q \<times> ('m, unit) result) exec"
    and inv :: "'q \<Rightarrow> bool"
    and usable :: "'q \<Rightarrow> bool"
    and delivered :: "'q \<Rightarrow> 'm multiset"
  assumes send_usable: "inv q \<Longrightarrow> usable q \<Longrightarrow>
      \<exists>q'. send q m = Ret (q', Ok ()) \<and> inv q' \<and> usable q' \<and> delivered q' = add_mset m (delivered q)"
    and send_unusable: "inv q \<Longrightarrow> \<not> usable q \<Longrightarrow> \<exists>q'. send q m = Ret (q', Err m)"
begin

lemma send_no_panic: "inv q \<Longrightarrow> no_panic (send q m)"
  using send_usable [of q m] send_unusable [of q m] by (cases "usable q") auto

lemma send_Ok_iff: "inv q \<Longrightarrow> (\<exists>q'. send q m = Ret (q', Ok ())) \<longleftrightarrow> usable q"
  using send_usable [of q m] send_unusable [of q m] by (cases "usable q") auto

lemma send_OkD:
  "inv q \<Longrightarrow> send q m = Ret (q', Ok ()) \<Longrightarrow>
   inv q' \<and> usable q' \<and> delivered q' = add_mset m (delivered q)"
  using send_usable [of q m] send_unusable [of q m] by (cases "usable q") auto

end

definition live_channels :: "'t sender \<Rightarrow> bool" where
  "live_channels s \<longleftrightarrow> (\<exists>c \<in> set (senders s). chan_open c)"

definition chans_delivered :: "'t chan list \<Rightarrow> 't multiset" where
  "chans_delivered cs = mset (concat (map chan_queue (filter chan_open cs)))"

definition sender_delivered :: "'t sender \<Rightarrow> 't multiset" where
  "sender_delivered s = chans_delivered (senders s)"

lemma chans_delivered_Nil [simp]: "chans_delivered [] = {#}"
  by (simp add: chans_delivered_def)

lemma chans_delivered_Cons [simp]:
  "chans_delivered (c # cs) = (if chan_open c then mset (chan_queue c) else {#}) + chans_delivered cs"
  by (simp add: chans_delivered_def)

lemma chans_delivered_append [simp]:
  "chans_delivered (cs @ ds) = chans_delivered cs + chans_delivered ds"
  by (simp add: chans_delivered_def)

lemma chans_delivered_rotate1 [simp]: "chans_delivered (rotate1 r) = chans_delivered r"
  by (cases r) auto

lemma chans_delivered_ring: "chans_delivered (ring s) = sender_delivered s"
proof -
  have "chans_delivered (ring s) =
      chans_delivered (take (sender_pos s) (senders s) @ drop (sender_pos s) (senders s))"
    by (simp only: ring_def ring_at_def chans_delivered_append add.commute)
  then show ?thesis by (simp add: sender_delivered_def)
qed

lemma serve_first_None: "serve_first t r = None \<longleftrightarrow> (\<forall>c \<in> set r. \<not> chan_open c)"
  by (induction r) (auto simp: serve_first_def)

lemma serve_first_Some:
  "serve_first t r = Some r' \<Longrightarrow>
   chans_delivered r' = add_mset t (chans_delivered r) \<and> (\<exists>c \<in> set r'. chan_open c)"
  by (induction r arbitrary: r') (auto simp: serve_first_def split: if_splits)

interpretation wq: work_queue workq_send sender_inv live_channels sender_delivered
proof unfold_locales
  fix q :: "'t sender" and m
  assume inv: "sender_inv q" and "live_channels q"
  then have "ring_send (ring q) m \<noteq> None"
    by (auto simp: ring_send_def serve_first_None live_channels_def)
  then obtain r where r: "ring_send (ring q) m = Some r" by blast
  with workq_send_ring [OF inv, of m] obtain q'
    where q': "workq_send q m = Ret (q', Ok ())" "sender_inv q'" "ring q' = r" by auto
  have "chans_delivered r = add_mset m (chans_delivered (rotate1 (ring q)))"
    and "\<exists>c \<in> set r. chan_open c"
    using serve_first_Some [OF r [unfolded ring_send_def]] by blast+
  with q' show "\<exists>q'. workq_send q m = Ret (q', Ok ()) \<and> sender_inv q' \<and> live_channels q' \<and>
      sender_delivered q' = add_mset m (sender_delivered q)"
    by (metis chans_delivered_ring chans_delivered_rotate1 live_channels_def set_ring)
next
  fix q :: "'t sender" and m
  assume inv: "sender_inv q" and "\<not> live_channels q"
  then have "ring_send (ring q) m = None"
    by (auto simp: ring_send_def serve_first_None live_channels_def)
  with workq_send_ring [OF inv, of m] show "\<exists>q'. workq_send q m = Ret (q', Err m)"
    by auto
qed

end
