(* ===== verification/Http.thy ===== *)
theory Http
  imports RustStd
begin

text \<open>
  \<open>src/http/mod.rs\<close>: requests, responses, the trace context, and the serialiser of the
  response header. Bytes from the random generator and the \<open>hex\<close> crate's encoder are
  arguments.
\<close>

section \<open>Data\<close>

datatype http_error =
    HttpIo string io_error
  | HeaderParse string
  | BadValue string

text \<open>
  \<open>http_types::Url\<close>, as far as the sources look at it: \<open>path()\<close> and \<open>query()\<close>. A method
  (\<open>http_types::Method\<close>) is its text.
\<close>

record url =
  url_path :: string
  url_query :: "string option"

record trace_ctx =
  trace_id :: string
  span_id :: string
  parent_id :: "string option"

record http_request =
  req_method :: string
  req_url :: url
  req_headers :: "(string \<times> string) list"
  req_context :: trace_ctx
  req_keep_alive :: bool
  req_content_type :: "string option"
  req_content_length :: nat
  req_body :: "bytes option"

record response_header =
  hdr_code :: u16
  hdr_reason :: string
  hdr_headers :: "(string \<times> string) list"

text \<open>The receiving end of a body channel is known by a number.\<close>

type_synonym body_rx = nat

record http_response =
  resp_method :: string
  resp_url :: url
  resp_code :: u16
  resp_reason :: string
  resp_context :: trace_ctx
  resp_keep_alive :: bool
  resp_req_headers :: "(string \<times> string) list"
  resp_req_content_length :: nat
  resp_headers :: "(string \<times> string) list"
  resp_content_length :: "nat option"
  resp_body :: "body_rx option"

section \<open>Operations\<close>

text \<open>The header name is spelled as the source spells it.\<close>

fun resp_length_loop :: "(string \<times> string) list \<Rightarrow> nat option \<Rightarrow> nat option" where
  "resp_length_loop [] n = n"
| "resp_length_loop ((name, value) # hs) n =
     resp_length_loop hs
       (if eq_ignore_ascii_case name ''Content-Lenth''
        then (case parse_usize value of Some cl \<Rightarrow> Some cl | None \<Rightarrow> n) else n)"

definition into_http_response :: "http_request \<Rightarrow> response_header \<Rightarrow> body_rx \<Rightarrow> http_response" where
  "into_http_response self header body =
     \<lparr>resp_method = req_method self, resp_url = req_url self,
      resp_code = hdr_code header, resp_reason = hdr_reason header,
      resp_context = req_context self, resp_keep_alive = req_keep_alive self,
      resp_req_headers = req_headers self, resp_req_content_length = req_content_length self,
      resp_headers = hdr_headers header,
      resp_content_length = resp_length_loop (hdr_headers header) None,
      resp_body = Some body\<rparr>"

definition crlf :: string where
  "crlf = [CHR 0x0D, CHR 0x0A]"

fun write_headers_loop :: "(string \<times> string) list \<Rightarrow> bytes \<Rightarrow> bytes" where
  "write_headers_loop [] buf = buf"
| "write_headers_loop ((name, value) # hs) buf =
     write_headers_loop hs (buf @ name @ '': '' @ value @ crlf)"

text \<open>\<open>write_header\<close> clears the buffer it is given, so its old content is not an argument.\<close>

definition write_header :: "http_response \<Rightarrow> bytes" where
  "write_header r =
     (let buf = ''HTTP/1.1 '' @ show_nat (unat (resp_code r)) @ '' '' @ resp_reason r @ '' '' @ crlf;
          buf = write_headers_loop (resp_headers r) buf;
          buf = buf @ ''X-TraceId'' @ '': '' @ trace_id (resp_context r) @ crlf;
          buf = buf @ ''Connection'' @ '': '' @ (if resp_keep_alive r then ''Keep-Alive'' else ''Close'') @ crlf;
          buf = buf @ ''Server'' @ '': '' @ ''Casket'' @ crlf
      in buf @ crlf)"

definition context_new :: "(bytes \<Rightarrow> string) \<Rightarrow> bytes \<Rightarrow> bytes \<Rightarrow> trace_ctx" where
  "context_new hex rng16 rng8 = \<lparr>trace_id = hex rng16, span_id = hex rng8, parent_id = None\<rparr>"

definition context_from_vals :: "(bytes \<Rightarrow> string) \<Rightarrow> bytes \<Rightarrow> string \<Rightarrow> string \<Rightarrow> trace_ctx" where
  "context_from_vals hex rng8 tid pid =
     \<lparr>trace_id = tid, span_id = hex rng8, parent_id = Some pid\<rparr>"

section \<open>Header lines\<close>

text \<open>What a client sees of the block: its lines, cut at every CR LF.\<close>

fun crlf_lines :: "string \<Rightarrow> string list" where
  "crlf_lines [] = [[]]"
| "crlf_lines [c] = [[c]]"
| "crlf_lines (c # d # r) =
     (if c = CHR 0x0D \<and> d = CHR 0x0A then [] # crlf_lines r
      else (case crlf_lines (d # r) of [] \<Rightarrow> [[c]] | p # ps \<Rightarrow> (c # p) # ps))"

definition no_cr :: "string \<Rightarrow> bool" where
  "no_cr s \<longleftrightarrow> CHR 0x0D \<notin> set s"

lemma no_cr_simps [simp]:
  "no_cr []" "no_cr (c # s) \<longleftrightarrow> c \<noteq> CHR 0x0D \<and> no_cr s" "no_cr (s @ t) \<longleftrightarrow> no_cr s \<and> no_cr t"
  by (auto simp: no_cr_def)

lemma crlf_lines_line: "no_cr s \<Longrightarrow> crlf_lines (s @ crlf @ t) = s # crlf_lines t"
proof (induction s)
  case Nil
  then show ?case by (simp add: crlf_def)
next
  case (Cons c s)
  then have c: "c \<noteq> CHR 0x0D" and ih: "crlf_lines (s @ crlf @ t) = s # crlf_lines t" by simp_all
  obtain d r where "s @ crlf @ t = d # r" by (cases "s @ crlf @ t") (auto simp: crlf_def)
  with c ih show ?case by simp
qed

lemma crlf_lines_crlf: "crlf_lines (crlf @ t) = [] # crlf_lines t"
  by (simp add: crlf_def)

definition join_crlf :: "string list \<Rightarrow> bytes" where
  "join_crlf ls = concat (map (\<lambda>l. l @ crlf) ls)"

lemma join_crlf_simps [simp]:
  "join_crlf [] = []" "join_crlf (l # ls) = l @ crlf @ join_crlf ls"
  "join_crlf (ls @ ks) = join_crlf ls @ join_crlf ks"
  by (simp_all add: join_crlf_def)

lemma crlf_lines_join:
  "\<forall>l \<in> set ls. no_cr l \<Longrightarrow> crlf_lines (join_crlf ls @ t) = ls @ crlf_lines t"
  by (induction ls) (simp_all add: crlf_lines_line)

definition header_line :: "string \<times> string \<Rightarrow> string" where
  "header_line h = fst h @ '': '' @ snd h"

lemma write_headers_loop_eq:
  "write_headers_loop hs buf = buf @ join_crlf (map header_line hs)"
  by (induction hs arbitrary: buf) (auto simp: header_line_def)

lemma digit_char_no_cr: "d < 10 \<Longrightarrow> digit_char d \<noteq> CHR 0x0D"
proof
  assume "d < 10" and "digit_char d = CHR 0x0D"
  then have "48 + d = of_char (CHR 0x0D)" by (metis of_char_digit_char)
  then show False by simp
qed

lemma no_cr_show_nat [simp]: "no_cr (show_nat n)"
proof (induction n rule: show_nat.induct)
  case (1 n)
  then show ?case
    by (cases "n < 10") (simp_all add: show_nat.simps [of n] digit_char_no_cr)
qed

definition clean_response :: "http_response \<Rightarrow> bool" where
  "clean_response r \<longleftrightarrow>
     no_cr (resp_reason r) \<and> no_cr (trace_id (resp_context r))
     \<and> (\<forall>h \<in> set (resp_headers r). no_cr (fst h) \<and> no_cr (snd h))"

text \<open>The block as one concatenation, for the proofs.\<close>

definition fixed_lines :: "http_response \<Rightarrow> string list" where
  "fixed_lines r =
     [''X-TraceId: '' @ trace_id (resp_context r),
      ''Connection: '' @ (if resp_keep_alive r then ''Keep-Alive'' else ''Close''),
      ''Server: Casket'']"

definition status_line :: "http_response \<Rightarrow> string" where
  "status_line r = ''HTTP/1.1 '' @ show_nat (unat (resp_code r)) @ '' '' @ resp_reason r @ '' ''"

lemma write_header_eq:
  "write_header r =
     join_crlf (status_line r # map header_line (resp_headers r) @ fixed_lines r) @ crlf"
  by (simp add: write_header_def Let_def write_headers_loop_eq status_line_def fixed_lines_def)


definition sample_response :: "string \<Rightarrow> http_response" where
  "sample_response err =
     \<lparr>resp_method = ''GET'', resp_url = \<lparr>url_path = ''/'', url_query = None\<rparr>,
      resp_code = 500, resp_reason = ''Internal Server Error'',
      resp_context = \<lparr>trace_id = ''4c'', span_id = ''7f'', parent_id = None\<rparr>,
      resp_keep_alive = True, resp_req_headers = [], resp_req_content_length = 0,
      resp_headers = [(''X-Error'', err)], resp_content_length = None, resp_body = Some 0\<rparr>"


end
