(* ===== verification/Frames.thy ===== *)
theory Frames
  imports RustStd
begin

text \<open>
  Length-prefixed frames, the wire format of both directions of the Unix sockets between
  the server and its workers (\<open>src/msgs/mod.rs\<close>). One locale covers both prefixes.
\<close>

definition frame :: "(nat \<Rightarrow> bytes) \<Rightarrow> bytes \<Rightarrow> bytes" where
  "frame enc p = enc (length p) @ p"

text \<open>
  Cutting a buffer into complete frames: \<open>hdr\<close> is the width of the prefix, \<open>guard\<close> the
  least length at which a loop looks at the prefix at all, \<open>dec\<close> reads the prefix.
  The result is the payloads and the bytes that are left.
\<close>

function split_frames :: "nat \<Rightarrow> nat \<Rightarrow> (bytes \<Rightarrow> nat) \<Rightarrow> bytes \<Rightarrow> bytes list \<times> bytes" where
  "split_frames hdr guard dec buf =
     (if 0 < hdr \<and> hdr \<le> guard \<and> guard \<le> length buf then
        (let size = dec (take hdr buf)
         in if length buf < size + hdr then ([], buf)
            else (let (ps, r) = split_frames hdr guard dec (drop (size + hdr) buf)
                  in (take size (drop hdr buf) # ps, r)))
      else ([], buf))"
  by pat_completeness auto
termination
  by (relation "measure (\<lambda>(hdr, guard, dec, buf). length buf)") auto

declare split_frames.simps [simp del]

locale framing =
  fixes hdr :: nat and guard :: nat
    and enc :: "nat \<Rightarrow> bytes" and dec :: "bytes \<Rightarrow> nat" and bound :: nat
  assumes hdr_pos: "0 < hdr" and hdr_guard: "hdr \<le> guard" and guard_hdr: "guard \<le> Suc hdr"
    and enc_length: "length (enc n) = hdr"
    and dec_enc: "n < bound \<Longrightarrow> dec (enc n) = n"
begin

lemma split_short: "length buf < guard \<Longrightarrow> split_frames hdr guard dec buf = ([], buf)"
  by (simp add: split_frames.simps [of hdr guard dec buf])

lemma split_frame:
  assumes "p \<noteq> []" and "length p < bound"
  shows "split_frames hdr guard dec (frame enc p @ r) =
    (p # fst (split_frames hdr guard dec r), snd (split_frames hdr guard dec r))"
proof -
  have "guard \<le> length (frame enc p @ r)"
    using assms(1) guard_hdr by (cases p) (auto simp: frame_def enc_length)
  then show ?thesis
    using assms(2) hdr_pos hdr_guard
    by (subst split_frames.simps) (simp add: frame_def enc_length dec_enc split_beta)
qed

lemma split_all:
  assumes "\<forall>p \<in> set ps. p \<noteq> [] \<and> length p < bound"
  shows "split_frames hdr guard dec (concat (map (frame enc) ps)) = (ps, [])"
  using assms
proof (induction ps)
  case Nil
  show ?case using hdr_pos hdr_guard by (simp add: split_short)
next
  case (Cons p ps)
  then show ?case by (simp add: split_frame)
qed

text \<open>Cutting at each arrival gives the same payloads as cutting the whole stream.\<close>

lemma split_append:
  "split_frames hdr guard dec (a @ b) =
     (let (ps, r) = split_frames hdr guard dec a; (qs, r') = split_frames hdr guard dec (r @ b)
      in (ps @ qs, r'))"
proof (induction hdr guard dec a rule: split_frames.induct)
  case (1 h g d a)
  show ?case
  proof (cases "0 < h \<and> h \<le> g \<and> g \<le> length a \<and> d (take h a) + h \<le> length a")
    case False
    then have "split_frames h g d a = ([], a)"
      by (auto simp: split_frames.simps [of h g d a] Let_def)
    then show ?thesis by simp
  next
    case True
    then have "split_frames h g d (drop (d (take h a) + h) a @ b) =
       (let (ps, r) = split_frames h g d (drop (d (take h a) + h) a);
            (qs, r') = split_frames h g d (r @ b) in (ps @ qs, r'))"
      using "1.IH" [OF _ refl] by simp
    with True show ?thesis
      by (auto simp: split_frames.simps [of h g d a] split_frames.simps [of h g d "a @ b"]
          Let_def split_beta)
  qed
qed

lemma split_rest:
  "split_frames hdr guard dec (snd (split_frames hdr guard dec a)) =
     ([], snd (split_frames hdr guard dec a))"
proof -
  have "split_frames h g d (snd (split_frames h g d a)) = ([], snd (split_frames h g d a))" for h g d
  proof (induction h g d a rule: split_frames.induct)
    case (1 h g d a)
    then show ?case
      by (cases "0 < h \<and> h \<le> g \<and> g \<le> length a \<and> d (take h a) + h \<le> length a")
        (auto simp: split_frames.simps [of h g d a] Let_def split_beta)
  qed
  then show ?thesis .
qed

text \<open>Cutting a part of a stream of frames gives its first payloads; the rest is still to come.\<close>

lemma split_prefix:
  assumes "\<forall>p \<in> set ps. p \<noteq> [] \<and> length p < bound" and "a @ b = concat (map (frame enc) ps)"
  shows "\<exists>ps1 ps2 r. ps = ps1 @ ps2 \<and> split_frames hdr guard dec a = (ps1, r) \<and> r @ b = concat (map (frame enc) ps2)"
  using assms
proof (induction ps arbitrary: a)
  case Nil
  then show ?case using hdr_pos hdr_guard by (simp add: split_short)
next
  case (Cons p ps)
  have p: "p \<noteq> []" "length p < bound" using Cons.prems(1) by simp_all
  have lf: "length (frame enc p) = hdr + length p" by (simp add: frame_def enc_length)
  show ?case
  proof (cases "length (frame enc p) \<le> length a")
    case True
    then have "take (length (frame enc p)) a = frame enc p"
      using arg_cong [OF Cons.prems(2), of "take (length (frame enc p))"] by simp
    then obtain a' where a: "a = frame enc p @ a'" by (metis append_take_drop_id)
    from Cons.IH [of a'] Cons.prems obtain ps1 ps2 r where
      "ps = ps1 @ ps2" "split_frames hdr guard dec a' = (ps1, r)" "r @ b = concat (map (frame enc) ps2)"
      by (auto simp: a)
    then show ?thesis
      by (intro exI [of _ "p # ps1"] exI [of _ ps2] exI [of _ r]) (simp add: a split_frame [OF p])
  next
    case False
    have "split_frames hdr guard dec a = ([], a)"
    proof (cases "length a < guard")
      case False
      have "take hdr (a @ b) = enc (length p)" by (simp only: Cons.prems(2)) (simp add: frame_def enc_length)
      with False have "take hdr a = enc (length p)" using hdr_guard by simp
      with \<open>\<not> length (frame enc p) \<le> length a\<close> show ?thesis
        by (subst split_frames.simps) (simp add: dec_enc [OF p(2)] lf)
    qed (rule split_short)
    with Cons.prems(2) show ?thesis by (intro exI [of _ "[]"] exI [of _ "p # ps"] exI [of _ a]) simp
  qed
qed

end

section \<open>The two prefixes\<close>

text \<open>\<open>(len as u32).to_be_bytes()\<close> and \<open>u32::from_be_bytes\<close>.\<close>

definition u32_be :: "nat \<Rightarrow> bytes" where
  "u32_be n = [char_of (n div 2 ^ 24), char_of (n div 2 ^ 16), char_of (n div 2 ^ 8), char_of n]"

definition u32_from_be :: "bytes \<Rightarrow> nat" where
  "u32_from_be b = foldl (\<lambda>acc c. acc * 256 + of_char c) 0 b"

text \<open>\<open>len as u8\<close>, one byte.\<close>

definition u8_prefix :: "nat \<Rightarrow> bytes" where
  "u8_prefix n = [char_of n]"

definition u8_from :: "bytes \<Rightarrow> nat" where
  "u8_from b = (case b of [] \<Rightarrow> 0 | c # _ \<Rightarrow> of_char c)"

lemma u32_from_be_be:
  assumes "n < 2 ^ 32" shows "u32_from_be (u32_be n) = n"
proof -
  define a b c where "a = n div 256" and "b = a div 256" and "c = b div 256"
  have "n div 2 ^ 8 = a" "n div 2 ^ 16 = b" "n div 2 ^ 24 = c"
    by (simp_all add: a_def b_def c_def div_mult2_eq [symmetric])
  moreover have "c < 256" using assms by (simp add: a_def b_def c_def div_mult2_eq [symmetric])
  moreover have "n = a * 256 + n mod 256" "a = b * 256 + a mod 256" "b = c * 256 + b mod 256"
    by (simp_all add: a_def b_def c_def)
  moreover have "u32_from_be (u32_be n) =
      ((n div 2 ^ 24 mod 256 * 256 + n div 2 ^ 16 mod 256) * 256 + n div 2 ^ 8 mod 256) * 256 + n mod 256"
    by (simp add: u32_from_be_def u32_be_def)
  ultimately show ?thesis by simp
qed

interpretation f32: framing 4 5 u32_be u32_from_be "2 ^ 32"
  by unfold_locales (simp_all add: u32_from_be_be, simp add: u32_be_def)

interpretation f8: framing 1 1 u8_prefix u8_from 256
  by unfold_locales (simp_all add: u8_prefix_def u8_from_def)

section \<open>Readers that cut frames as bytes arrive\<close>

fun decode_all :: "('b \<Rightarrow> 'm option) \<Rightarrow> 'b list \<Rightarrow> 'm list option" where
  "decode_all de [] = Some []"
| "decode_all de (p # ps) =
     (case de p of
        None \<Rightarrow> None
      | Some m \<Rightarrow> (case decode_all de ps of None \<Rightarrow> None | Some ms \<Rightarrow> Some (m # ms)))"

lemma decode_all_append:
  "decode_all de (ps @ qs) =
     (case decode_all de ps of
        None \<Rightarrow> None
      | Some ms \<Rightarrow> (case decode_all de qs of None \<Rightarrow> None | Some ns \<Rightarrow> Some (ms @ ns)))"
  by (induction ps) (auto split: option.splits)

lemma split_frames_suffix:
  "\<exists>pre. buf = pre @ snd (split_frames hdr guard dec buf)"
proof (induction hdr guard dec buf rule: split_frames.induct)
  case (1 h g d a)
  show ?case
  proof (cases "0 < h \<and> h \<le> g \<and> g \<le> length a \<and> d (take h a) + h \<le> length a")
    case False
    then show ?thesis by (auto simp: split_frames.simps [of h g d a] Let_def)
  next
    case True
    then obtain pre where
      "drop (d (take h a) + h) a = pre @ snd (split_frames h g d (drop (d (take h a) + h) a))"
      using "1.IH" [OF _ refl] by auto
    then have "a = (take (d (take h a) + h) a @ pre) @ snd (split_frames h g d (drop (d (take h a) + h) a))"
      by (metis append.assoc append_take_drop_id)
    moreover have "snd (split_frames h g d a) = snd (split_frames h g d (drop (d (take h a) + h) a))"
      using True by (auto simp: split_frames.simps [of h g d a] Let_def split_beta)
    ultimately show ?thesis by metis
  qed
qed

lemma length_split_frames_rest: "length (snd (split_frames hdr guard dec buf)) \<le> length buf"
  using split_frames_suffix [of buf hdr guard dec] by (metis length_append le_add2)

lemma drop_split_frames_rest:
  "drop (length buf - length (snd (split_frames hdr guard dec buf))) buf =
   snd (split_frames hdr guard dec buf)"
proof -
  obtain pre where "buf = pre @ snd (split_frames hdr guard dec buf)"
    using split_frames_suffix by blast
  then show ?thesis by (metis append_eq_conv_conj diff_add_inverse2 length_append)
qed

text \<open>
  Feeding a reader one arrival after another; each must fit the slice the reader offers.
\<close>

fun feed :: "('c \<Rightarrow> 'b \<Rightarrow> 'b exec) \<Rightarrow> 'c list \<Rightarrow> 'b \<Rightarrow> 'b exec" where
  "feed r [] b = Ret b"
| "feed r (c # cs) b = exec_bind (r c b) (feed r cs)"

fun feed_fits ::
  "('c \<Rightarrow> 'b \<Rightarrow> 'b exec) \<Rightarrow> ('c \<Rightarrow> bytes) \<Rightarrow> ('b \<Rightarrow> nat) \<Rightarrow> 'c list \<Rightarrow> 'b \<Rightarrow> bool" where
  "feed_fits r bytes_of space [] b \<longleftrightarrow> True"
| "feed_fits r bytes_of space (c # cs) b \<longleftrightarrow>
     length (bytes_of c) \<le> space b \<and>
     (case r c b of Ret b' \<Rightarrow> feed_fits r bytes_of space cs b' | Panic _ \<Rightarrow> True)"

text \<open>
  The contract of both message buffers: one read cuts the frames of what was left over
  and what arrived, decodes them and adds them to what the buffer holds.
\<close>

locale framed_reader = framing hdr guard enc dec bound
  for hdr guard enc dec bound +
  fixes read :: "'c \<Rightarrow> 'b \<Rightarrow> 'b exec" and bytes_of :: "'c \<Rightarrow> bytes"
    and inv :: "'b \<Rightarrow> bool" and unread :: "'b \<Rightarrow> bytes" and space :: "'b \<Rightarrow> nat"
    and decode :: "bytes \<Rightarrow> 'm option" and view :: "'b \<Rightarrow> 'v" and absorb :: "'m \<Rightarrow> 'v \<Rightarrow> 'v"
  assumes read_spec:
    "inv b \<Longrightarrow> length (bytes_of c) \<le> space b \<Longrightarrow>
     split_frames hdr guard dec (unread b @ bytes_of c) = (ps, r) \<Longrightarrow>
     decode_all decode ps = Some ms \<Longrightarrow>
     \<exists>b'. read c b = Ret b' \<and> inv b' \<and> unread b' = r \<and> view b' = fold absorb ms (view b)"
begin

lemma feed_spec:
  assumes "inv b" and "feed_fits read bytes_of space cs b"
    and "split_frames hdr guard dec (unread b @ concat (map bytes_of cs)) = (ps, r)"
    and "split_frames hdr guard dec (unread b) = ([], unread b)"
    and "decode_all decode ps = Some ms"
  shows "\<exists>b'. feed read cs b = Ret b' \<and> inv b' \<and> unread b' = r \<and> view b' = fold absorb ms (view b)"
  using assms
proof (induction cs arbitrary: b ps ms)
  case Nil
  then show ?case by auto
next
  case (Cons c cs)
  obtain ps1 r1 where s1: "split_frames hdr guard dec (unread b @ bytes_of c) = (ps1, r1)"
    by (cases "split_frames hdr guard dec (unread b @ bytes_of c)")
  obtain ps2 r2 where s2: "split_frames hdr guard dec (r1 @ concat (map bytes_of cs)) = (ps2, r2)"
    by (cases "split_frames hdr guard dec (r1 @ concat (map bytes_of cs))")
  have ps: "ps = ps1 @ ps2" and r: "r = r2"
    using Cons.prems(3) split_append [of "unread b @ bytes_of c" "concat (map bytes_of cs)"] s1 s2
    by auto
  obtain ms1 ms2 where ms1: "decode_all decode ps1 = Some ms1"
    and ms2: "decode_all decode ps2 = Some ms2" and ms: "ms = ms1 @ ms2"
    using Cons.prems(5) by (auto simp: ps decode_all_append split: option.splits)
  have "length (bytes_of c) \<le> space b" using Cons.prems(2) by simp
  from read_spec [OF Cons.prems(1) this s1 ms1] obtain b1
    where b1: "read c b = Ret b1" "inv b1" "unread b1 = r1" "view b1 = fold absorb ms1 (view b)"
    by blast
  have "split_frames hdr guard dec (unread b1) = ([], unread b1)"
    using split_rest [of "unread b @ bytes_of c"] by (simp add: s1 b1(3))
  moreover have "feed_fits read bytes_of space cs b1"
    using Cons.prems(2) by (simp add: b1(1))
  ultimately show ?case
    using Cons.IH [OF b1(2) _ _ _ ms2] s2 by (simp add: b1 r ms)
qed

text \<open>A whole stream of frames, cut anywhere, gives its messages and leaves nothing.\<close>

lemma feed_roundtrip:
  assumes "inv b" and "unread b = []" and "feed_fits read bytes_of space cs b"
    and "concat (map bytes_of cs) = concat (map (\<lambda>m. frame enc (ser m)) ms)"
    and "\<forall>m \<in> set ms. ser m \<noteq> [] \<and> length (ser m) < bound \<and> decode (ser m) = Some m"
  shows "\<exists>b'. feed read cs b = Ret b' \<and> inv b' \<and> unread b' = [] \<and> view b' = fold absorb ms (view b)"
proof -
  have "split_frames hdr guard dec (unread b @ concat (map bytes_of cs)) = (map ser ms, [])"
    using split_all [of "map ser ms"] assms(5) by (simp add: assms(2,4) comp_def)
  moreover have "decode_all decode (map ser ms) = Some ms"
    using assms(5) by (induction ms) auto
  moreover have "split_frames hdr guard dec (unread b) = ([], unread b)"
    using hdr_pos hdr_guard by (simp add: assms(2) split_short)
  ultimately show ?thesis using feed_spec assms(1,3) by blast
qed

end

end
