(* ===== verification/Msgs.thy ===== *)
theory Msgs
  imports Frames
begin

text \<open>
  \<open>src/msgs/mod.rs\<close>: the message buffers at the two ends of each Unix socket. The server
  sends one-byte-prefixed requests, each with a file descriptor beside it; a worker sends
  four-byte-prefixed responses. \<open>bincode\<close> is a codec argument; what a \<open>read\<close>, \<open>write\<close>,
  \<open>enqueue\<close> or \<open>dequeue\<close> on the socket returns is an argument of the operation.
\<close>

section \<open>Messages and their codec\<close>

record request =
  rq_token :: usize
  rq_fd :: raw_fd

record response =
  rs_token :: usize
  rs_fd :: raw_fd
  rs_keep_alive :: bool
  rs_error :: "string option"

record codec =
  ser_request :: "request \<Rightarrow> bytes option"
  de_request :: "bytes \<Rightarrow> request option"
  ser_response :: "response \<Rightarrow> bytes option"
  de_response :: "bytes \<Rightarrow> response option"

text \<open>
  What the sources rely on: serialising succeeds and deserialising inverts it, nothing
  serialises to no bytes, and a request (two fixed-width integers) stays below 256 bytes.
\<close>

definition codec_ok :: "codec \<Rightarrow> bool" where
  "codec_ok cd \<longleftrightarrow>
     (\<forall>m. \<exists>b. ser_request cd m = Some b \<and> b \<noteq> [] \<and> length b < 256 \<and> de_request cd b = Some m) \<and>
     (\<forall>m. \<exists>b. ser_response cd m = Some b \<and> b \<noteq> [] \<and> de_response cd b = Some m)"

definition response_fits :: "codec \<Rightarrow> response \<Rightarrow> bool" where
  "response_fits cd m \<longleftrightarrow> (\<forall>b. ser_response cd m = Some b \<longrightarrow> length b < 2 ^ 32)"

section \<open>Reading into a buffer\<close>

text \<open>
  \<open>read(&mut buf[len..])\<close> that returned the bytes \<open>bs\<close> (never more than the slice holds),
  and the buffer afterwards.
\<close>

definition store_read :: "bytes \<Rightarrow> nat \<Rightarrow> bytes \<Rightarrow> bytes" where
  "store_read buf len bs = take len buf @ bs @ drop (len + length bs) buf"

lemma length_store_read [simp]:
  "len + length bs \<le> length buf \<Longrightarrow> length (store_read buf len bs) = length buf"
  by (simp add: store_read_def)

lemma take_store_read [buf_simps]:
  "len + length bs \<le> length buf \<Longrightarrow> take (len + length bs) (store_read buf len bs) = take len buf @ bs"
  by (simp add: store_read_def)

section \<open>The server's buffer\<close>

record server_buf =
  sb_read_buffer :: bytes
  sb_read_len :: nat
  stream_tks :: "(token \<times> raw_fd) list"
  stream_close_tks :: "(token \<times> raw_fd) list"
  to_send :: "(request \<times> raw_fd) list"
  sb_write_buffer :: bytes

definition server_buf_new :: server_buf where
  "server_buf_new =
     \<lparr>sb_read_buffer = replicate 2048 (CHR 0x00), sb_read_len = 0,
      stream_tks = [], stream_close_tks = [], to_send = [], sb_write_buffer = []\<rparr>"

definition sb_push :: "response \<Rightarrow> server_buf \<Rightarrow> server_buf" where
  "sb_push msg b =
     (if rs_keep_alive msg \<and> rs_error msg = None
      then b\<lparr>stream_tks := stream_tks b @ [(Token (rs_token msg), rs_fd msg)]\<rparr>
      else b\<lparr>stream_close_tks := stream_close_tks b @ [(Token (rs_token msg), rs_fd msg)]\<rparr>)"

text \<open>The parse loop, over the unread part of the buffer; it counts the bytes it consumed.\<close>

function sb_parse :: "codec \<Rightarrow> bytes \<Rightarrow> server_buf \<Rightarrow> nat \<Rightarrow> (server_buf \<times> nat) exec" where
  "sb_parse cd buf b bytes_read =
     (if 4 < length buf then
        (let size = u32_from_be (take 4 buf)
         in if length buf < size + 4 then Ret (b, bytes_read)
            else (case de_response cd (take size (drop 4 buf)) of
                    None \<Rightarrow> Panic ''couldn't deserialize response''
                  | Some msg \<Rightarrow>
                      sb_parse cd (drop (size + 4) buf) (sb_push msg b) (bytes_read + (size + 4))))
      else Ret (b, bytes_read))"
  by pat_completeness auto
termination
  by (relation "measure (\<lambda>(cd, buf, b, n). length buf)") auto

declare sb_parse.simps [simp del]

definition sb_grow :: "server_buf \<Rightarrow> server_buf" where
  "sb_grow b =
     (if length (sb_read_buffer b) - sb_read_len b < 512
      then b\<lparr>sb_read_buffer :=
             sb_read_buffer b @ replicate (length (sb_read_buffer b)) (CHR 0x00)\<rparr>
      else b)"

definition sb_space :: "server_buf \<Rightarrow> nat" where
  "sb_space b = length (sb_read_buffer (sb_grow b)) - sb_read_len b"

definition sb_read_stream ::
  "codec \<Rightarrow> (io_error, bytes) result \<Rightarrow> server_buf \<Rightarrow> (server_buf \<times> (io_error, unit) result) exec" where
  "sb_read_stream cd res b0 =
     (let b = sb_grow b0
      in case res of
           Err e \<Rightarrow> Ret (b, Err e)
         | Ok bs \<Rightarrow>
             (let buf = store_read (sb_read_buffer b) (sb_read_len b) bs;
                  len = sb_read_len b + length bs
              in exec_bind (sb_parse cd (take len buf) (b\<lparr>sb_read_buffer := buf\<rparr>) 0)
                   (\<lambda>(b', bytes_read).
                      let remaining = len - bytes_read
                      in Ret (b'\<lparr>sb_read_buffer := shift_loop 0 remaining bytes_read buf,
                               sb_read_len := remaining\<rparr>, Ok ()))))"

definition next_stream_tk :: "server_buf \<Rightarrow> server_buf \<times> token option" where
  "next_stream_tk b =
     (case stream_tks b of
        [] \<Rightarrow> (b, None)
      | (tk, _) # r \<Rightarrow> (b\<lparr>stream_tks := r\<rparr>, Some tk))"

definition next_stream_close_tk :: "server_buf \<Rightarrow> server_buf \<times> token option" where
  "next_stream_close_tk b =
     (case stream_close_tks b of
        [] \<Rightarrow> (b, None)
      | (tk, _) # r \<Rightarrow> (b\<lparr>stream_close_tks := r\<rparr>, Some tk))"

text \<open>
  \<open>cap\<close> is the number of \<open>enqueue\<close> calls that succeed before one fails. The result also
  lists the descriptors enqueued.
\<close>

fun sb_enqueue_loop ::
  "codec \<Rightarrow> nat \<Rightarrow> (request \<times> raw_fd) list \<Rightarrow> bytes \<Rightarrow>
     ((request \<times> raw_fd) list \<times> bytes \<times> raw_fd list) exec" where
  "sb_enqueue_loop cd cap [] wb = Ret ([], wb, [])"
| "sb_enqueue_loop cd cap ((msg, fd) # q) wb =
     (case cap of
        0 \<Rightarrow> Ret ((msg, fd) # q, wb, [])
      | Suc cap' \<Rightarrow>
          (case ser_request cd msg of
             None \<Rightarrow> Panic ''couldn't serialize msg''
           | Some bs \<Rightarrow>
               exec_bind (sb_enqueue_loop cd cap' q (wb @ u8_prefix (length bs) @ bs))
                 (\<lambda>(q', wb', fds). Ret (q', wb', fd # fds))))"

text \<open>
  \<open>write\<close> takes the first \<open>n\<close> bytes of the buffer; the result lists what went out.
\<close>

definition write_shift :: "bytes \<Rightarrow> nat \<Rightarrow> bytes" where
  "write_shift wb n = take (length wb - n) (shift_loop 0 (length wb - n) n wb)"

lemma write_shift_drop [simp, buf_simps]: "n \<le> length wb \<Longrightarrow> write_shift wb n = drop n wb"
  by (simp add: write_shift_def take_shift_loop)

definition sb_write_stream ::
  "codec \<Rightarrow> nat \<Rightarrow> (io_error, nat) result \<Rightarrow> server_buf \<Rightarrow>
     (server_buf \<times> raw_fd list \<times> bytes \<times> (io_error, unit) result) exec" where
  "sb_write_stream cd cap res b =
     exec_bind (sb_enqueue_loop cd cap (to_send b) (sb_write_buffer b))
       (\<lambda>(q, wb, fds).
          case res of
            Err e \<Rightarrow> Ret (b\<lparr>to_send := q, sb_write_buffer := wb\<rparr>, fds, [], Err e)
          | Ok n \<Rightarrow> Ret (b\<lparr>to_send := q, sb_write_buffer := write_shift wb n\<rparr>, fds, take n wb, Ok ()))"

definition sb_has_data_to_send :: "server_buf \<Rightarrow> bool" where
  "sb_has_data_to_send b \<longleftrightarrow> to_send b \<noteq> [] \<or> sb_write_buffer b \<noteq> []"

definition req_tcp_stream_fd :: "token \<Rightarrow> raw_fd \<Rightarrow> server_buf \<Rightarrow> server_buf" where
  "req_tcp_stream_fd tk fd b =
     b\<lparr>to_send := to_send b @ [(\<lparr>rq_token = tok tk, rq_fd = fd\<rparr>, fd)]\<rparr>"

section \<open>The worker's buffer\<close>

record worker_buf =
  wb_read_buffer :: bytes
  wb_read_len :: nat
  wb_write_buffer :: bytes
  server_fds :: "(token, raw_fd) hashmap"
  stream_fds :: "raw_fd list"
  stream_msgs :: "request list"

definition worker_buf_new :: worker_buf where
  "worker_buf_new =
     \<lparr>wb_read_buffer = replicate 2048 (CHR 0x00), wb_read_len = 0, wb_write_buffer = [],
      server_fds = [], stream_fds = [], stream_msgs = []\<rparr>"

function wb_parse :: "codec \<Rightarrow> bytes \<Rightarrow> worker_buf \<Rightarrow> nat \<Rightarrow> (worker_buf \<times> nat) exec" where
  "wb_parse cd buf b bytes_read =
     (if buf \<noteq> [] then
        (let size = u8_from (take 1 buf)
         in if length buf < size + 1 then Ret (b, bytes_read)
            else (case de_request cd (take size (drop 1 buf)) of
                    None \<Rightarrow> Panic ''couldn't deserialize request''
                  | Some msg \<Rightarrow>
                      wb_parse cd (drop (size + 1) buf) (b\<lparr>stream_msgs := stream_msgs b @ [msg]\<rparr>)
                        (bytes_read + (size + 1))))
      else Ret (b, bytes_read))"
  by pat_completeness auto
termination
  by (relation "measure (\<lambda>(cd, buf, b, n). length buf)") auto

declare wb_parse.simps [simp del]

definition wb_space :: "worker_buf \<Rightarrow> nat" where
  "wb_space b = length (wb_read_buffer b) - wb_read_len b"

text \<open>\<open>fds\<close> is what the socket's \<open>dequeue\<close> hands out after the read.\<close>

definition wb_read_stream ::
  "codec \<Rightarrow> (io_error, bytes) result \<Rightarrow> raw_fd list \<Rightarrow> worker_buf \<Rightarrow>
     (worker_buf \<times> (io_error, unit) result) exec" where
  "wb_read_stream cd res fds b =
     (case res of
        Err e \<Rightarrow> Ret (b, Err e)
      | Ok bs \<Rightarrow>
          (let buf = store_read (wb_read_buffer b) (wb_read_len b) bs;
               len = wb_read_len b + length bs
           in exec_bind (wb_parse cd (take len buf) (b\<lparr>wb_read_buffer := buf\<rparr>) 0)
                (\<lambda>(b', bytes_read).
                   let remaining = len - bytes_read
                   in Ret (b'\<lparr>wb_read_buffer := shift_loop 0 remaining bytes_read buf,
                            wb_read_len := remaining,
                            stream_fds := stream_fds b' @ fds\<rparr>, Ok ()))))"

definition next_stream_fd :: "worker_buf \<Rightarrow> worker_buf \<times> (token \<times> raw_fd) option" where
  "next_stream_fd b =
     (case stream_fds b of
        [] \<Rightarrow> (b, None)
      | fd # fds \<Rightarrow>
          (case stream_msgs b of
             [] \<Rightarrow> (b, None)
           | msg # msgs \<Rightarrow>
               (b\<lparr>stream_fds := fds, stream_msgs := msgs,
                  server_fds := hm_insert (Token (rq_token msg)) (rq_fd msg) (server_fds b)\<rparr>,
                Some (Token (rq_token msg), fd))))"

definition wb_has_data_to_send :: "worker_buf \<Rightarrow> bool" where
  "wb_has_data_to_send b \<longleftrightarrow> wb_write_buffer b \<noteq> []"

definition wb_write_stream ::
  "(io_error, nat) result \<Rightarrow> worker_buf \<Rightarrow> worker_buf \<times> bytes \<times> (io_error, unit) result" where
  "wb_write_stream res b =
     (case res of
        Err e \<Rightarrow> (b, [], Err e)
      | Ok n \<Rightarrow>
          (b\<lparr>wb_write_buffer := write_shift (wb_write_buffer b) n\<rparr>, take n (wb_write_buffer b), Ok ()))"

text \<open>
  The four \<open>resp_\<close> methods build a response with the server's descriptor, which they
  take out of \<open>server_fds\<close>, and append its frame; they differ in the last two fields.
\<close>

definition push_response ::
  "codec \<Rightarrow> token \<Rightarrow> bool \<Rightarrow> string option \<Rightarrow> worker_buf \<Rightarrow> worker_buf exec" where
  "push_response cd tk keep_alive err b =
     (case hm_get (server_fds b) tk of
        None \<Rightarrow> Panic ''couldn't find server fd''
      | Some fd \<Rightarrow>
          (let resp = \<lparr>rs_token = tok tk, rs_fd = fd, rs_keep_alive = keep_alive, rs_error = err\<rparr>
           in case ser_response cd resp of
                None \<Rightarrow> Panic ''couldn't serialize response''
              | Some bs \<Rightarrow>
                  Ret (b\<lparr>server_fds := hm_delete tk (server_fds b),
                         wb_write_buffer := wb_write_buffer b @ u32_be (length bs) @ bs\<rparr>)))"

definition resp_io_error :: "codec \<Rightarrow> token \<Rightarrow> io_error \<Rightarrow> worker_buf \<Rightarrow> worker_buf exec" where
  "resp_io_error cd tk err =
     push_response cd tk False (Some (''i/o error with stream'' @ ''-'' @ io_text err))"

definition resp_bad_client :: "codec \<Rightarrow> token \<Rightarrow> worker_buf \<Rightarrow> worker_buf exec" where
  "resp_bad_client cd tk = push_response cd tk False (Some ''badly formed client request'')"

definition resp_stream_reg_error :: "codec \<Rightarrow> token \<Rightarrow> io_error \<Rightarrow> worker_buf \<Rightarrow> worker_buf exec" where
  "resp_stream_reg_error cd tk err =
     push_response cd tk False
       (Some (''couldn't register stream with mio'' @ ''-'' @ io_text err))"

definition resp_stream_done_ok :: "codec \<Rightarrow> token \<Rightarrow> raw_fd \<Rightarrow> bool \<Rightarrow> worker_buf \<Rightarrow> worker_buf exec" where
  "resp_stream_done_ok cd tk fd keep_alive = push_response cd tk keep_alive None"

section \<open>One read of each buffer\<close>

definition sb_inv :: "server_buf \<Rightarrow> bool" where
  "sb_inv b \<longleftrightarrow> sb_read_len b \<le> length (sb_read_buffer b) \<and> 2048 \<le> length (sb_read_buffer b)"

definition sb_unread :: "server_buf \<Rightarrow> bytes" where
  "sb_unread b = take (sb_read_len b) (sb_read_buffer b)"

definition wb_inv :: "worker_buf \<Rightarrow> bool" where
  "wb_inv b \<longleftrightarrow> length (wb_read_buffer b) = 2048 \<and> wb_read_len b \<le> 255"

definition wb_unread :: "worker_buf \<Rightarrow> bytes" where
  "wb_unread b = take (wb_read_len b) (wb_read_buffer b)"

text \<open>The parse loops are the frame cutter followed by decoding.\<close>

lemma sb_parse_split:
  "sb_parse cd buf b n =
     (let (ps, r) = split_frames 4 5 u32_from_be buf
      in case decode_all (de_response cd) ps of
           None \<Rightarrow> Panic ''couldn't deserialize response''
         | Some ms \<Rightarrow> Ret (fold sb_push ms b, n + (length buf - length r)))"
proof (induction cd buf b n rule: sb_parse.induct)
  case (1 cd buf b n)
  show ?case
  proof (cases "4 < length buf \<and> u32_from_be (take 4 buf) + 4 \<le> length buf")
    case False
    then show ?thesis
      by (auto simp: sb_parse.simps [of cd buf b n] split_frames.simps [of 4 5 u32_from_be buf] Let_def)
  next
    case True
    let ?s = "u32_from_be (take 4 buf)"
    obtain ps r where pr: "split_frames 4 5 u32_from_be (drop (?s + 4) buf) = (ps, r)"
      by (cases "split_frames 4 5 u32_from_be (drop (?s + 4) buf)")
    have "length r \<le> length buf - (?s + 4)"
      using length_split_frames_rest [of 4 5 u32_from_be "drop (?s + 4) buf"] by (simp add: pr)
    with True have len: "n + (?s + 4) + (length (drop (?s + 4) buf) - length r) = n + (length buf - length r)"
      unfolding length_drop by linarith
    have c1: "4 < length buf" and c2: "\<not> length buf < ?s + 4" using True by simp_all
    have sp: "split_frames 4 5 u32_from_be buf = (take ?s (drop 4 buf) # ps, r)"
      using True by (simp add: split_frames.simps [of 4 5 u32_from_be buf] Let_def pr)
    show ?thesis
    proof (cases "de_response cd (take ?s (drop 4 buf))")
      case None
      with True sp show ?thesis by (simp add: sb_parse.simps [of cd buf b n] Let_def)
    next
      case (Some m)
      have "sb_parse cd buf b n = sb_parse cd (drop (?s + 4) buf) (sb_push m b) (n + (?s + 4))"
        using True Some by (simp add: sb_parse.simps [of cd buf b n] Let_def)
      also have "\<dots> = (case decode_all (de_response cd) ps of
           None \<Rightarrow> Panic ''couldn't deserialize response''
         | Some ms \<Rightarrow> Ret (fold sb_push ms (sb_push m b), n + (length buf - length r)))"
        using "1.IH" [OF c1 refl c2 Some] by (simp only: pr Let_def prod.case len)
      finally show ?thesis using Some sp by (auto split: option.splits)
    qed
  qed
qed

lemma split8_short:
  "buf = [] \<or> length buf < u8_from (take 1 buf) + 1 \<Longrightarrow> split_frames 1 1 u8_from buf = ([], buf)"
  by (subst split_frames.simps) (auto simp: Let_def)

lemma split8_long:
  "buf \<noteq> [] \<Longrightarrow> u8_from (take 1 buf) + 1 \<le> length buf \<Longrightarrow>
   split_frames 1 1 u8_from buf =
     (take (u8_from (take 1 buf)) (drop 1 buf) #
        fst (split_frames 1 1 u8_from (drop (u8_from (take 1 buf) + 1) buf)),
      snd (split_frames 1 1 u8_from (drop (u8_from (take 1 buf) + 1) buf)))"
  by (subst split_frames.simps) (auto simp: Let_def split_beta Suc_le_eq)

lemma wb_parse_split:
  "wb_parse cd buf b n =
     (let (ps, r) = split_frames 1 1 u8_from buf
      in case decode_all (de_request cd) ps of
           None \<Rightarrow> Panic ''couldn't deserialize request''
         | Some ms \<Rightarrow>
             Ret (b\<lparr>stream_msgs := stream_msgs b @ ms\<rparr>, n + (length buf - length r)))"
proof (induction cd buf b n rule: wb_parse.induct)
  case (1 cd buf b n)
  show ?case
  proof (cases "buf \<noteq> [] \<and> u8_from (take 1 buf) + 1 \<le> length buf")
    case False
    then have "wb_parse cd buf b n = Ret (b, n)"
      by (auto simp: wb_parse.simps [of cd buf b n] Let_def)
    moreover have "split_frames 1 1 u8_from buf = ([], buf)"
      using False by (intro split8_short) auto
    ultimately show ?thesis by (simp del: One_nat_def)
  next
    case True
    let ?s = "u8_from (take 1 buf)"
    obtain ps r where pr: "split_frames 1 1 u8_from (drop (?s + 1) buf) = (ps, r)"
      by (cases "split_frames 1 1 u8_from (drop (?s + 1) buf)")
    have "length r \<le> length buf - (?s + 1)"
      using length_split_frames_rest [of 1 1 u8_from "drop (?s + 1) buf"]
      by (simp only: pr snd_conv length_drop)
    with True have len: "n + (?s + 1) + (length (drop (?s + 1) buf) - length r) = n + (length buf - length r)"
      unfolding length_drop by linarith
    have c1: "buf \<noteq> []" and c2: "\<not> length buf < ?s + 1" using True by simp_all
    have sp: "split_frames 1 1 u8_from buf = (take ?s (drop 1 buf) # ps, r)"
      using True split8_long [of buf] pr by (simp del: One_nat_def)
    show ?thesis
    proof (cases "de_request cd (take ?s (drop 1 buf))")
      case None
      with True sp show ?thesis
        by (simp add: wb_parse.simps [of cd buf b n] Let_def del: One_nat_def)
    next
      case (Some m)
      let ?b = "b\<lparr>stream_msgs := stream_msgs b @ [m]\<rparr>"
      have "wb_parse cd buf b n = wb_parse cd (drop (?s + 1) buf) ?b (n + (?s + 1))"
        using True Some by (simp add: wb_parse.simps [of cd buf b n] Let_def del: One_nat_def)
      also have "\<dots> = (case decode_all (de_request cd) ps of
           None \<Rightarrow> Panic ''couldn't deserialize request''
         | Some ms \<Rightarrow>
             Ret (?b\<lparr>stream_msgs := stream_msgs ?b @ ms\<rparr>, n + (length buf - length r)))"
        using "1.IH" [OF c1 refl c2 Some] by (simp only: pr Let_def prod.case len)
      finally show ?thesis using Some sp by (auto simp del: One_nat_def split: option.splits)
    qed
  qed
qed

lemma sb_push_frame [simp]:
  "sb_read_buffer (sb_push m b) = sb_read_buffer b" "sb_read_len (sb_push m b) = sb_read_len b"
  "to_send (sb_push m b) = to_send b" "sb_write_buffer (sb_push m b) = sb_write_buffer b"
  by (simp_all add: sb_push_def)

lemma fold_sb_push_frame [simp]:
  "sb_read_buffer (fold sb_push ms b) = sb_read_buffer b"
  "sb_read_len (fold sb_push ms b) = sb_read_len b"
  "to_send (fold sb_push ms b) = to_send b"
  "sb_write_buffer (fold sb_push ms b) = sb_write_buffer b"
  by (induction ms arbitrary: b) simp_all

text \<open>What the server sees of its buffer: the two queues of tokens, and what it will send.\<close>

type_synonym server_view =
  "(token \<times> raw_fd) list \<times> (token \<times> raw_fd) list \<times> (request \<times> raw_fd) list \<times> bytes"

definition sb_view :: "server_buf \<Rightarrow> server_view" where
  "sb_view b = (stream_tks b, stream_close_tks b, to_send b, sb_write_buffer b)"

definition response_tk :: "response \<Rightarrow> token \<times> raw_fd" where
  "response_tk m = (Token (rs_token m), rs_fd m)"

definition keeps_stream :: "response \<Rightarrow> bool" where
  "keeps_stream m \<longleftrightarrow> rs_keep_alive m \<and> rs_error m = None"

definition sb_absorb :: "response \<Rightarrow> server_view \<Rightarrow> server_view" where
  "sb_absorb m v = (case v of (ks, cs, q, wb) \<Rightarrow>
     if keeps_stream m then (ks @ [response_tk m], cs, q, wb) else (ks, cs @ [response_tk m], q, wb))"

lemma sb_view_push: "sb_view (fold sb_push ms b) = fold sb_absorb ms (sb_view b)"
  by (induction ms arbitrary: b)
    (simp_all add: sb_view_def sb_absorb_def sb_push_def keeps_stream_def response_tk_def)

lemma fold_sb_absorb:
  "fold sb_absorb ms (ks, cs, q, wb) =
     (ks @ map response_tk (filter keeps_stream ms),
      cs @ map response_tk (filter (\<lambda>m. \<not> keeps_stream m) ms), q, wb)"
  by (induction ms arbitrary: ks cs) (simp_all add: sb_absorb_def)

lemma sb_grow_simps [simp]:
  "sb_read_len (sb_grow b) = sb_read_len b" "sb_view (sb_grow b) = sb_view b"
  by (simp_all add: sb_grow_def sb_view_def)

lemma sb_grow_inv: "sb_inv b \<Longrightarrow> sb_inv (sb_grow b)"
  by (auto simp: sb_inv_def sb_grow_def)

lemma sb_grow_unread: "sb_inv b \<Longrightarrow> sb_unread (sb_grow b) = sb_unread b"
  by (auto simp: sb_inv_def sb_grow_def sb_unread_def)

lemma sb_space_ge: "sb_inv b \<Longrightarrow> 512 \<le> sb_space b"
  by (auto simp: sb_inv_def sb_grow_def sb_space_def)

text \<open>The compaction after a read leaves exactly the bytes of the unfinished frame.\<close>

lemma compaction:
  assumes "len = length u" and "take len buf = u" and "len \<le> length buf"
    and "r = snd (split_frames h g d u)"
  shows "take (length r) (shift_loop 0 (length r) (len - length r) buf) = r"
    and "length r \<le> len"
proof -
  show le: "length r \<le> len"
    using length_split_frames_rest [of h g d u] assms(1,4) by simp
  then have "take (length r) (shift_loop 0 (length r) (len - length r) buf)
      = take (length r) (drop (len - length r) buf)"
    using assms(3) by (simp add: buf_simps)
  also have "\<dots> = take (length r) (drop (len - length r) (take len buf))"
    using le by (simp add: take_drop)
  also have "\<dots> = r"
    using drop_split_frames_rest [of u h g d] assms(1,2,4) by simp
  finally show "take (length r) (shift_loop 0 (length r) (len - length r) buf) = r" .
qed

lemma sb_read_spec:
  assumes inv: "sb_inv b" and fits: "length bs \<le> sb_space b"
    and sp: "split_frames 4 5 u32_from_be (sb_unread b @ bs) = (ps, r)"
    and de: "decode_all (de_response cd) ps = Some ms"
  shows "\<exists>b'. sb_read_stream cd (Ok bs) b = Ret (b', Ok ()) \<and> sb_inv b' \<and> sb_unread b' = r
    \<and> sb_view b' = fold sb_absorb ms (sb_view b)"
proof -
  define g where "g = sb_grow b"
  define buf where "buf = store_read (sb_read_buffer g) (sb_read_len b) bs"
  define len where "len = sb_read_len b + length bs"
  have g: "sb_inv g" "sb_unread g = sb_unread b" "sb_read_len g = sb_read_len b"
    using inv by (simp_all add: g_def sb_grow_inv sb_grow_unread)
  have room: "len \<le> length (sb_read_buffer g)"
    using fits g(1) by (auto simp: len_def sb_space_def g_def sb_inv_def)
  have u: "take len buf = sb_unread b @ bs"
    using room g(2,3) by (simp add: len_def buf_def sb_unread_def buf_simps)
  have lu: "len = length (sb_unread b @ bs)"
    using inv by (simp add: len_def sb_unread_def sb_inv_def)
  have lb: "length buf = length (sb_read_buffer g)"
    using room by (simp add: buf_def len_def)
  have rr: "r = snd (split_frames 4 5 u32_from_be (sb_unread b @ bs))" by (simp add: sp)
  have sh: "take (length r) (shift_loop 0 (length r) (len - length r) buf) = r" and le: "length r \<le> len"
    using compaction [OF lu u _ rr] room lb by simp_all
  let ?b' = "(fold sb_push ms (g\<lparr>sb_read_buffer := buf\<rparr>))
    \<lparr>sb_read_buffer := shift_loop 0 (length r) (len - length r) buf, sb_read_len := length r\<rparr>"
  have "sb_parse cd (take len buf) (g\<lparr>sb_read_buffer := buf\<rparr>) 0
      = Ret (fold sb_push ms (g\<lparr>sb_read_buffer := buf\<rparr>), len - length r)"
    unfolding u by (simp add: sb_parse_split sp de lu)
  then have "sb_read_stream cd (Ok bs) b = Ret (?b', Ok ())"
    using le by (simp add: sb_read_stream_def Let_def g_def [symmetric] g(3) buf_def [symmetric]
        len_def [symmetric])
  moreover have "sb_inv ?b'" using g(1) lb le room by (auto simp: sb_inv_def)
  moreover have "sb_view ?b' = fold sb_absorb ms (sb_view b)"
    using sb_view_push [of ms "g\<lparr>sb_read_buffer := buf\<rparr>"]
    by (simp add: sb_view_def g_def sb_grow_def)
  ultimately show ?thesis using sh by (auto simp: sb_unread_def)
qed

text \<open>
  An unfinished frame of the one-byte format is shorter than 256 bytes, so the worker's
  fixed buffer of 2048 bytes always has room for the next read.
\<close>

lemma short_rest: "length (snd (split_frames 1 1 u8_from buf)) \<le> 255"
proof (induction buf rule: length_induct)
  case (1 a)
  have "u8_from (take 1 a) \<le> 255"
    using nat_of_char_less_256 [of "hd a"]
    by (cases a) (simp_all add: u8_from_def less_Suc_eq_le [symmetric])
  with 1 show ?case
    using split8_short [of a] split8_long [of a]
    by (cases "a \<noteq> [] \<and> u8_from (take 1 a) + 1 \<le> length a") (auto simp del: One_nat_def)
qed

lemma wb_read_spec:
  assumes inv: "wb_inv b" and fits: "length bs \<le> wb_space b"
    and sp: "split_frames 1 1 u8_from (wb_unread b @ bs) = (ps, r)"
    and de: "decode_all (de_request cd) ps = Some ms"
  shows "\<exists>b'. wb_read_stream cd (Ok bs) fds b = Ret (b', Ok ()) \<and> wb_inv b' \<and> wb_unread b' = r
    \<and> stream_msgs b' = stream_msgs b @ ms \<and> stream_fds b' = stream_fds b @ fds
    \<and> server_fds b' = server_fds b \<and> wb_write_buffer b' = wb_write_buffer b"
proof -
  define buf where "buf = store_read (wb_read_buffer b) (wb_read_len b) bs"
  define len where "len = wb_read_len b + length bs"
  have room: "len \<le> length (wb_read_buffer b)"
    using fits inv by (auto simp: len_def wb_space_def wb_inv_def)
  have u: "take len buf = wb_unread b @ bs"
    using room by (simp add: len_def buf_def wb_unread_def buf_simps)
  have lu: "len = length (wb_unread b @ bs)"
    using inv by (simp add: len_def wb_unread_def wb_inv_def)
  have lb: "length buf = length (wb_read_buffer b)"
    using room by (simp add: buf_def len_def)
  have rr: "r = snd (split_frames 1 1 u8_from (wb_unread b @ bs))" by (simp only: sp snd_conv)
  have sh: "take (length r) (shift_loop 0 (length r) (len - length r) buf) = r" and le: "length r \<le> len"
    using compaction [OF lu u _ rr] room lb by (simp_all del: One_nat_def)
  have r255: "length r \<le> 255"
    using short_rest [of "wb_unread b @ bs"] by (simp add: sp del: One_nat_def)
  let ?b' = "b\<lparr>wb_read_buffer := shift_loop 0 (length r) (len - length r) buf, wb_read_len := length r,
      stream_msgs := stream_msgs b @ ms, stream_fds := stream_fds b @ fds\<rparr>"
  have "wb_parse cd (take len buf) (b\<lparr>wb_read_buffer := buf\<rparr>) 0
      = Ret (b\<lparr>wb_read_buffer := buf, stream_msgs := stream_msgs b @ ms\<rparr>, len - length r)"
    unfolding u by (simp add: wb_parse_split sp de lu del: One_nat_def)
  then have "wb_read_stream cd (Ok bs) fds b = Ret (?b', Ok ())"
    using le by (simp add: wb_read_stream_def Let_def buf_def [symmetric] len_def [symmetric])
  moreover have "wb_inv ?b'" using inv lb r255 by (simp add: wb_inv_def)
  ultimately show ?thesis using sh by (auto simp: wb_unread_def)
qed

end
