(* ===== verification/Codec.thy ===== *)
theory Codec
  imports Msgs
begin

text \<open>
  A codec that satisfies the contract \<open>codec_ok\<close>, for the examples: fixed-width
  little-endian integers, a byte per flag. It stands for no particular library.
\<close>

fun nat_bytes :: "nat \<Rightarrow> nat \<Rightarrow> bytes" where
  "nat_bytes 0 n = []"
| "nat_bytes (Suc k) n = char_of n # nat_bytes k (n div 256)"

fun bytes_nat :: "bytes \<Rightarrow> nat" where
  "bytes_nat [] = 0"
| "bytes_nat (c # cs) = of_char c + 256 * bytes_nat cs"

lemma length_nat_bytes [simp]: "length (nat_bytes k n) = k"
  by (induction k arbitrary: n) simp_all

lemma bytes_nat_bytes: "n < 256 ^ k \<Longrightarrow> bytes_nat (nat_bytes k n) = n"
  by (induction k arbitrary: n) (simp_all add: div_less_iff_less_mult mult.commute)

definition enc_request :: "request \<Rightarrow> bytes" where
  "enc_request m = nat_bytes 8 (unat (rq_token m)) @ nat_bytes 4 (unat (rq_fd m))"

definition dec_request :: "bytes \<Rightarrow> request option" where
  "dec_request b =
     (if length b = 12 then
        Some \<lparr>rq_token = of_nat (bytes_nat (take 8 b)), rq_fd = of_nat (bytes_nat (drop 8 b))\<rparr>
      else None)"

definition enc_response :: "response \<Rightarrow> bytes" where
  "enc_response m = nat_bytes 8 (unat (rs_token m)) @ nat_bytes 4 (unat (rs_fd m))
     @ [if rs_keep_alive m then CHR 0x01 else CHR 0x00]
     @ (case rs_error m of None \<Rightarrow> [CHR 0x00] | Some e \<Rightarrow> CHR 0x01 # e)"

definition dec_response :: "bytes \<Rightarrow> response option" where
  "dec_response b =
     (if length b < 14 then None
      else Some \<lparr>rs_token = of_nat (bytes_nat (take 8 b)),
                 rs_fd = of_nat (bytes_nat (take 4 (drop 8 b))),
                 rs_keep_alive = (b ! 12 = CHR 0x01),
                 rs_error = (if b ! 13 = CHR 0x01 then Some (drop 14 b) else None)\<rparr>)"

definition fixed_codec :: codec where
  "fixed_codec = \<lparr>ser_request = Some \<circ> enc_request, de_request = dec_request,
     ser_response = Some \<circ> enc_response, de_response = dec_response\<rparr>"

lemma unat64_bytes: "of_nat (bytes_nat (nat_bytes 8 (unat (w :: 64 word)))) = w"
  using unsigned_less [of w, where ?'a = nat] by (subst bytes_nat_bytes) simp_all

lemma unat32_bytes: "of_nat (bytes_nat (nat_bytes 4 (unat (w :: 32 word)))) = w"
  using unsigned_less [of w, where ?'a = nat] by (subst bytes_nat_bytes) simp_all

lemma dec_enc_request: "dec_request (enc_request m) = Some m"
  by (simp add: dec_request_def enc_request_def unat64_bytes unat32_bytes)

lemma dec_enc_response: "dec_response (enc_response m) = Some m"
proof -
  let ?k = "if rs_keep_alive m then CHR 0x01 else CHR 0x00"
  let ?e = "case rs_error m of None \<Rightarrow> [CHR 0x00] | Some e \<Rightarrow> CHR 0x01 # e"
  have b: "enc_response m = (nat_bytes 8 (unat (rs_token m)) @ nat_bytes 4 (unat (rs_fd m))) @ ?k # ?e"
    by (simp add: enc_response_def)
  have "length (nat_bytes 8 (unat (rs_token m)) @ nat_bytes 4 (unat (rs_fd m))) = 12" by simp
  then have "enc_response m ! 12 = ?k" and "enc_response m ! 13 = hd ?e"
    and "drop 14 (enc_response m) = tl ?e"
    unfolding b by (simp_all add: nth_append hd_conv_nth split: option.splits)
  moreover have "\<not> length (enc_response m) < 14"
    unfolding b by (simp split: option.splits)
  moreover have "take 8 (enc_response m) = nat_bytes 8 (unat (rs_token m))"
    and "take 4 (drop 8 (enc_response m)) = nat_bytes 4 (unat (rs_fd m))"
    unfolding b by simp_all
  ultimately show ?thesis
    by (cases m) (auto simp: dec_response_def unat64_bytes unat32_bytes split: option.splits)
qed

lemma fixed_codec_ok: "codec_ok fixed_codec"
proof -
  have "enc_request m \<noteq> []" "length (enc_request m) < 256" for m
    by (auto simp: enc_request_def dest: arg_cong [of _ "[]" length])
  moreover have "enc_response m \<noteq> []" for m
    by (simp add: enc_response_def)
  ultimately show ?thesis
    by (simp add: codec_ok_def fixed_codec_def dec_enc_request dec_enc_response)
qed

lemma fixed_codec_sel [simp]:
  "ser_request fixed_codec m = Some (enc_request m)" "de_request fixed_codec = dec_request"
  "ser_response fixed_codec k = Some (enc_response k)" "de_response fixed_codec = dec_response"
  by (simp_all add: fixed_codec_def)

end
