(* ===== verification/Link.thy ===== *)
theory Link
  imports Codec
begin

text \<open>
  The Unix socket between the server and one worker, both directions: the buffers of
  \<open>src/msgs/mod.rs\<close> as framed readers, the write side as a step relation over partial
  writes and full descriptor queues, and the round trips.
\<close>

section \<open>The two buffers are framed readers\<close>

definition sb_feed :: "codec \<Rightarrow> bytes \<Rightarrow> server_buf \<Rightarrow> server_buf exec" where
  "sb_feed cd bs b = exec_bind (sb_read_stream cd (Ok bs) b) (\<lambda>(b', _). Ret b')"

definition wb_feed :: "codec \<Rightarrow> bytes \<times> raw_fd list \<Rightarrow> worker_buf \<Rightarrow> worker_buf exec" where
  "wb_feed cd c b = exec_bind (wb_read_stream cd (Ok (fst c)) (snd c) b) (\<lambda>(b', _). Ret b')"

interpretation sr: framed_reader 4 5 u32_be u32_from_be "2 ^ 32"
    "sb_feed cd" "\<lambda>bs. bs" sb_inv sb_unread sb_space "de_response cd" sb_view sb_absorb for cd
proof unfold_locales
  fix b c ps r ms
  assume "sb_inv b" "length c \<le> sb_space b"
    "split_frames 4 5 u32_from_be (sb_unread b @ c) = (ps, r)" "decode_all (de_response cd) ps = Some ms"
  from sb_read_spec [OF this] show "\<exists>b'. sb_feed cd c b = Ret b' \<and> sb_inv b' \<and> sb_unread b' = r
      \<and> sb_view b' = fold sb_absorb ms (sb_view b)"
    by (auto simp: sb_feed_def)
qed

definition wb_absorb :: "request \<Rightarrow> request list \<Rightarrow> request list" where
  "wb_absorb m v = v @ [m]"

lemma fold_wb_absorb [simp]: "fold wb_absorb ms v = v @ ms"
  by (induction ms arbitrary: v) (simp_all add: wb_absorb_def)

interpretation wr: framed_reader 1 1 u8_prefix u8_from 256
    "wb_feed cd" fst wb_inv wb_unread wb_space "de_request cd" stream_msgs wb_absorb for cd
proof unfold_locales
  fix b and c :: "bytes \<times> raw_fd list" and ps r ms
  assume "wb_inv b" "length (fst c) \<le> wb_space b"
    "split_frames 1 1 u8_from (wb_unread b @ fst c) = (ps, r)" "decode_all (de_request cd) ps = Some ms"
  from wb_read_spec [OF this, of "snd c"] show "\<exists>b'. wb_feed cd c b = Ret b' \<and> wb_inv b' \<and> wb_unread b' = r
      \<and> stream_msgs b' = fold wb_absorb ms (stream_msgs b)"
    by (auto simp: wb_feed_def)
qed

lemma server_buf_new_simps [simp]:
  "sb_inv server_buf_new" "sb_unread server_buf_new = []" "sb_view server_buf_new = ([], [], [], [])"
  by (simp_all add: sb_inv_def sb_unread_def sb_view_def server_buf_new_def)

lemma worker_buf_new_simps [simp]:
  "wb_inv worker_buf_new" "wb_unread worker_buf_new = []"
  "stream_msgs worker_buf_new = []" "stream_fds worker_buf_new = []"
  by (simp_all add: wb_inv_def wb_unread_def worker_buf_new_def)

text \<open>Arrivals of at most 512 bytes always fit: the server keeps that much room.\<close>

lemma sb_feed_inv:
  assumes "sb_feed cd c b = Ret b'" and "sb_inv b" and "length c \<le> sb_space b"
  shows "sb_inv b'"
proof -
  obtain ps r where sp: "split_frames 4 5 u32_from_be (sb_unread b @ c) = (ps, r)"
    by (cases "split_frames 4 5 u32_from_be (sb_unread b @ c)")
  have "sb_read_len b + length c \<le> length (sb_read_buffer (sb_grow b))"
    using assms(3) sb_grow_inv [OF assms(2)] by (auto simp: sb_space_def sb_inv_def)
  then have g: "take (sb_read_len b + length c) (store_read (sb_read_buffer (sb_grow b)) (sb_read_len b) c)
      = sb_unread b @ c"
    using sb_grow_unread [OF assms(2)] by (simp add: sb_unread_def buf_simps)
  have "decode_all (de_response cd) ps \<noteq> None"
    using assms(1)
    by (auto simp: sb_feed_def sb_read_stream_def Let_def g sb_parse_split sp split: option.splits)
  then obtain ms where "decode_all (de_response cd) ps = Some ms" by blast
  from sb_read_spec [OF assms(2,3) sp this] assms(1) show ?thesis
    by (auto simp: sb_feed_def)
qed

lemma sb_feed_fits:
  "sb_inv b \<Longrightarrow> \<forall>c \<in> set cs. length c \<le> 512 \<Longrightarrow> feed_fits (sb_feed cd) (\<lambda>bs. bs) sb_space cs b"
proof (induction cs arbitrary: b)
  case Nil
  then show ?case by simp
next
  case (Cons c cs)
  then have "length c \<le> sb_space b" using sb_space_ge [of b] by simp
  with Cons show ?case by (auto split: exec.splits dest: sb_feed_inv)
qed

section \<open>Worker to server\<close>

text \<open>C16: responses a worker has framed reach the server in order however the socket cuts
  the bytes: the server does not panic, holds no partial frame at the end, and has queued
  the kept streams and the streams to close, each in the order of the responses.\<close>

theorem responses_roundtrip:
  assumes "codec_ok cd" and "\<forall>m \<in> set ms. response_fits cd m"
    and "concat chunks = concat (map (\<lambda>m. frame u32_be (the (ser_response cd m))) ms)"
    and "feed_fits (sb_feed cd) (\<lambda>bs. bs) sb_space chunks server_buf_new"
  shows "\<exists>b. feed (sb_feed cd) chunks server_buf_new = Ret b \<and> sb_unread b = [] \<and>
     stream_tks b = map response_tk (filter keeps_stream ms) \<and>
     stream_close_tks b = map response_tk (filter (\<lambda>m. \<not> keeps_stream m) ms)"
proof -
  have ser: "the (ser_response cd m) \<noteq> [] \<and> length (the (ser_response cd m)) < 2 ^ 32 \<and>
      de_response cd (the (ser_response cd m)) = Some m" if "m \<in> set ms" for m
  proof -
    obtain b where "ser_response cd m = Some b" "b \<noteq> []" "de_response cd b = Some m"
      using assms(1) unfolding codec_ok_def by blast
    with assms(2) that show ?thesis by (auto simp: response_fits_def)
  qed
  obtain b where "feed (sb_feed cd) chunks server_buf_new = Ret b" "sb_unread b = []"
    "sb_view b = fold sb_absorb ms ([], [], [], [])"
    using sr.feed_roundtrip [of server_buf_new cd chunks "\<lambda>m. the (ser_response cd m)" ms]
      assms(3,4) ser by auto
  then show ?thesis by (auto simp: fold_sb_absorb sb_view_def)
qed

theorem responses_roundtrip_witness:
  "\<exists>b. feed (sb_feed fixed_codec)
      [take 7 (frame u32_be (enc_response \<lparr>rs_token = 130, rs_fd = 5, rs_keep_alive = True, rs_error = None\<rparr>)),
       drop 7 (frame u32_be (enc_response \<lparr>rs_token = 130, rs_fd = 5, rs_keep_alive = True, rs_error = None\<rparr>))]
      server_buf_new = Ret b \<and> sb_unread b = [] \<and> stream_tks b = [(Token 130, 5)]"
proof -
  let ?m = "\<lparr>rs_token = 130, rs_fd = 5, rs_keep_alive = True, rs_error = None\<rparr> :: response"
  let ?f = "frame u32_be (enc_response ?m)"
  have len: "length ?f = 18" by (simp add: frame_def u32_be_def enc_response_def)
  have fits: "\<forall>m \<in> set [?m]. response_fits fixed_codec m"
    by (simp add: response_fits_def enc_response_def)
  have ch: "concat [take 7 ?f, drop 7 ?f] = concat (map (\<lambda>m. frame u32_be (the (ser_response fixed_codec m))) [?m])"
    by simp
  have "feed_fits (sb_feed fixed_codec) (\<lambda>bs. bs) sb_space [take 7 ?f, drop 7 ?f] server_buf_new"
    by (rule sb_feed_fits) (simp_all add: len)
  from responses_roundtrip [OF fixed_codec_ok fits ch this] show ?thesis
    by (auto simp: keeps_stream_def response_tk_def)
qed

section \<open>Server to worker: the write side\<close>

text \<open>
  What the server does to one worker's buffer: it asks for a stream to be sent, or it is
  called because the socket is writable, with whatever the descriptor queue and the
  socket accept. The state keeps what has gone over the socket.
\<close>

datatype send_op =
    Ask token raw_fd
  | Flush nat "(io_error, nat) result"

record sent_state =
  st_buf :: server_buf
  st_asked :: "(request \<times> raw_fd) list"
  st_bytes :: bytes
  st_fds :: "raw_fd list"

definition sent_new :: sent_state where
  "sent_new = \<lparr>st_buf = server_buf_new, st_asked = [], st_bytes = [], st_fds = []\<rparr>"

inductive send_step :: "codec \<Rightarrow> send_op \<Rightarrow> sent_state \<Rightarrow> sent_state \<Rightarrow> bool" for cd where
  ask: "send_step cd (Ask tk fd) s
     (s\<lparr>st_buf := req_tcp_stream_fd tk fd (st_buf s),
        st_asked := st_asked s @ [(\<lparr>rq_token = tok tk, rq_fd = fd\<rparr>, fd)]\<rparr>)"
| flush: "sb_write_stream cd cap res (st_buf s) = Ret (b', fds, out, r) \<Longrightarrow>
     (\<forall>n. res = Ok n \<longrightarrow> n \<le> length out) \<Longrightarrow>
     send_step cd (Flush cap res) s
     (s\<lparr>st_buf := b', st_fds := st_fds s @ fds, st_bytes := st_bytes s @ out\<rparr>)"

inductive_cases send_stepE: "send_step cd op s t"

definition request_frame :: "codec \<Rightarrow> request \<Rightarrow> bytes" where
  "request_frame cd m = frame u8_prefix (the (ser_request cd m))"

definition send_inv :: "codec \<Rightarrow> sent_state \<Rightarrow> bool" where
  "send_inv cd s \<longleftrightarrow> (\<exists>done.
     st_asked s = done @ to_send (st_buf s) \<and> st_fds s = map snd done \<and>
     st_bytes s @ sb_write_buffer (st_buf s) = concat (map (\<lambda>x. request_frame cd (fst x)) done))"

text \<open>The enqueue loop moves a prefix of the queue, descriptors and frames together.\<close>

lemma sb_enqueue_loop_prefix:
  "sb_enqueue_loop cd cap q wb = Ret (q', wb', fds) \<Longrightarrow>
   \<exists>mv. q = mv @ q' \<and> fds = map snd mv \<and> wb' = wb @ concat (map (\<lambda>x. request_frame cd (fst x)) mv)"
proof (induction cd cap q wb arbitrary: q' wb' fds rule: sb_enqueue_loop.induct)
  case (1 cd cap wb)
  then show ?case by simp
next
  case (2 cd cap msg fd q wb)
  show ?case
  proof (cases cap)
    case 0
    with "2.prems" show ?thesis by auto
  next
    case (Suc n)
    with "2.prems" obtain bs fds' where bs: "ser_request cd msg = Some bs" and fds: "fds = fd # fds'"
      and l: "sb_enqueue_loop cd n q (wb @ u8_prefix (length bs) @ bs) = Ret (q', wb', fds')"
      by (auto split: option.splits)
    from "2.IH" [OF Suc bs l] obtain mv where "q = mv @ q'" "fds' = map snd mv"
      "wb' = (wb @ u8_prefix (length bs) @ bs) @ concat (map (\<lambda>x. request_frame cd (fst x)) mv)" by blast
    moreover have "request_frame cd msg = u8_prefix (length bs) @ bs"
      by (simp add: bs request_frame_def frame_def)
    ultimately show ?thesis
      by (intro exI [of _ "(msg, fd) # mv"]) (simp add: fds)
  qed
qed

lemma sb_write_stream_spec:
  assumes "sb_write_stream cd cap res b = Ret (b', fds, out, r)"
    and "\<forall>n. res = Ok n \<longrightarrow> n \<le> length out"
  shows "\<exists>mv. to_send b = mv @ to_send b' \<and> fds = map snd mv \<and>
     out @ sb_write_buffer b' = sb_write_buffer b @ concat (map (\<lambda>x. request_frame cd (fst x)) mv)"
proof -
  obtain q wb fds' where l: "sb_enqueue_loop cd cap (to_send b) (sb_write_buffer b) = Ret (q, wb, fds')"
    using assms(1) by (auto simp: sb_write_stream_def)
  have q: "to_send b' = q" "fds = fds'" and out: "out @ sb_write_buffer b' = wb"
    using assms l by (cases res; auto simp: sb_write_stream_def)+
  with sb_enqueue_loop_prefix [OF l] show ?thesis by simp
qed

lemma send_step_inv: "send_step cd op s t \<Longrightarrow> send_inv cd s \<Longrightarrow> send_inv cd t"
proof (induction rule: send_step.induct)
  case (ask tk fd s)
  then show ?case by (auto simp: send_inv_def req_tcp_stream_fd_def)
next
  case (flush cap res s b' fds out r)
  from sb_write_stream_spec [OF flush.hyps] obtain mv where
    mv: "to_send (st_buf s) = mv @ to_send b'" "fds = map snd mv"
      "out @ sb_write_buffer b' = sb_write_buffer (st_buf s) @ concat (map (\<lambda>x. request_frame cd (fst x)) mv)"
    by blast
  from flush.prems obtain dn where dn: "st_asked s = dn @ to_send (st_buf s)" "st_fds s = map snd dn"
      "st_bytes s @ sb_write_buffer (st_buf s) = concat (map (\<lambda>x. request_frame cd (fst x)) dn)"
    unfolding send_inv_def by blast
  have "(st_bytes s @ out) @ sb_write_buffer b' = concat (map (\<lambda>x. request_frame cd (fst x)) (dn @ mv))"
    using mv(3) dn(3) by (metis append.assoc concat_append map_append)
  then show ?case
    using mv dn by (auto simp: send_inv_def intro!: exI [of _ "dn @ mv"])
qed

interpretation sender: step_invariant "send_step cd" "send_inv cd" for cd
  by unfold_locales (rule send_step_inv)

lemma send_inv_new [simp]: "send_inv cd sent_new"
  by (simp add: send_inv_def sent_new_def server_buf_new_def)

section \<open>The worker's fixed buffer\<close>

lemma wb_feed_inv:
  assumes "wb_feed cd c b = Ret b'" and "wb_inv b" and "length (fst c) \<le> wb_space b"
  shows "wb_inv b'"
proof -
  obtain ps r where sp: "split_frames 1 1 u8_from (wb_unread b @ fst c) = (ps, r)"
    by (cases "split_frames 1 1 u8_from (wb_unread b @ fst c)")
  have "wb_read_len b + length (fst c) \<le> length (wb_read_buffer b)"
    using assms(2,3) by (auto simp: wb_space_def wb_inv_def)
  then have g: "take (wb_read_len b + length (fst c)) (store_read (wb_read_buffer b) (wb_read_len b) (fst c))
      = wb_unread b @ fst c"
    by (simp add: wb_unread_def buf_simps)
  have "decode_all (de_request cd) ps \<noteq> None"
    using assms(1)
    by (auto simp: wb_feed_def wb_read_stream_def Let_def g wb_parse_split sp
        simp del: One_nat_def split: option.splits)
  then obtain ms where "decode_all (de_request cd) ps = Some ms" by blast
  from wb_read_spec [OF assms(2,3) sp this, of "snd c"] assms(1) show ?thesis
    by (auto simp: wb_feed_def)
qed

text \<open>Whatever bytes arrive and however they are cut, the worker's buffer, which never
  grows, keeps at least 1793 of its 2048 bytes free after a read; the next read is never
  offered an empty slice.\<close>

theorem worker_buffer_room:
  assumes "feed (wb_feed cd) arrivals worker_buf_new = Ret b"
    and "feed_fits (wb_feed cd) fst wb_space arrivals worker_buf_new"
  shows "length (wb_read_buffer b) = 2048 \<and> 1793 \<le> wb_space b"
proof -
  have "wb_inv c" if "feed (wb_feed cd) cs a = Ret c" "feed_fits (wb_feed cd) fst wb_space cs a" "wb_inv a"
    for cs a c
    using that
  proof (induction cs arbitrary: a)
    case Nil
    then show ?case by simp
  next
    case (Cons x cs)
    from Cons.prems(1) obtain d where d: "wb_feed cd x a = Ret d" "feed (wb_feed cd) cs d = Ret c"
      by auto
    from Cons.prems(2) d(1) have f: "length (fst x) \<le> wb_space a"
      "feed_fits (wb_feed cd) fst wb_space cs d" by simp_all
    from wb_feed_inv [OF d(1) Cons.prems(3) f(1)] Cons.IH [OF d(2) f(2)] show ?case by blast
  qed
  from this [OF assms] have "wb_inv b" by simp
  then show ?thesis by (auto simp: wb_inv_def wb_space_def)
qed

theorem worker_buffer_room_witness:
  "\<exists>b. feed (wb_feed fixed_codec) [(replicate 200 (CHR 0xFF), [])] worker_buf_new = Ret b \<and>
     1793 \<le> wb_space b"
proof -
  let ?a = "[(replicate 200 (CHR 0xFF), [])] :: (bytes \<times> raw_fd list) list"
  have s: "split_frames 1 1 u8_from (replicate 200 (CHR 0xFF)) = ([], replicate 200 (CHR 0xFF))"
    by (rule split8_short) (simp add: u8_from_def)
  have le: "length (fst (hd ?a)) \<le> wb_space worker_buf_new"
    by (simp add: wb_space_def worker_buf_new_def)
  obtain b where b: "feed (wb_feed fixed_codec) ?a worker_buf_new = Ret b"
    using wb_read_spec [of worker_buf_new "replicate 200 (CHR 0xFF)" "[]" _ fixed_codec "[]" "[]"] s le
    by (auto simp: wb_feed_def)
  have "feed_fits (wb_feed fixed_codec) fst wb_space ?a worker_buf_new"
    using le by (simp split: exec.splits)
  from worker_buffer_room [OF b this] b show ?thesis by blast
qed

section \<open>Taking the streams out\<close>

text \<open>Draining a worker's buffer with \<open>next_stream_fd\<close>, as the loop of the worker does.\<close>

function drain_streams :: "worker_buf \<Rightarrow> worker_buf \<times> (token \<times> raw_fd) list" where
  "drain_streams b =
     (case next_stream_fd b of
        (b', None) \<Rightarrow> (b', [])
      | (b', Some x) \<Rightarrow> (let (b'', xs) = drain_streams b' in (b'', x # xs)))"
  by pat_completeness auto
termination
  by (relation "measure (\<lambda>b. length (stream_fds b))")
    (auto simp: next_stream_fd_def split: list.splits)

declare drain_streams.simps [simp del]

lemma drain_streams_zip:
  "snd (drain_streams b) = zip (map (\<lambda>m. Token (rq_token m)) (stream_msgs b)) (stream_fds b)"
proof (induction b rule: drain_streams.induct)
  case (1 b)
  show ?case
  proof (cases "stream_fds b = [] \<or> stream_msgs b = []")
    case True
    then show ?thesis
      by (subst drain_streams.simps) (auto simp: next_stream_fd_def split: list.splits)
  next
    case False
    then obtain f fs m mm where b: "stream_fds b = f # fs" "stream_msgs b = m # mm"
      by (auto simp: neq_Nil_conv)
    let ?b' = "b\<lparr>stream_fds := fs, stream_msgs := mm,
      server_fds := hm_insert (Token (rq_token m)) (rq_fd m) (server_fds b)\<rparr>"
    have n: "next_stream_fd b = (?b', Some (Token (rq_token m), f))"
      by (simp add: next_stream_fd_def b)
    from "1.IH" [OF n [symmetric] refl] show ?thesis
      by (subst drain_streams.simps) (simp add: n split_beta b)
  qed
qed

lemma wb_feed_fds:
  "feed (wb_feed cd) cs b = Ret b' \<Longrightarrow> stream_fds b' = stream_fds b @ concat (map snd cs)"
proof (induction cs arbitrary: b)
  case Nil
  then show ?case by simp
next
  case (Cons c cs)
  then obtain b1 where c: "wb_feed cd c b = Ret b1" and f: "feed (wb_feed cd) cs b1 = Ret b'"
    by auto
  then obtain r where "wb_read_stream cd (Ok (fst c)) (snd c) b = Ret (b1, r)"
    by (auto simp: wb_feed_def)
  then have "stream_fds b1 = stream_fds b @ snd c"
    by (auto simp: wb_read_stream_def wb_parse_split Let_def split: prod.splits option.splits)
  with Cons.IH [OF f] show ?case by simp
qed

text \<open>C15: whatever partial writes, full descriptor queues and read sizes occur, once the
  server's buffer is flushed and its bytes and descriptors have arrived, the worker takes
  out exactly the streams asked for, each token with the descriptor sent for it, in order.\<close>

theorem requests_reach_worker:
  assumes "codec_ok cd" and "run (send_step cd) sent_new ops s"
    and "\<not> sb_has_data_to_send (st_buf s)"
    and "concat (map fst arrivals) = st_bytes s"
    and "concat (map snd arrivals) = map dup (st_fds s)"
    and "feed_fits (wb_feed cd) fst wb_space arrivals worker_buf_new"
  shows "\<exists>b. feed (wb_feed cd) arrivals worker_buf_new = Ret b \<and>
     snd (drain_streams b) = map (\<lambda>(m, fd). (Token (rq_token m), dup fd)) (st_asked s)"
proof -
  have "send_inv cd s" using sender.run_inv [OF assms(2)] by simp
  with assms(3) have fds: "st_fds s = map snd (st_asked s)"
    and byt: "st_bytes s = concat (map (\<lambda>x. request_frame cd (fst x)) (st_asked s))"
    by (auto simp: send_inv_def sb_has_data_to_send_def)
  let ?ms = "map fst (st_asked s)"
  have ser: "the (ser_request cd m) \<noteq> [] \<and> length (the (ser_request cd m)) < 256 \<and>
      de_request cd (the (ser_request cd m)) = Some m" for m
    using assms(1) unfolding codec_ok_def by (metis option.sel)
  have "concat (map fst arrivals) = concat (map (\<lambda>m. frame u8_prefix (the (ser_request cd m))) ?ms)"
    using assms(4) by (simp add: byt request_frame_def o_def)
  then obtain b where b: "feed (wb_feed cd) arrivals worker_buf_new = Ret b" "stream_msgs b = ?ms"
    using wr.feed_roundtrip [of worker_buf_new cd arrivals "\<lambda>m. the (ser_request cd m)" ?ms]
      assms(6) ser by auto
  have "stream_fds b = map (\<lambda>x. dup (snd x)) (st_asked s)"
    using wb_feed_fds [OF b(1)] assms(5) by (simp add: fds o_def)
  then show ?thesis
    using b drain_streams_zip [of b] by (auto simp: zip_map_map zip_same_conv_map o_def split_beta)
qed

theorem requests_reach_worker_witness:
  "\<exists>s b. run (send_step fixed_codec) sent_new
      [Ask (Token 16777216) 9, Flush 0 (Ok 0), Flush 1 (Ok 5), Flush 0 (Ok 8)] s \<and>
    feed (wb_feed fixed_codec) [(st_bytes s, [4])] worker_buf_new = Ret b \<and>
    snd (drain_streams b) = [(Token 16777216, 4)]"
proof -
  let ?q = "(\<lparr>rq_token = 16777216, rq_fd = 9\<rparr>, 9) :: request \<times> raw_fd"
  define e where "e = u8_prefix (length (enc_request (fst ?q))) @ enc_request (fst ?q)"
  have len: "length e = 13" by (simp add: e_def enc_request_def u8_prefix_def)
  have enq: "sb_enqueue_loop fixed_codec 1 [?q] [] = Ret ([], e, [9])" by (simp add: e_def)
  let ?b1 = "server_buf_new\<lparr>to_send := [?q]\<rparr>"
  let ?s1 = "\<lparr>st_buf = ?b1, st_asked = [?q], st_bytes = [], st_fds = []\<rparr>"
  let ?s2 = "\<lparr>st_buf = server_buf_new\<lparr>sb_write_buffer := drop 5 e\<rparr>, st_asked = [?q],
      st_bytes = take 5 e, st_fds = [9]\<rparr>"
  let ?s3 = "\<lparr>st_buf = server_buf_new, st_asked = [?q], st_bytes = e, st_fds = [9]\<rparr>"
  have "send_step fixed_codec (Ask (Token 16777216) 9) sent_new ?s1"
    using send_step.ask [of fixed_codec "Token 16777216" 9 sent_new]
    by (simp add: sent_new_def req_tcp_stream_fd_def server_buf_new_def)
  moreover have "send_step fixed_codec (Flush 0 (Ok 0)) ?s1 ?s1"
    using send_step.flush [of fixed_codec 0 "Ok 0" ?s1 ?b1 "[]" "[]" "Ok ()"]
    by (simp add: sb_write_stream_def server_buf_new_def)
  moreover have "send_step fixed_codec (Flush 1 (Ok 5)) ?s1 ?s2"
    using send_step.flush [of fixed_codec 1 "Ok 5" ?s1 "server_buf_new\<lparr>sb_write_buffer := drop 5 e\<rparr>"
        "[9]" "take 5 e" "Ok ()"] len enq
    by (simp add: sb_write_stream_def server_buf_new_def del: sb_enqueue_loop.simps One_nat_def)
  moreover have "send_step fixed_codec (Flush 0 (Ok 8)) ?s2 ?s3"
    using send_step.flush [of fixed_codec 0 "Ok 8" ?s2 server_buf_new "[]" "drop 5 e" "Ok ()"] len
    by (simp add: sb_write_stream_def server_buf_new_def)
  ultimately have r: "run (send_step fixed_codec) sent_new
      [Ask (Token 16777216) 9, Flush 0 (Ok 0), Flush 1 (Ok 5), Flush 0 (Ok 8)] ?s3"
    by (auto simp del: send_step.simps)
  have "\<exists>b. feed (wb_feed fixed_codec) [(e, [4])] worker_buf_new = Ret b \<and>
      snd (drain_streams b) = map (\<lambda>(m, fd). (Token (rq_token m), (\<lambda>_. 4) fd)) (st_asked ?s3)"
  proof (rule requests_reach_worker [OF fixed_codec_ok r])
    show "\<not> sb_has_data_to_send (st_buf ?s3)"
      by (simp add: sb_has_data_to_send_def server_buf_new_def)
    show "feed_fits (wb_feed fixed_codec) fst wb_space [(e, [4])] worker_buf_new"
      using len by (auto simp: wb_space_def worker_buf_new_def split: exec.splits)
  qed simp_all
  with r show ?thesis
    by (intro exI [of _ ?s3]) simp
qed

end
