(* ===== verification/UnixStreams.thy ===== *)
theory UnixStreams
  imports Msgs
begin

text \<open>
  \<open>src/server/unixstreams.rs\<close>: the server's side of the workers' sockets. Each has a
  message buffer, a count of the requests its worker holds, and the interest it is
  registered with in the poll registry. Registry calls are made visible as values; the
  registry's answer is an argument.
\<close>

section \<open>One stream\<close>

datatype stream_interest = INot | IRead | IWrite | IReadWrite

definition from_rw :: "bool \<Rightarrow> bool \<Rightarrow> stream_interest" where
  "from_rw poll_read poll_write =
     (case (poll_read, poll_write) of
        (False, False) \<Rightarrow> INot
      | (False, True) \<Rightarrow> IWrite
      | (True, False) \<Rightarrow> IRead
      | (True, True) \<Rightarrow> IReadWrite)"

text \<open>
  \<open>num_reqs\<close> is a \<open>usize\<close>; its arithmetic wraps as in a release build. The last four fields, which
  the code does not keep, are the bytes its reads have taken from the socket and its writes have put
  on it, the streams it was asked to send, and the descriptors it has put on the socket.
\<close>

record unix_stream =
  us_token :: token
  us_buffer :: server_buf
  us_interest :: stream_interest
  num_reqs :: usize
  us_got :: bytes
  us_sent :: bytes
  us_asked :: "(request \<times> raw_fd) list"
  us_fds :: "raw_fd list"

definition unix_stream_new :: "token \<Rightarrow> unix_stream" where
  "unix_stream_new tk =
     \<lparr>us_token = tk, us_buffer = server_buf_new, us_interest = INot, num_reqs = 0,
      us_got = [], us_sent = [], us_asked = [], us_fds = []\<rparr>"

text \<open>
  The calls on mio's registry, with the interest asked for (readable, writable, both).
\<close>

datatype mio_interest = Readable | Writable | ReadableWritable

datatype reg_call =
    Register token mio_interest
  | Reregister token mio_interest
  | Deregister token

definition us_poll_read :: "unix_stream \<Rightarrow> bool" where
  "us_poll_read s \<longleftrightarrow> 0 < num_reqs s"

definition us_poll_write :: "unix_stream \<Rightarrow> bool" where
  "us_poll_write s \<longleftrightarrow> sb_has_data_to_send (us_buffer s)"

text \<open>The registry call \<open>reregister\<close> makes, if any; the conditions of each arm exclude each other.\<close>

definition reregister_call :: "unix_stream \<Rightarrow> reg_call option" where
  "reregister_call s =
     (let poll_read = us_poll_read s; poll_write = us_poll_write s; tk = us_token s
      in case us_interest s of
           INot \<Rightarrow>
             if poll_read \<and> poll_write then Some (Register tk ReadableWritable)
             else if \<not> poll_read \<and> poll_write then Some (Register tk Writable)
             else if poll_read \<and> \<not> poll_write then Some (Register tk Readable)
             else None
         | IRead \<Rightarrow>
             if \<not> poll_read \<and> \<not> poll_write then Some (Deregister tk)
             else if \<not> poll_read \<and> poll_write then Some (Reregister tk Writable)
             else if poll_read \<and> poll_write then Some (Reregister tk ReadableWritable)
             else None
         | IWrite \<Rightarrow>
             if \<not> poll_read \<and> \<not> poll_write then Some (Deregister tk)
             else if poll_read \<and> \<not> poll_write then Some (Reregister tk Readable)
             else if poll_read \<and> poll_write then Some (Reregister tk ReadableWritable)
             else None
         | IReadWrite \<Rightarrow>
             if \<not> poll_read \<and> \<not> poll_write then Some (Deregister tk)
             else if \<not> poll_read \<and> poll_write then Some (Reregister tk Writable)
             else if poll_read \<and> \<not> poll_write then Some (Reregister tk Readable)
             else None)"

definition us_reregister ::
  "(reg_call \<Rightarrow> io_error option) \<Rightarrow> unix_stream \<Rightarrow> unix_stream \<times> (io_error, unit) result" where
  "us_reregister reg s =
     (case Option.bind (reregister_call s) reg of
        Some e \<Rightarrow> (s, Err e)
      | None \<Rightarrow> (s\<lparr>us_interest := from_rw (us_poll_read s) (us_poll_write s)\<rparr>, Ok ()))"

definition us_next_stream_tk :: "unix_stream \<Rightarrow> unix_stream \<times> token option" where
  "us_next_stream_tk s =
     (case next_stream_tk (us_buffer s) of
        (b, Some tk) \<Rightarrow> (s\<lparr>us_buffer := b, num_reqs := num_reqs s - 1\<rparr>, Some tk)
      | (b, None) \<Rightarrow> (s\<lparr>us_buffer := b\<rparr>, None))"

definition us_next_stream_close_tk :: "unix_stream \<Rightarrow> unix_stream \<times> token option" where
  "us_next_stream_close_tk s =
     (case next_stream_close_tk (us_buffer s) of
        (b, Some tk) \<Rightarrow> (s\<lparr>us_buffer := b, num_reqs := num_reqs s - 1\<rparr>, Some tk)
      | (b, None) \<Rightarrow> (s\<lparr>us_buffer := b\<rparr>, None))"

definition us_msg_send_tcp_stream :: "token \<Rightarrow> raw_fd \<Rightarrow> unix_stream \<Rightarrow> unix_stream" where
  "us_msg_send_tcp_stream tk fd s =
     s\<lparr>num_reqs := num_reqs s + 1, us_buffer := req_tcp_stream_fd tk fd (us_buffer s),
       us_asked := us_asked s @ [(\<lparr>rq_token = tok tk, rq_fd = fd\<rparr>, fd)]\<rparr>"

definition read_bytes :: "(io_error, bytes) result \<Rightarrow> bytes" where
  "read_bytes r = (case r of Ok bs \<Rightarrow> bs | Err _ \<Rightarrow> [])"

lemma read_bytes_simps [simp]: "read_bytes (Ok bs) = bs" "read_bytes (Err e) = []"
  by (simp_all add: read_bytes_def)

definition us_read_stream ::
  "codec \<Rightarrow> (io_error, bytes) result \<Rightarrow> unix_stream \<Rightarrow> (unix_stream \<times> (io_error, unit) result) exec" where
  "us_read_stream cd res s =
     exec_bind (sb_read_stream cd res (us_buffer s))
       (\<lambda>(b, r). Ret (s\<lparr>us_buffer := b, us_got := us_got s @ read_bytes res\<rparr>, r))"

definition us_write_stream ::
  "codec \<Rightarrow> nat \<Rightarrow> (io_error, nat) result \<Rightarrow> unix_stream \<Rightarrow>
     (unix_stream \<times> (io_error, unit) result) exec" where
  "us_write_stream cd cap res s =
     exec_bind (sb_write_stream cd cap res (us_buffer s))
       (\<lambda>(b, fds, out, r).
          Ret (s\<lparr>us_buffer := b, us_sent := us_sent s @ out, us_fds := us_fds s @ fds\<rparr>, r))"

section \<open>All streams\<close>

type_synonym unix_streams = "unix_stream list"

text \<open>\<open>get_mut\<close>: the index of the first stream with the token.\<close>

fun us_find :: "token \<Rightarrow> unix_streams \<Rightarrow> nat option" where
  "us_find tk [] = None"
| "us_find tk (s # ss) = (if us_token s = tk then Some 0 else map_option Suc (us_find tk ss))"

text \<open>The inner loops of \<open>next_stream_tks\<close> and \<open>next_stream_close_tks\<close>.\<close>

lemma us_next_stream_tk_less:
  "us_next_stream_tk s = (s', Some tk) \<Longrightarrow>
   length (stream_tks (us_buffer s')) < length (stream_tks (us_buffer s))"
  by (auto simp: us_next_stream_tk_def next_stream_tk_def split: list.splits)

lemma us_next_stream_close_tk_less:
  "us_next_stream_close_tk s = (s', Some tk) \<Longrightarrow>
   length (stream_close_tks (us_buffer s')) < length (stream_close_tks (us_buffer s))"
  by (auto simp: us_next_stream_close_tk_def next_stream_close_tk_def split: list.splits)

function us_drain_tks :: "unix_stream \<Rightarrow> token list \<Rightarrow> unix_stream \<times> token list" where
  "us_drain_tks s tks =
     (case us_next_stream_tk s of
        (s', Some tk) \<Rightarrow> us_drain_tks s' (tks @ [tk])
      | (s', None) \<Rightarrow> (s', tks))"
  by pat_completeness auto
termination
  by (relation "measure (\<lambda>(s, tks). length (stream_tks (us_buffer s)))")
    (auto dest: us_next_stream_tk_less [OF sym])

function us_drain_close_tks :: "unix_stream \<Rightarrow> token list \<Rightarrow> unix_stream \<times> token list" where
  "us_drain_close_tks s tks =
     (case us_next_stream_close_tk s of
        (s', Some tk) \<Rightarrow> us_drain_close_tks s' (tks @ [tk])
      | (s', None) \<Rightarrow> (s', tks))"
  by pat_completeness auto
termination
  by (relation "measure (\<lambda>(s, tks). length (stream_close_tks (us_buffer s)))")
    (auto dest: us_next_stream_close_tk_less [OF sym])

declare us_drain_tks.simps [simp del] us_drain_close_tks.simps [simp del]

fun next_stream_tks_loop :: "unix_streams \<Rightarrow> token list \<Rightarrow> unix_streams \<times> token list" where
  "next_stream_tks_loop [] tks = ([], tks)"
| "next_stream_tks_loop (s # ss) tks =
     (let (s', tks') = us_drain_tks s tks; (ss', out) = next_stream_tks_loop ss tks'
      in (s' # ss', out))"

definition next_stream_tks :: "unix_streams \<Rightarrow> unix_streams \<times> token list" where
  "next_stream_tks ss = next_stream_tks_loop ss []"

fun next_stream_close_tks_loop :: "unix_streams \<Rightarrow> token list \<Rightarrow> unix_streams \<times> token list" where
  "next_stream_close_tks_loop [] tks = ([], tks)"
| "next_stream_close_tks_loop (s # ss) tks =
     (let (s', tks') = us_drain_close_tks s tks; (ss', out) = next_stream_close_tks_loop ss tks'
      in (s' # ss', out))"

definition next_stream_close_tks :: "unix_streams \<Rightarrow> unix_streams \<times> token list" where
  "next_stream_close_tks ss = next_stream_close_tks_loop ss []"

text \<open>Draining a stream empties its queue and takes one off the count per token.\<close>

lemma us_drain_tks_eq:
  "us_drain_tks s tks =
     (s\<lparr>us_buffer := (us_buffer s)\<lparr>stream_tks := []\<rparr>,
        num_reqs := num_reqs s - of_nat (length (stream_tks (us_buffer s)))\<rparr>,
      tks @ map fst (stream_tks (us_buffer s)))"
proof (induction s tks rule: us_drain_tks.induct)
  case (1 s tks)
  show ?case
  proof (cases "stream_tks (us_buffer s)")
    case Nil
    then show ?thesis
      by (subst us_drain_tks.simps) (simp add: us_next_stream_tk_def next_stream_tk_def)
  next
    case (Cons x xs)
    then have n: "us_next_stream_tk s =
        (s\<lparr>us_buffer := (us_buffer s)\<lparr>stream_tks := xs\<rparr>, num_reqs := num_reqs s - 1\<rparr>, Some (fst x))"
      by (simp add: us_next_stream_tk_def next_stream_tk_def split_beta)
    from "1.IH" [OF n [symmetric] refl] show ?thesis
      by (subst us_drain_tks.simps) (simp add: n Cons)
  qed
qed

lemma us_drain_close_tks_eq:
  "us_drain_close_tks s tks =
     (s\<lparr>us_buffer := (us_buffer s)\<lparr>stream_close_tks := []\<rparr>,
        num_reqs := num_reqs s - of_nat (length (stream_close_tks (us_buffer s)))\<rparr>,
      tks @ map fst (stream_close_tks (us_buffer s)))"
proof (induction s tks rule: us_drain_close_tks.induct)
  case (1 s tks)
  show ?case
  proof (cases "stream_close_tks (us_buffer s)")
    case Nil
    then show ?thesis
      by (subst us_drain_close_tks.simps) (simp add: us_next_stream_close_tk_def next_stream_close_tk_def)
  next
    case (Cons x xs)
    then have n: "us_next_stream_close_tk s =
        (s\<lparr>us_buffer := (us_buffer s)\<lparr>stream_close_tks := xs\<rparr>, num_reqs := num_reqs s - 1\<rparr>, Some (fst x))"
      by (simp add: us_next_stream_close_tk_def next_stream_close_tk_def split_beta)
    from "1.IH" [OF n [symmetric] refl] show ?thesis
      by (subst us_drain_close_tks.simps) (simp add: n Cons)
  qed
qed

definition queued_tks :: "unix_streams \<Rightarrow> token list" where
  "queued_tks ss = concat (map (\<lambda>s. map fst (stream_tks (us_buffer s))) ss)"

definition queued_close_tks :: "unix_streams \<Rightarrow> token list" where
  "queued_close_tks ss = concat (map (\<lambda>s. map fst (stream_close_tks (us_buffer s))) ss)"

lemma next_stream_tks_snd: "snd (next_stream_tks ss) = queued_tks ss"
proof -
  have "snd (next_stream_tks_loop ss tks) = tks @ queued_tks ss" for tks
    by (induction ss arbitrary: tks) (simp_all add: us_drain_tks_eq split_beta Let_def queued_tks_def)
  then show ?thesis by (simp add: next_stream_tks_def)
qed

lemma next_stream_close_tks_snd: "snd (next_stream_close_tks ss) = queued_close_tks ss"
proof -
  have "snd (next_stream_close_tks_loop ss tks) = tks @ queued_close_tks ss" for tks
    by (induction ss arbitrary: tks)
      (simp_all add: us_drain_close_tks_eq split_beta Let_def queued_close_tks_def)
  then show ?thesis by (simp add: next_stream_close_tks_def)
qed

lemma next_stream_tks_fst:
  "map us_token (fst (next_stream_tks ss)) = map us_token ss"
  "queued_tks (fst (next_stream_tks ss)) = []"
  "queued_close_tks (fst (next_stream_tks ss)) = queued_close_tks ss"
proof -
  have "map us_token (fst (next_stream_tks_loop ss tks)) = map us_token ss \<and>
      queued_tks (fst (next_stream_tks_loop ss tks)) = [] \<and>
      queued_close_tks (fst (next_stream_tks_loop ss tks)) = queued_close_tks ss" for tks
    by (induction ss arbitrary: tks)
      (simp_all add: us_drain_tks_eq split_beta Let_def queued_tks_def queued_close_tks_def)
  then show "map us_token (fst (next_stream_tks ss)) = map us_token ss"
    "queued_tks (fst (next_stream_tks ss)) = []"
    "queued_close_tks (fst (next_stream_tks ss)) = queued_close_tks ss"
    by (simp_all add: next_stream_tks_def)
qed

lemma next_stream_close_tks_fst:
  "map us_token (fst (next_stream_close_tks ss)) = map us_token ss"
  "queued_tks (fst (next_stream_close_tks ss)) = queued_tks ss"
  "queued_close_tks (fst (next_stream_close_tks ss)) = []"
proof -
  have "map us_token (fst (next_stream_close_tks_loop ss tks)) = map us_token ss \<and>
      queued_tks (fst (next_stream_close_tks_loop ss tks)) = queued_tks ss \<and>
      queued_close_tks (fst (next_stream_close_tks_loop ss tks)) = []" for tks
    by (induction ss arbitrary: tks)
      (simp_all add: us_drain_close_tks_eq split_beta Let_def queued_tks_def queued_close_tks_def)
  then show "map us_token (fst (next_stream_close_tks ss)) = map us_token ss"
    "queued_tks (fst (next_stream_close_tks ss)) = queued_tks ss"
    "queued_close_tks (fst (next_stream_close_tks ss)) = []"
    by (simp_all add: next_stream_close_tks_def)
qed

text \<open>The search for the least loaded stream: index, best count so far, next index.\<close>

fun least_loaded_loop :: "unix_streams \<Rightarrow> nat \<Rightarrow> nat \<Rightarrow> usize \<Rightarrow> nat" where
  "least_loaded_loop [] n ind best = ind"
| "least_loaded_loop (s # ss) n ind best =
     (if num_reqs s < best then least_loaded_loop ss (Suc n) n (num_reqs s)
      else least_loaded_loop ss (Suc n) ind best)"

definition least_loaded :: "unix_streams \<Rightarrow> nat" where
  "least_loaded ss = least_loaded_loop ss 0 0 (- 1)"

text \<open>\<open>streams.get_mut(ind).unwrap()\<close> panics when there is no stream at all.\<close>

definition msg_send_tcp_stream :: "token \<Rightarrow> raw_fd \<Rightarrow> unix_streams \<Rightarrow> unix_streams exec" where
  "msg_send_tcp_stream tk fd ss =
     (let ind = least_loaded ss
      in if ind < length ss then Ret (ss[ind := us_msg_send_tcp_stream tk fd (ss ! ind)])
         else Panic ''called Option::unwrap() on a None value'')"

fun us_reregister_all ::
  "(reg_call \<Rightarrow> io_error option) \<Rightarrow> unix_streams \<Rightarrow> unix_streams \<times> io_error list" where
  "us_reregister_all reg [] = ([], [])"
| "us_reregister_all reg (s # ss) =
     (let (s', r) = us_reregister reg s; (ss', es) = us_reregister_all reg ss
      in (s' # ss', (case r of Err e \<Rightarrow> e # es | Ok _ \<Rightarrow> es)))"

section \<open>The registration matches the interest\<close>

text \<open>
  What the registry holds for one source, and which calls it accepts: a source is
  registered once, and only a registered one is changed or removed.
\<close>

definition interest_reg :: "stream_interest \<Rightarrow> mio_interest option" where
  "interest_reg i = (case i of INot \<Rightarrow> None | IRead \<Rightarrow> Some Readable | IWrite \<Rightarrow> Some Writable
     | IReadWrite \<Rightarrow> Some ReadableWritable)"

fun apply_reg_call :: "reg_call \<Rightarrow> mio_interest option \<Rightarrow> mio_interest option option" where
  "apply_reg_call (Register tk i) r = (if r = None then Some (Some i) else None)"
| "apply_reg_call (Reregister tk i) r = (if r = None then None else Some (Some i))"
| "apply_reg_call (Deregister tk) r = (if r = None then None else Some None)"

definition apply_reg :: "reg_call option \<Rightarrow> mio_interest option \<Rightarrow> mio_interest option option" where
  "apply_reg c r = (case c of None \<Rightarrow> Some r | Some k \<Rightarrow> apply_reg_call k r)"

text \<open>From a state in which the registry holds what the stream remembers, the call
  \<open>reregister\<close> makes is one the registry accepts, and after it the registration is exactly
  readable when the worker holds requests and writable when there is data to send; when
  the registration is already right no call is made, and a refused call changes nothing.\<close>

theorem reregister_matches_registry:
  "apply_reg (reregister_call s) (interest_reg (us_interest s)) =
      Some (interest_reg (from_rw (us_poll_read s) (us_poll_write s))) \<and>
   (reregister_call s = None \<longleftrightarrow> us_interest s = from_rw (us_poll_read s) (us_poll_write s)) \<and>
   us_reregister (\<lambda>_. None) s = (s\<lparr>us_interest := from_rw (us_poll_read s) (us_poll_write s)\<rparr>, Ok ()) \<and>
   (reregister_call s \<noteq> None \<longrightarrow> us_reregister (\<lambda>_. Some e) s = (s, Err e))"
  by (cases "us_interest s"; cases "us_poll_read s"; cases "us_poll_write s")
    (simp_all add: reregister_call_def Let_def from_rw_def interest_reg_def apply_reg_def us_reregister_def)

theorem reregister_matches_registry_witness:
  "us_reregister (\<lambda>_. Some (IoError OtherKind ''e''))
     (us_msg_send_tcp_stream (Token 16777216) 9 (unix_stream_new (Token 1))) =
     (us_msg_send_tcp_stream (Token 16777216) 9 (unix_stream_new (Token 1)),
      Err (IoError OtherKind ''e''))"
proof -
  let ?s = "us_msg_send_tcp_stream (Token 16777216) 9 (unix_stream_new (Token 1))"
  have "reregister_call ?s \<noteq> None"
    by (simp add: reregister_call_def Let_def us_poll_read_def us_poll_write_def
        us_msg_send_tcp_stream_def unix_stream_new_def sb_has_data_to_send_def req_tcp_stream_fd_def)
  then show ?thesis
    using reregister_matches_registry [of ?s "IoError OtherKind ''e''"] by blast
qed

section \<open>Balancing\<close>

lemma least_loaded_loop_spec:
  "least_loaded_loop ss n ind best = ind \<and> (\<forall>s \<in> set ss. best \<le> num_reqs s) \<or>
   (\<exists>k < length ss. least_loaded_loop ss n ind best = n + k \<and> num_reqs (ss ! k) < best \<and>
      (\<forall>j < length ss. num_reqs (ss ! k) \<le> num_reqs (ss ! j)) \<and>
      (\<forall>j < k. num_reqs (ss ! k) < num_reqs (ss ! j)))"
proof (induction ss n ind best rule: least_loaded_loop.induct)
  case (1 n ind best)
  then show ?case by simp
next
  case (2 s ss n ind best)
  show ?case
  proof (cases "num_reqs s < best")
    case True
    from "2.IH"(1) [OF True] show ?thesis
    proof (elim disjE exE conjE)
      assume h: "least_loaded_loop ss (Suc n) n (num_reqs s) = n" "\<forall>x \<in> set ss. num_reqs s \<le> num_reqs x"
      then have "\<forall>j < length (s # ss). num_reqs s \<le> num_reqs ((s # ss) ! j)"
        by (auto simp: nth_Cons split: nat.splits)
      with h True show ?thesis by (intro disjI2 exI [of _ 0]) simp
    next
      fix k assume k: "k < length ss" "least_loaded_loop ss (Suc n) n (num_reqs s) = Suc n + k"
        "num_reqs (ss ! k) < num_reqs s" "\<forall>j < length ss. num_reqs (ss ! k) \<le> num_reqs (ss ! j)"
        "\<forall>j < k. num_reqs (ss ! k) < num_reqs (ss ! j)"
      then have "\<forall>j < length (s # ss). num_reqs (ss ! k) \<le> num_reqs ((s # ss) ! j)"
        and "\<forall>j < Suc k. num_reqs (ss ! k) < num_reqs ((s # ss) ! j)"
        by (auto simp: nth_Cons split: nat.splits)
      with k True show ?thesis by (intro disjI2 exI [of _ "Suc k"]) auto
    qed
  next
    case False
    from "2.IH"(2) [OF False] show ?thesis
    proof (elim disjE exE conjE)
      assume "least_loaded_loop ss (Suc n) ind best = ind" "\<forall>x \<in> set ss. best \<le> num_reqs x"
      with False show ?thesis by auto
    next
      fix k assume k: "k < length ss" "least_loaded_loop ss (Suc n) ind best = Suc n + k"
        "num_reqs (ss ! k) < best" "\<forall>j < length ss. num_reqs (ss ! k) \<le> num_reqs (ss ! j)"
        "\<forall>j < k. num_reqs (ss ! k) < num_reqs (ss ! j)"
      with False have "num_reqs (ss ! k) < num_reqs s" by simp
      with k have "\<forall>j < length (s # ss). num_reqs (ss ! k) \<le> num_reqs ((s # ss) ! j)"
        and "\<forall>j < Suc k. num_reqs (ss ! k) < num_reqs ((s # ss) ! j)"
        by (auto simp: nth_Cons split: nat.splits)
      with k False show ?thesis by (intro disjI2 exI [of _ "Suc k"]) auto
    qed
  qed
qed

lemma least_loaded_min:
  assumes "ss \<noteq> []"
  shows "least_loaded ss < length ss"
    and "\<forall>j < length ss. num_reqs (ss ! least_loaded ss) \<le> num_reqs (ss ! j)"
    and "\<forall>j < least_loaded ss. num_reqs (ss ! least_loaded ss) < num_reqs (ss ! j)"
proof -
  have top: "w \<le> (- 1 :: usize)" for w by simp
  from least_loaded_loop_spec [of ss 0 0 "- 1"]
  have "least_loaded ss < length ss \<and>
      (\<forall>j < length ss. num_reqs (ss ! least_loaded ss) \<le> num_reqs (ss ! j)) \<and>
      (\<forall>j < least_loaded ss. num_reqs (ss ! least_loaded ss) < num_reqs (ss ! j))"
  proof (elim disjE exE conjE)
    assume "least_loaded_loop ss 0 0 (- 1) = 0" and all: "\<forall>s \<in> set ss. - 1 \<le> num_reqs s"
    moreover from all have "\<forall>s \<in> set ss. num_reqs s = - 1" using top antisym by blast
    ultimately show ?thesis using assms by (simp add: least_loaded_def)
  qed (auto simp: least_loaded_def)
  then show "least_loaded ss < length ss"
    and "\<forall>j < length ss. num_reqs (ss ! least_loaded ss) \<le> num_reqs (ss ! j)"
    and "\<forall>j < least_loaded ss. num_reqs (ss ! least_loaded ss) < num_reqs (ss ! j)"
    by blast+
qed

lemma msg_send_Ret:
  "ss \<noteq> [] \<Longrightarrow> msg_send_tcp_stream tk fd ss =
     Ret (ss[least_loaded ss := us_msg_send_tcp_stream tk fd (ss ! least_loaded ss)])"
  by (simp add: msg_send_tcp_stream_def Let_def least_loaded_min(1))

text \<open>A connection goes to the first worker among those with the fewest requests, and
  to that worker only; with no worker at all the call panics.\<close>

theorem msg_send_balances:
  "(\<exists>ind < length ss.
      msg_send_tcp_stream tk fd ss = Ret (ss[ind := us_msg_send_tcp_stream tk fd (ss ! ind)]) \<and>
      (\<forall>j < length ss. num_reqs (ss ! ind) \<le> num_reqs (ss ! j)) \<and>
      (\<forall>j < ind. num_reqs (ss ! ind) < num_reqs (ss ! j)))
   \<or> ss = [] \<and> \<not> no_panic (msg_send_tcp_stream tk fd ss)"
proof (cases "ss = []")
  case True
  then show ?thesis by (simp add: msg_send_tcp_stream_def Let_def)
next
  case False
  with msg_send_Ret [OF False] least_loaded_min [OF False] show ?thesis by blast
qed

theorem msg_send_balances_witness:
  "\<exists>a b. a = us_msg_send_tcp_stream (Token 7) 3 (unix_stream_new (Token 1)) \<and> b = unix_stream_new (Token 2) \<and>
     msg_send_tcp_stream (Token 8) 4 [a, b] = Ret [a, us_msg_send_tcp_stream (Token 8) 4 b]"
proof -
  let ?a = "us_msg_send_tcp_stream (Token 7) 3 (unix_stream_new (Token 1))"
  let ?b = "unix_stream_new (Token 2)"
  have n: "num_reqs ?a = 1" "num_reqs ?b = 0"
    by (simp_all add: us_msg_send_tcp_stream_def unix_stream_new_def)
  obtain i where i: "i < length [?a, ?b]"
    "msg_send_tcp_stream (Token 8) 4 [?a, ?b] =
       Ret ([?a, ?b][i := us_msg_send_tcp_stream (Token 8) 4 ([?a, ?b] ! i)])"
    "\<forall>j < length [?a, ?b]. num_reqs ([?a, ?b] ! i) \<le> num_reqs ([?a, ?b] ! j)"
    using msg_send_balances [of "[?a, ?b]" "Token 8" 4] by blast
  have "i \<noteq> 0" using i(3) [rule_format, of 1] n by (intro notI) simp
  with i(1) have "i = 1" by simp
  with i(2) show ?thesis by simp
qed

end
