(* ===== verification/Errors.thy ===== *)
theory Errors
  imports RustStd
begin

text \<open>\<open>src/errors.rs\<close>: the errors that end a process of the program, and their text.\<close>

datatype runtime_error =
    RtIo string io_error
  | PythonThreadsDied
  | ForkFailed
  | UnknownToken

type_synonym runtime_result = "(runtime_error, unit) result"

definition rt_reason :: "runtime_error \<Rightarrow> string" where
  "rt_reason e =
     (case e of
        RtIo reason err \<Rightarrow> reason @ '' - '' @ io_text err
      | PythonThreadsDied \<Rightarrow> ''python worker threads stopped''
      | ForkFailed \<Rightarrow> ''fork failed''
      | UnknownToken \<Rightarrow> ''unknown token'')"

definition fatal_io_error :: "string \<Rightarrow> io_error \<Rightarrow> runtime_error" where
  "fatal_io_error reason err = RtIo reason err"

text \<open>
  A turn of a main loop: it goes on with a new state, or leaves the loop with a result.
\<close>

datatype 's turn = Next 's | Leave 's runtime_result

fun turn_state :: "'s turn \<Rightarrow> 's" where
  "turn_state (Next s) = s"
| "turn_state (Leave s r) = s"

text \<open>Sequencing two parts of a turn; leaving skips the rest.\<close>

fun turn_bind :: "'s turn exec \<Rightarrow> ('s \<Rightarrow> 's turn exec) \<Rightarrow> 's turn exec" where
  "turn_bind (Panic m) f = Panic m"
| "turn_bind (Ret (Leave s r)) f = Ret (Leave s r)"
| "turn_bind (Ret (Next s)) f = f s"

lemma turn_bind_Ret:
  "turn_bind m f = Ret t \<longleftrightarrow>
     (\<exists>s r. m = Ret (Leave s r) \<and> t = Leave s r) \<or> (\<exists>s. m = Ret (Next s) \<and> f s = Ret t)"
  by (induction m f rule: turn_bind.induct) auto

lemma no_panic_turn_bind:
  "no_panic m \<Longrightarrow> (\<And>s. m = Ret (Next s) \<Longrightarrow> no_panic (f s)) \<Longrightarrow> no_panic (turn_bind m f)"
  by (induction m f rule: turn_bind.induct) auto

text \<open>A \<open>for\<close> loop whose body may leave the function.\<close>

fun turn_fold :: "('x \<Rightarrow> 's \<Rightarrow> 's turn exec) \<Rightarrow> 'x list \<Rightarrow> 's \<Rightarrow> 's turn exec" where
  "turn_fold f [] s = Ret (Next s)"
| "turn_fold f (x # xs) s = turn_bind (f x s) (turn_fold f xs)"

lemma turn_fold_inv:
  assumes "\<And>x s t. x \<in> set xs \<Longrightarrow> f x s = Ret t \<Longrightarrow> P s \<Longrightarrow> P (turn_state t)"
    and "turn_fold f xs s = Ret t" and "P s"
  shows "P (turn_state t)"
  using assms
proof (induction xs arbitrary: s)
  case Nil
  then show ?case by auto
next
  case (Cons x xs)
  from Cons.prems(2) consider (leave) u r where "f x s = Ret (Leave u r)" "t = Leave u r"
    | (more) u where "f x s = Ret (Next u)" "turn_fold f xs u = Ret t"
    by (auto simp: turn_bind_Ret)
  then show ?case
  proof cases
    case leave
    then show ?thesis using Cons.prems(1) [of x s t] Cons.prems(3) by simp
  next
    case more
    then have "P u" using Cons.prems(1) [of x s "Next u"] Cons.prems(3) by simp
    moreover have "\<And>y s t. y \<in> set xs \<Longrightarrow> f y s = Ret t \<Longrightarrow> P s \<Longrightarrow> P (turn_state t)"
      by (rule Cons.prems(1)) simp_all
    ultimately show ?thesis using Cons.IH more(2) by blast
  qed
qed

end
