(* ===== verification/Server.thy ===== *)
theory Server
  imports Config Errors UnixStreams
begin

text \<open>
  \<open>src/server/mod.rs\<close>: the server process. It accepts connections, polls idle ones, hands
  a readable one to the least loaded worker, and takes it back or closes it when the
  worker answers. One turn of the \<open>loop\<close> is \<open>server_turn\<close>; what the system calls of
  that turn return is its input.
\<close>

section \<open>Tokens\<close>

definition NEW_STREAM_COUNT_INC :: usize where
  "NEW_STREAM_COUNT_INC = push_bit 24 1"

definition KEEP_ALIVE_COUNT_INC :: usize where
  "KEEP_ALIVE_COUNT_INC = push_bit 7 1"

definition SERVER_TOKEN :: token where
  "SERVER_TOKEN = Token 0"

definition keep_alive_token :: "token \<Rightarrow> token" where
  "keep_alive_token tk = Token (tok tk + KEEP_ALIVE_COUNT_INC)"

text \<open>\<open>(NEW_STREAM_COUNT_INC..).step_by(NEW_STREAM_COUNT_INC)\<close>: the next value, and the rest.\<close>

definition count_start :: usize where
  "count_start = NEW_STREAM_COUNT_INC"

definition count_next :: "usize \<Rightarrow> usize \<times> usize" where
  "count_next c = (c, c + NEW_STREAM_COUNT_INC)"

section \<open>State and inputs\<close>

text \<open>
  A TCP stream is its descriptor. \<open>sv_calls\<close> records the calls made on streams and the
  listener, the drops (which close the descriptor) and the two lines the loop logs: the warning
  about the limit and the start of the shutdown.
\<close>

datatype tcp_call =
    TcpRegister token raw_fd
  | TcpDeregister raw_fd
  | TcpShutdown raw_fd
  | TcpDrop raw_fd
  | ListenerDeregister
  | WarnMaxConns
  | LogShuttingDown

record server =
  sv_unix :: unix_streams
  sv_count :: usize
  sv_reading :: "(token, raw_fd) hashmap"
  sv_processing :: "(token, raw_fd) hashmap"
  sv_run_shutdown :: bool
  sv_ctrlc_instant :: "systime option"
  sv_errors :: "io_error list"
  sv_calls :: "tcp_call list"

text \<open>
  One event of \<open>poll\<close>, with what \<open>accept\<close>, or the reads and writes of a Unix stream,
  return when it is handled.
\<close>

record srv_event =
  se_token :: token
  se_readable :: bool
  se_writable :: bool
  se_accept :: "(io_error, raw_fd) result"
  se_read :: "(io_error, bytes) result"
  se_cap :: nat
  se_write :: "(io_error, nat) result"

record srv_input =
  si_now :: systime
  si_close_now :: bool
  si_reg :: "reg_call \<Rightarrow> io_error option"
  si_tcp :: "tcp_call \<Rightarrow> io_error option"
  si_poll :: "io_error option"
  si_running :: bool
  si_shutdown_now :: systime
  si_events :: "srv_event list"

definition server_new :: "unix_streams \<Rightarrow> server" where
  "server_new ss =
     \<lparr>sv_unix = ss, sv_count = count_start, sv_reading = [], sv_processing = [],
      sv_run_shutdown = False, sv_ctrlc_instant = None, sv_errors = [], sv_calls = []\<rparr>"

text \<open>The workers' streams get the tokens 1, 2, ... in order.\<close>

fun number_streams :: "usize \<Rightarrow> nat \<Rightarrow> unix_streams" where
  "number_streams tk_num 0 = []"
| "number_streams tk_num (Suc n) = unix_stream_new (Token tk_num) # number_streams (tk_num + 1) n"

definition server_start :: "nat \<Rightarrow> server" where
  "server_start workers = server_new (number_streams 1 workers)"

section \<open>Operations\<close>

definition sv_call :: "tcp_call \<Rightarrow> server \<Rightarrow> server" where
  "sv_call c s = s\<lparr>sv_calls := sv_calls s @ [c]\<rparr>"

definition sv_error :: "io_error \<Rightarrow> server \<Rightarrow> server" where
  "sv_error e s = s\<lparr>sv_errors := sv_errors s @ [e]\<rparr>"

text \<open>A call whose failure is pushed on \<open>errors\<close>, after which the stream goes out of scope.\<close>

definition shutdown_and_drop :: "srv_input \<Rightarrow> raw_fd \<Rightarrow> server \<Rightarrow> server" where
  "shutdown_and_drop i fd s =
     (let s = sv_call (TcpShutdown fd) s;
          s = (case si_tcp i (TcpShutdown fd) of Some e \<Rightarrow> sv_error e s | None \<Rightarrow> s)
      in sv_call (TcpDrop fd) s)"

text \<open>\<open>HashMap::insert\<close> drops the stream it displaces.\<close>

definition insert_reading :: "token \<Rightarrow> raw_fd \<Rightarrow> server \<Rightarrow> server" where
  "insert_reading tk fd s =
     (let s = (case hm_get (sv_reading s) tk of Some old \<Rightarrow> sv_call (TcpDrop old) s | None \<Rightarrow> s)
      in s\<lparr>sv_reading := hm_insert tk fd (sv_reading s)\<rparr>)"

definition insert_processing :: "token \<Rightarrow> raw_fd \<Rightarrow> server \<Rightarrow> server" where
  "insert_processing tk fd s =
     (let s = (case hm_get (sv_processing s) tk of Some old \<Rightarrow> sv_call (TcpDrop old) s | None \<Rightarrow> s)
      in s\<lparr>sv_processing := hm_insert tk fd (sv_processing s)\<rparr>)"

definition expect_processing :: string where
  "expect_processing = ''couldn't find processing tream''"

text \<open>The body of the loop over answered streams that stay open.\<close>

definition kept_stream :: "srv_input \<Rightarrow> token \<Rightarrow> server \<Rightarrow> server turn exec" where
  "kept_stream i tk s =
     (case hm_get (sv_processing s) tk of
        None \<Rightarrow> Panic expect_processing
      | Some fd \<Rightarrow>
          (let s = s\<lparr>sv_processing := hm_delete tk (sv_processing s)\<rparr>;
               new_tk = keep_alive_token tk
           in if sv_run_shutdown s then Ret (Next (shutdown_and_drop i fd s))
              else
                (let s = sv_call (TcpRegister new_tk fd) s
                 in case si_tcp i (TcpRegister new_tk fd) of
                      Some e \<Rightarrow> Ret (Next (sv_call (TcpDrop fd) (sv_error e s)))
                    | None \<Rightarrow> Ret (Next (insert_reading new_tk fd s)))))"

text \<open>The body of the loop over answered streams that are closed.\<close>

definition closed_stream :: "srv_input \<Rightarrow> token \<Rightarrow> server \<Rightarrow> server turn exec" where
  "closed_stream i tk s =
     (case hm_get (sv_processing s) tk of
        None \<Rightarrow> Panic expect_processing
      | Some fd \<Rightarrow>
          Ret (Next (shutdown_and_drop i fd (s\<lparr>sv_processing := hm_delete tk (sv_processing s)\<rparr>))))"

text \<open>\<open>fn shutdown\<close>: deregister the listener, deregister and shut down every idle stream.\<close>

definition shutdown_idle :: "srv_input \<Rightarrow> token \<times> raw_fd \<Rightarrow> server \<Rightarrow> server" where
  "shutdown_idle i x s =
     (let fd = snd x;
          s = sv_call (TcpDeregister fd) s
      in case si_tcp i (TcpDeregister fd) of
           Some e \<Rightarrow> sv_call (TcpDrop fd) (sv_error e s)
         | None \<Rightarrow> shutdown_and_drop i fd s)"

definition shutdown :: "srv_input \<Rightarrow> server \<Rightarrow> server" where
  "shutdown i s =
     (let s = sv_call ListenerDeregister (sv_call LogShuttingDown s);
          s = (case si_tcp i ListenerDeregister of Some e \<Rightarrow> sv_error e s | None \<Rightarrow> s)
      in fold (shutdown_idle i) (sv_reading s) (s\<lparr>sv_reading := []\<rparr>))"

text \<open>A new connection, when \<open>accept\<close> gave one.\<close>

definition accept_stream :: "config \<Rightarrow> srv_input \<Rightarrow> raw_fd \<Rightarrow> server \<Rightarrow> server" where
  "accept_stream cfg i fd s =
     (let (n, rest) = count_next (sv_count s);
          tk = Token n;
          s = s\<lparr>sv_count := rest\<rparr>
      in if max_conns cfg \<le> length (sv_reading s) + length (sv_processing s)
         then sv_call (TcpDrop fd) (sv_call WarnMaxConns s)
         else
           (let s = sv_call (TcpRegister tk fd) s
            in case si_tcp i (TcpRegister tk fd) of
                 Some e \<Rightarrow> sv_call (TcpDrop fd) (sv_error e s)
               | None \<Rightarrow> insert_reading tk fd s))"

text \<open>An idle stream that became readable.\<close>

definition start_processing :: "srv_input \<Rightarrow> token \<Rightarrow> raw_fd \<Rightarrow> server \<Rightarrow> server turn exec" where
  "start_processing i tk fd s =
     (let s = sv_call (TcpDeregister fd) (s\<lparr>sv_reading := hm_delete tk (sv_reading s)\<rparr>)
      in case si_tcp i (TcpDeregister fd) of
           Some e \<Rightarrow> Ret (Next (sv_call (TcpDrop fd) (sv_error e s)))
         | None \<Rightarrow>
             exec_bind (msg_send_tcp_stream tk fd (sv_unix s))
               (\<lambda>ss. Ret (Next (insert_processing tk fd (s\<lparr>sv_unix := ss\<rparr>)))))"

text \<open>A worker's socket that is readable or writable.\<close>

definition push_result :: "(io_error, unit) result \<Rightarrow> server \<Rightarrow> server" where
  "push_result r s = (case r of Err e \<Rightarrow> sv_error e s | Ok _ \<Rightarrow> s)"

definition unix_event :: "codec \<Rightarrow> srv_event \<Rightarrow> nat \<Rightarrow> server \<Rightarrow> server turn exec" where
  "unix_event cd ev k s =
     exec_bind
       (if se_readable ev then us_read_stream cd (se_read ev) (sv_unix s ! k)
        else Ret (sv_unix s ! k, Ok ()))
       (\<lambda>(u, r).
          let s = push_result r (s\<lparr>sv_unix := (sv_unix s)[k := u]\<rparr>)
          in exec_bind
               (if se_writable ev then us_write_stream cd (se_cap ev) (se_write ev) u else Ret (u, Ok ()))
               (\<lambda>(u, r). Ret (Next (push_result r (s\<lparr>sv_unix := (sv_unix s)[k := u]\<rparr>)))))"

definition handle_event :: "codec \<Rightarrow> config \<Rightarrow> srv_input \<Rightarrow> srv_event \<Rightarrow> server \<Rightarrow> server turn exec" where
  "handle_event cd cfg i ev s =
     (if se_token ev = SERVER_TOKEN then
        (case se_accept ev of
           Ok fd \<Rightarrow> Ret (Next (accept_stream cfg i fd s))
         | Err _ \<Rightarrow> Ret (Next s))
      else
        (case hm_get (sv_reading s) (se_token ev) of
           Some fd \<Rightarrow> start_processing i (se_token ev) fd s
         | None \<Rightarrow>
             (case us_find (se_token ev) (sv_unix s) of
                Some k \<Rightarrow> unix_event cd ev k s
              | None \<Rightarrow> Ret (Leave s (Err UnknownToken)))))"

section \<open>One turn of the loop\<close>

text \<open>The reasons to leave before any work is done.\<close>

definition check_exit :: "config \<Rightarrow> srv_input \<Rightarrow> server \<Rightarrow> server turn exec" where
  "check_exit cfg i s =
     (if sv_run_shutdown s \<and> sv_processing s = [] then Ret (Leave s (Ok ()))
      else
        (case sv_ctrlc_instant s of
           Some t0 \<Rightarrow>
             if si_now i < t0 then Ret (Leave s (Ok ()))
             else if ctrlc_wait_time cfg \<le> si_now i - t0 then
               Ret (Leave
                 (s\<lparr>sv_processing := [],
                    sv_calls := sv_calls s
                      @ concat (map (\<lambda>x. [TcpShutdown (snd x), TcpDrop (snd x)]) (sv_processing s))\<rparr>)
                 (Ok ()))
             else if si_close_now i then Ret (Leave s (Ok ())) else Ret (Next s)
         | None \<Rightarrow> if si_close_now i then Ret (Leave s (Ok ())) else Ret (Next s)))"

text \<open>Registrations and the streams that stay open, then the streams that are closed.\<close>

definition keep_answers :: "srv_input \<Rightarrow> server \<Rightarrow> server turn exec" where
  "keep_answers i s =
     (let (ss, es) = us_reregister_all (si_reg i) (sv_unix s);
          (ss, tks) = next_stream_tks ss
      in turn_fold (kept_stream i) tks (s\<lparr>sv_unix := ss, sv_errors := sv_errors s @ es\<rparr>))"

definition close_answers :: "srv_input \<Rightarrow> server \<Rightarrow> server turn exec" where
  "close_answers i s =
     (let (ss, tks) = next_stream_close_tks (sv_unix s)
      in turn_fold (closed_stream i) tks (s\<lparr>sv_unix := ss\<rparr>))"

definition take_answers :: "srv_input \<Rightarrow> server \<Rightarrow> server turn exec" where
  "take_answers i s = turn_bind (keep_answers i s) (close_answers i)"

definition maybe_shutdown :: "srv_input \<Rightarrow> server \<Rightarrow> server" where
  "maybe_shutdown i s =
     (if (si_poll i \<noteq> None \<or> \<not> si_running i) \<and> \<not> sv_run_shutdown s
      then (shutdown i s)\<lparr>sv_ctrlc_instant := Some (si_shutdown_now i), sv_run_shutdown := True\<rparr>
      else s)"

definition drain_errors :: "server \<Rightarrow> server" where
  "drain_errors s = s\<lparr>sv_errors := []\<rparr>"

definition handle_events :: "codec \<Rightarrow> config \<Rightarrow> srv_input \<Rightarrow> server \<Rightarrow> server turn exec" where
  "handle_events cd cfg i s =
     turn_bind (turn_fold (handle_event cd cfg i) (si_events i) s) (\<lambda>s. Ret (Next (drain_errors s)))"

definition server_turn :: "codec \<Rightarrow> config \<Rightarrow> srv_input \<Rightarrow> server \<Rightarrow> server turn exec" where
  "server_turn cd cfg i s =
     turn_bind (check_exit cfg i s) (\<lambda>s.
     turn_bind (take_answers i s) (\<lambda>s.
     handle_events cd cfg i (maybe_shutdown i s)))"

text \<open>The poll timeout of a turn: a tenth of a second once shutting down, else none.\<close>

definition poll_timeout :: "server \<Rightarrow> duration option" where
  "poll_timeout s = (if sv_run_shutdown s then Some (from_millis 100) else None)"

end
