(* ===== verification/ServerProps.thy ===== *)
theory ServerProps
  imports Server Codec
begin

text \<open>
  Properties of the server of \<open>Server\<close>: the bound on connections, the ownership of the
  accepted descriptors, the \<open>expect\<close> on the processing table, and shutdown.
\<close>

section \<open>What the small operations change\<close>

lemma sv_call_simps [simp]:
  "sv_reading (sv_call c s) = sv_reading s" "sv_processing (sv_call c s) = sv_processing s"
  "sv_unix (sv_call c s) = sv_unix s" "sv_run_shutdown (sv_call c s) = sv_run_shutdown s"
  "sv_ctrlc_instant (sv_call c s) = sv_ctrlc_instant s" "sv_calls (sv_call c s) = sv_calls s @ [c]"
  "sv_count (sv_call c s) = sv_count s"
  by (simp_all add: sv_call_def)

lemma sv_error_simps [simp]:
  "sv_reading (sv_error e s) = sv_reading s" "sv_processing (sv_error e s) = sv_processing s"
  "sv_unix (sv_error e s) = sv_unix s" "sv_run_shutdown (sv_error e s) = sv_run_shutdown s"
  "sv_ctrlc_instant (sv_error e s) = sv_ctrlc_instant s" "sv_calls (sv_error e s) = sv_calls s"
  "sv_count (sv_error e s) = sv_count s"
  by (simp_all add: sv_error_def)

lemma shutdown_and_drop_simps [simp]:
  "sv_reading (shutdown_and_drop i fd s) = sv_reading s"
  "sv_processing (shutdown_and_drop i fd s) = sv_processing s"
  "sv_unix (shutdown_and_drop i fd s) = sv_unix s"
  "sv_run_shutdown (shutdown_and_drop i fd s) = sv_run_shutdown s"
  "sv_calls (shutdown_and_drop i fd s) = sv_calls s @ [TcpShutdown fd, TcpDrop fd]"
  by (simp_all add: shutdown_and_drop_def Let_def split: option.splits)

lemma insert_reading_simps [simp]:
  "sv_reading (insert_reading tk fd s) = hm_insert tk fd (sv_reading s)"
  "sv_processing (insert_reading tk fd s) = sv_processing s"
  "sv_unix (insert_reading tk fd s) = sv_unix s"
  "sv_run_shutdown (insert_reading tk fd s) = sv_run_shutdown s"
  "sv_calls (insert_reading tk fd s) =
     sv_calls s @ (case hm_get (sv_reading s) tk of Some old \<Rightarrow> [TcpDrop old] | None \<Rightarrow> [])"
  by (simp_all add: insert_reading_def Let_def split: option.splits)

lemma insert_processing_simps [simp]:
  "sv_reading (insert_processing tk fd s) = sv_reading s"
  "sv_processing (insert_processing tk fd s) = hm_insert tk fd (sv_processing s)"
  "sv_unix (insert_processing tk fd s) = sv_unix s"
  "sv_run_shutdown (insert_processing tk fd s) = sv_run_shutdown s"
  "sv_calls (insert_processing tk fd s) =
     sv_calls s @ (case hm_get (sv_processing s) tk of Some old \<Rightarrow> [TcpDrop old] | None \<Rightarrow> [])"
  by (simp_all add: insert_processing_def Let_def split: option.splits)

lemma push_result_simps [simp]:
  "sv_reading (push_result r s) = sv_reading s" "sv_processing (push_result r s) = sv_processing s"
  "sv_calls (push_result r s) = sv_calls s" "sv_run_shutdown (push_result r s) = sv_run_shutdown s"
  "sv_unix (push_result r s) = sv_unix s"
  by (simp_all add: push_result_def split: result.splits)

lemma shutdown_idle_simps [simp]:
  "sv_reading (shutdown_idle i x s) = sv_reading s" "sv_processing (shutdown_idle i x s) = sv_processing s"
  "sv_unix (shutdown_idle i x s) = sv_unix s"
  by (simp_all add: shutdown_idle_def Let_def split: option.splits)

lemma fold_shutdown_idle_simps [simp]:
  "sv_reading (fold (shutdown_idle i) xs s) = sv_reading s"
  "sv_processing (fold (shutdown_idle i) xs s) = sv_processing s"
  "sv_unix (fold (shutdown_idle i) xs s) = sv_unix s"
  by (induction xs arbitrary: s) simp_all

lemma shutdown_simps [simp]:
  "sv_reading (shutdown i s) = []" "sv_processing (shutdown i s) = sv_processing s"
  "sv_unix (shutdown i s) = sv_unix s"
  by (simp_all add: shutdown_def Let_def split: option.splits)

lemma maybe_shutdown_simps [simp]:
  "sv_processing (maybe_shutdown i s) = sv_processing s" "sv_unix (maybe_shutdown i s) = sv_unix s"
  by (simp_all add: maybe_shutdown_def)

lemma drain_errors_simps [simp]:
  "sv_reading (drain_errors s) = sv_reading s" "sv_processing (drain_errors s) = sv_processing s"
  "sv_calls (drain_errors s) = sv_calls s" "sv_unix (drain_errors s) = sv_unix s"
  by (simp_all add: drain_errors_def)

lemmas server_ops = kept_stream_def closed_stream_def accept_stream_def start_processing_def
  unix_event_def handle_event_def count_next_def

section \<open>The bound on connections\<close>

definition server_inv :: "config \<Rightarrow> server \<Rightarrow> bool" where
  "server_inv cfg s \<longleftrightarrow> hm_wf (sv_reading s) \<and> hm_wf (sv_processing s) \<and>
     length (sv_reading s) + length (sv_processing s) \<le> max_conns cfg"

lemma server_inv_cong:
  "sv_reading s = sv_reading t \<Longrightarrow> sv_processing s = sv_processing t \<Longrightarrow> server_inv cfg s = server_inv cfg t"
  by (simp add: server_inv_def)

lemma server_inv_simps [simp]:
  "server_inv cfg (sv_call c s) = server_inv cfg s" "server_inv cfg (sv_error e s) = server_inv cfg s"
  "server_inv cfg (shutdown_and_drop i fd s) = server_inv cfg s"
  "server_inv cfg (push_result r s) = server_inv cfg s"
  "server_inv cfg (s\<lparr>sv_unix := ss\<rparr>) = server_inv cfg s"
  "server_inv cfg (s\<lparr>sv_unix := ss, sv_errors := es\<rparr>) = server_inv cfg s"
  "server_inv cfg (s\<lparr>sv_count := n\<rparr>) = server_inv cfg s"
  "server_inv cfg (drain_errors s) = server_inv cfg s"
  by (simp_all add: server_inv_def)

lemma server_inv_drop_processing:
  "server_inv cfg s \<Longrightarrow> hm_get (sv_processing s) tk = Some fd \<Longrightarrow>
   server_inv cfg (s\<lparr>sv_processing := hm_delete tk (sv_processing s)\<rparr>)"
  using hm.len_del_le [of "sv_processing s" tk fd] by (auto simp: server_inv_def)

lemma server_inv_drop_reading:
  "server_inv cfg s \<Longrightarrow> hm_get (sv_reading s) tk = Some fd \<Longrightarrow>
   server_inv cfg (s\<lparr>sv_reading := hm_delete tk (sv_reading s)\<rparr>)"
  using hm.len_del_le [of "sv_reading s" tk fd] by (auto simp: server_inv_def)

lemma kept_stream_inv:
  assumes "kept_stream i tk s = Ret t" and "server_inv cfg s"
  shows "server_inv cfg (turn_state t)"
proof -
  obtain fd where fd: "hm_get (sv_processing s) tk = Some fd"
    using assms(1) by (auto simp: kept_stream_def split: option.splits)
  have "length (hm_delete tk (sv_processing s)) + length (hm_insert (keep_alive_token tk) fd (sv_reading s))
      \<le> length (sv_processing s) + length (sv_reading s)"
    using assms(2) fd by (intro hm.move_len_le) (auto simp: server_inv_def)
  with assms fd server_inv_drop_processing [OF assms(2) fd] show ?thesis
    by (auto simp: kept_stream_def Let_def server_inv_def split: if_splits option.splits)
qed

lemma closed_stream_inv:
  "closed_stream i tk s = Ret t \<Longrightarrow> server_inv cfg s \<Longrightarrow> server_inv cfg (turn_state t)"
  using server_inv_drop_processing [of cfg s tk]
  by (auto simp: closed_stream_def split: option.splits)

lemma accept_stream_inv: "server_inv cfg s \<Longrightarrow> server_inv cfg (accept_stream cfg i fd s)"
  using hm.len_ins_le [of "sv_reading s" "Token (sv_count s)" fd]
  by (auto simp: accept_stream_def count_next_def Let_def server_inv_def split: option.splits)

lemma start_processing_inv:
  assumes "start_processing i tk fd s = Ret t" and "server_inv cfg s"
    and fd: "hm_get (sv_reading s) tk = Some fd"
  shows "server_inv cfg (turn_state t)"
proof -
  have "length (hm_delete tk (sv_reading s)) + length (hm_insert tk fd (sv_processing s))
      \<le> length (sv_reading s) + length (sv_processing s)"
    using assms(2) fd by (intro hm.move_len_le) (auto simp: server_inv_def)
  with assms server_inv_drop_reading [OF assms(2) fd] show ?thesis
    by (auto simp: start_processing_def Let_def server_inv_def split: option.splits)
qed

lemma unix_event_tables:
  "unix_event cd ev k s = Ret t \<Longrightarrow>
   sv_reading (turn_state t) = sv_reading s \<and> sv_processing (turn_state t) = sv_processing s \<and>
   sv_calls (turn_state t) = sv_calls s \<and> (\<exists>u. t = Next u)"
  by (auto simp: unix_event_def Let_def)

lemma handle_event_inv:
  assumes "handle_event cd cfg i ev s = Ret t" and "server_inv cfg s"
  shows "server_inv cfg (turn_state t)"
proof (cases "se_token ev = SERVER_TOKEN")
  case True
  with assms show ?thesis
    by (auto simp: handle_event_def accept_stream_inv split: result.splits)
next
  case False
  show ?thesis
  proof (cases "hm_get (sv_reading s) (se_token ev)")
    case None
    with assms False show ?thesis
      by (auto simp: handle_event_def split: option.splits
          dest!: unix_event_tables intro: server_inv_cong [THEN iffD1])
  next
    case (Some fd)
    with assms False show ?thesis
      by (auto simp: handle_event_def intro: start_processing_inv)
  qed
qed

lemma shutdown_inv: "server_inv cfg s \<Longrightarrow> server_inv cfg (maybe_shutdown i s)"
  by (auto simp: server_inv_def maybe_shutdown_def)

lemma keep_answers_inv:
  assumes "keep_answers i s = Ret t" and "server_inv cfg s"
  shows "server_inv cfg (turn_state t)"
  using assms unfolding keep_answers_def Let_def split_beta
  by (elim turn_fold_inv [where P = "server_inv cfg", rotated]) (auto intro: kept_stream_inv)

lemma close_answers_inv:
  assumes "close_answers i s = Ret t" and "server_inv cfg s"
  shows "server_inv cfg (turn_state t)"
  using assms unfolding close_answers_def Let_def split_beta
  by (elim turn_fold_inv [where P = "server_inv cfg", rotated]) (auto intro: closed_stream_inv)

lemma take_answers_inv:
  assumes "take_answers i s = Ret t" and "server_inv cfg s"
  shows "server_inv cfg (turn_state t)"
proof -
  from assms(1) consider "keep_answers i s = Ret t"
    | u where "keep_answers i s = Ret (Next u)" "close_answers i u = Ret t"
    by (auto simp: take_answers_def turn_bind_Ret)
  then show ?thesis
  proof cases
    case 1
    then show ?thesis using assms(2) by (rule keep_answers_inv)
  next
    case 2
    have "server_inv cfg u" using keep_answers_inv [OF 2(1) assms(2)] by simp
    with 2(2) show ?thesis by (rule close_answers_inv)
  qed
qed

lemma check_exit_state:
  "check_exit cfg i s = Ret (Next u) \<Longrightarrow> u = s"
  by (auto simp: check_exit_def Let_def split: if_splits option.splits)

lemma check_exit_inv:
  "check_exit cfg i s = Ret t \<Longrightarrow> server_inv cfg s \<Longrightarrow> server_inv cfg (turn_state t)"
  by (auto simp: check_exit_def Let_def server_inv_def split: if_splits option.splits)

lemma handle_events_inv:
  assumes "handle_events cd cfg i s = Ret t" and "server_inv cfg s"
  shows "server_inv cfg (turn_state t)"
proof -
  have "server_inv cfg (turn_state u)" if "turn_fold (handle_event cd cfg i) (si_events i) s = Ret u" for u
    using that assms(2)
    by (elim turn_fold_inv [where P = "server_inv cfg", rotated]) (auto intro: handle_event_inv)
  with assms(1) show ?thesis
    by (fastforce simp: handle_events_def turn_bind_Ret)
qed

lemma server_turn_inv:
  assumes "server_turn cd cfg i s = Ret t" and "server_inv cfg s"
  shows "server_inv cfg (turn_state t)"
proof -
  from assms(1) consider (exit) "check_exit cfg i s = Ret t"
    | (answers) "take_answers i s = Ret t"
    | (events) u where "take_answers i s = Ret (Next u)"
        "handle_events cd cfg i (maybe_shutdown i u) = Ret t"
    by (auto simp: server_turn_def turn_bind_Ret dest!: check_exit_state)
  then show ?thesis
  proof cases
    case exit
    with assms(2) show ?thesis by (blast intro: check_exit_inv)
  next
    case answers
    with assms(2) show ?thesis by (blast intro: take_answers_inv)
  next
    case events
    with take_answers_inv [OF events(1) assms(2)] show ?thesis
      by (auto intro: handle_events_inv shutdown_inv)
  qed
qed

definition server_step :: "codec \<Rightarrow> config \<Rightarrow> srv_input \<Rightarrow> server \<Rightarrow> server \<Rightarrow> bool" where
  "server_step cd cfg i s t \<longleftrightarrow> server_turn cd cfg i s = Ret (Next t)"

interpretation srv: step_invariant "server_step cd cfg" "server_inv cfg" for cd cfg
proof unfold_locales
  fix x s t
  assume "server_step cd cfg x s t" and "server_inv cfg s"
  then show "server_inv cfg t"
    using server_turn_inv [of cd cfg x s "Next t"] by (simp add: server_step_def)
qed

lemma server_inv_start [simp]: "server_inv cfg (server_start n)"
  by (simp add: server_inv_def server_start_def server_new_def)

text \<open>A small run for the examples: a server whose limit is 0 accepts one connection.\<close>

definition full_config :: config where
  "full_config = (default_config (Ok ''box''))\<lparr>max_conns := 0\<rparr>"

definition quiet_input :: "srv_event list \<Rightarrow> srv_input" where
  "quiet_input evs =
     \<lparr>si_now = 0, si_close_now = False, si_reg = (\<lambda>_. None), si_tcp = (\<lambda>_. None), si_poll = None,
      si_running = True, si_shutdown_now = 0, si_events = evs\<rparr>"

definition accept_event :: "raw_fd \<Rightarrow> srv_event" where
  "accept_event fd = \<lparr>se_token = Token 0, se_readable = True, se_writable = False, se_accept = Ok fd,
     se_read = Ok [], se_cap = 0, se_write = Ok 0\<rparr>"

definition rejected_state :: server where
  "rejected_state = (server_start 1)\<lparr>sv_count := count_start + NEW_STREAM_COUNT_INC,
     sv_calls := [WarnMaxConns, TcpDrop 5]\<rparr>"

lemma fresh_stream:
  "us_drain_tks (unix_stream_new tk) [] = (unix_stream_new tk, [])"
  "us_drain_close_tks (unix_stream_new tk) [] = (unix_stream_new tk, [])"
  "us_reregister reg (unix_stream_new tk) = (unix_stream_new tk, Ok ())"
  by (simp_all add: us_drain_tks_eq us_drain_close_tks_eq unix_stream_new_def server_buf_new_def
      us_reregister_def reregister_call_def us_poll_read_def us_poll_write_def from_rw_def
      sb_has_data_to_send_def)

lemma reject_run:
  "run (server_step fixed_codec full_config) (server_start 1) [quiet_input [accept_event 5]] rejected_state"
  by (simp add: server_step_def server_turn_def check_exit_def take_answers_def keep_answers_def
      close_answers_def maybe_shutdown_def handle_events_def handle_event_def accept_stream_def
      count_next_def Let_def server_start_def server_new_def SERVER_TOKEN_def next_stream_tks_def
      next_stream_close_tks_def fresh_stream sv_call_def drain_errors_def quiet_input_def
      accept_event_def full_config_def rejected_state_def)

text \<open>C13: the server never holds more client streams, idle and in processing together,
  than \<open>CASKET_MAX_CONNECTIONS\<close>, whatever the system calls return.\<close>

theorem server_connection_bound:
  assumes "run (server_step cd cfg) (server_start workers) inputs s"
  shows "length (sv_reading s) + length (sv_processing s) \<le> max_conns cfg"
proof -
  have "server_inv cfg s" using srv.run_inv [OF assms] by simp
  then show ?thesis by (simp add: server_inv_def)
qed

theorem server_connection_bound_witness:
  "\<exists>s. run (server_step fixed_codec full_config) (server_start 1) [quiet_input [accept_event 5]] s \<and>
     sv_calls s = [WarnMaxConns, TcpDrop 5] \<and> length (sv_reading s) + length (sv_processing s) \<le> 0"
  using server_connection_bound [OF reject_run] reject_run
  by (intro exI conjI) (assumption | simp add: rejected_state_def full_config_def)+

section \<open>Ownership of the accepted descriptors\<close>

fun dropped_fds :: "tcp_call list \<Rightarrow> raw_fd multiset" where
  "dropped_fds [] = {#}"
| "dropped_fds (TcpDrop fd # cs) = add_mset fd (dropped_fds cs)"
| "dropped_fds (_ # cs) = dropped_fds cs"

lemma dropped_fds_append [simp]: "dropped_fds (xs @ ys) = dropped_fds xs + dropped_fds ys"
  by (induction xs rule: dropped_fds.induct) auto

definition owned :: "server \<Rightarrow> raw_fd multiset" where
  "owned s = hm_vals (sv_reading s) + hm_vals (sv_processing s) + dropped_fds (sv_calls s)"

fun accepted_fd :: "srv_event \<Rightarrow> raw_fd multiset" where
  "accepted_fd ev =
     (if se_token ev = SERVER_TOKEN then (case se_accept ev of Ok fd \<Rightarrow> {#fd#} | Err _ \<Rightarrow> {#}) else {#})"

definition accepted_fds :: "srv_event list \<Rightarrow> raw_fd multiset" where
  "accepted_fds evs = sum_list (map accepted_fd evs)"

lemma hm_vals_insert_displaced:
  assumes "hm_wf m"
  shows "hm_vals (hm_insert k v m) +
      dropped_fds (case hm_get m k of Some old \<Rightarrow> [TcpDrop old] | None \<Rightarrow> []) = add_mset v (hm_vals m)"
  using assms hm_vals_delete [of m k] by (cases "hm_get m k") (simp_all add: hm_vals_insert hm_vals_delete_None)

lemma owned_insert_reading:
  assumes "hm_wf (sv_reading s)"
  shows "owned (insert_reading tk fd s) = add_mset fd (owned s)"
  using hm_vals_insert_displaced [OF assms, of tk fd] by (simp add: owned_def add_ac)

lemma owned_insert_processing:
  assumes "hm_wf (sv_processing s)"
  shows "owned (insert_processing tk fd s) = add_mset fd (owned s)"
  using hm_vals_insert_displaced [OF assms, of tk fd] by (simp add: owned_def add_ac)

lemma owned_simps [simp]:
  "owned (sv_error e s) = owned s" "owned (push_result r s) = owned s" "owned (drain_errors s) = owned s"
  "owned (s\<lparr>sv_unix := ss\<rparr>) = owned s" "owned (s\<lparr>sv_count := n\<rparr>) = owned s"
  "owned (s\<lparr>sv_unix := ss, sv_errors := es\<rparr>) = owned s"
  "owned (s\<lparr>sv_ctrlc_instant := c, sv_run_shutdown := b\<rparr>) = owned s"
  "owned (sv_call (TcpDrop fd) s) = add_mset fd (owned s)"
  "owned (sv_call (TcpRegister tk fd) s) = owned s" "owned (sv_call (TcpDeregister fd) s) = owned s"
  "owned (sv_call (TcpShutdown fd) s) = owned s" "owned (sv_call WarnMaxConns s) = owned s"
  "owned (sv_call ListenerDeregister s) = owned s" "owned (sv_call LogShuttingDown s) = owned s"
  "owned (shutdown_and_drop i fd s) = add_mset fd (owned s)"
  by (simp_all add: owned_def)

lemma owned_delete_processing:
  "hm_wf (sv_processing s) \<Longrightarrow> hm_get (sv_processing s) tk = Some fd \<Longrightarrow>
   add_mset fd (owned (s\<lparr>sv_processing := hm_delete tk (sv_processing s)\<rparr>)) = owned s"
  using hm_vals_delete [of "sv_processing s" tk fd] by (simp add: owned_def)

lemma owned_delete_reading:
  "hm_wf (sv_reading s) \<Longrightarrow> hm_get (sv_reading s) tk = Some fd \<Longrightarrow>
   add_mset fd (owned (s\<lparr>sv_reading := hm_delete tk (sv_reading s)\<rparr>)) = owned s"
  using hm_vals_delete [of "sv_reading s" tk fd] by (simp add: owned_def)

lemma kept_stream_owned:
  assumes "kept_stream i tk s = Ret t" and "server_inv cfg s"
  shows "owned (turn_state t) = owned s"
proof -
  obtain fd where fd: "hm_get (sv_processing s) tk = Some fd"
    using assms(1) by (auto simp: kept_stream_def split: option.splits)
  have wf: "hm_wf (sv_reading s)" "hm_wf (sv_processing s)" using assms(2) by (simp_all add: server_inv_def)
  from assms(1) fd owned_delete_processing [OF wf(2) fd] wf show ?thesis
    by (auto simp: kept_stream_def Let_def owned_insert_reading split: if_splits option.splits)
qed

lemma closed_stream_owned:
  "closed_stream i tk s = Ret t \<Longrightarrow> server_inv cfg s \<Longrightarrow> owned (turn_state t) = owned s"
  using owned_delete_processing [of s tk]
  by (auto simp: closed_stream_def server_inv_def split: option.splits)

lemma accept_stream_owned:
  "server_inv cfg s \<Longrightarrow> owned (accept_stream cfg i fd s) = add_mset fd (owned s)"
  by (auto simp: accept_stream_def count_next_def Let_def owned_insert_reading server_inv_def
      split: option.splits)

lemma start_processing_owned:
  assumes "start_processing i tk fd s = Ret t" and "server_inv cfg s"
    and "hm_get (sv_reading s) tk = Some fd"
  shows "owned (turn_state t) = owned s"
proof -
  have wf: "hm_wf (sv_reading s)" "hm_wf (sv_processing s)" using assms(2) by (simp_all add: server_inv_def)
  from assms(1) owned_delete_reading [OF wf(1) assms(3)] wf show ?thesis
    by (auto simp: start_processing_def Let_def owned_insert_processing split: option.splits)
qed

lemma handle_event_owned:
  assumes "handle_event cd cfg i ev s = Ret (Next t)" and "server_inv cfg s"
  shows "owned t = owned s + accepted_fd ev"
proof (cases "se_token ev = SERVER_TOKEN")
  case True
  with assms show ?thesis
    by (auto simp: handle_event_def accept_stream_owned split: result.splits)
next
  case False
  show ?thesis
  proof (cases "hm_get (sv_reading s) (se_token ev)")
    case None
    with assms False obtain k where "unix_event cd ev k s = Ret (Next t)"
      by (auto simp: handle_event_def split: option.splits)
    from unix_event_tables [OF this] False show ?thesis by (simp add: owned_def)
  next
    case (Some fd)
    with assms False start_processing_owned [of i "se_token ev" fd s "Next t" cfg] show ?thesis
      by (auto simp: handle_event_def)
  qed
qed

lemma handle_events_fold_owned:
  "turn_fold (handle_event cd cfg i) evs s = Ret (Next t) \<Longrightarrow> server_inv cfg s \<Longrightarrow>
   owned t = owned s + accepted_fds evs"
proof (induction evs arbitrary: s)
  case Nil
  then show ?case by (simp add: accepted_fds_def)
next
  case (Cons ev evs)
  then obtain u where u: "handle_event cd cfg i ev s = Ret (Next u)"
    "turn_fold (handle_event cd cfg i) evs u = Ret (Next t)"
    by (auto simp: turn_bind_Ret)
  have "server_inv cfg u" using handle_event_inv [OF u(1) Cons.prems(2)] by simp
  from Cons.IH [OF u(2) this] handle_event_owned [OF u(1) Cons.prems(2)] show ?case
    by (simp add: accepted_fds_def add_ac)
qed

lemma fold_shutdown_idle_owned:
  "owned (fold (shutdown_idle i) xs s) = owned s + mset (map snd xs)"
proof (induction xs arbitrary: s)
  case Nil
  then show ?case by simp
next
  case (Cons x xs)
  have "owned (shutdown_idle i x s) = add_mset (snd x) (owned s)"
    by (simp add: shutdown_idle_def Let_def split: option.splits)
  with Cons show ?case by simp
qed

lemma maybe_shutdown_owned: "owned (maybe_shutdown i s) = owned s"
proof -
  have "owned (s\<lparr>sv_reading := []\<rparr>) + mset (map snd (sv_reading s)) = owned s" for s
    by (simp add: owned_def hm_vals_def add_ac)
  from this [of "sv_call ListenerDeregister (sv_call LogShuttingDown s)"]
    this [of "sv_error e (sv_call ListenerDeregister (sv_call LogShuttingDown s))" for e]
  show ?thesis
    by (auto simp: maybe_shutdown_def shutdown_def Let_def fold_shutdown_idle_owned split: option.splits)
qed

lemma answers_owned:
  assumes "take_answers i s = Ret (Next t)" and "server_inv cfg s"
  shows "owned t = owned s"
proof -
  obtain u where u: "keep_answers i s = Ret (Next u)" "close_answers i u = Ret (Next t)"
    using assms(1) by (auto simp: take_answers_def turn_bind_Ret)
  let ?P = "\<lambda>v. server_inv cfg v \<and> owned v = owned s"
  have "?P (turn_state (Next u))"
    using u(1) assms(2) unfolding keep_answers_def Let_def split_beta
    by (elim turn_fold_inv [where P = ?P, rotated])
      (auto intro: kept_stream_inv simp: kept_stream_owned)
  then have pu: "?P u" by simp
  have "?P (turn_state (Next t))"
    using u(2) pu unfolding close_answers_def Let_def split_beta
    by (elim turn_fold_inv [where P = ?P, rotated])
      (auto intro: closed_stream_inv simp: closed_stream_owned)
  then show ?thesis by simp
qed

lemma server_step_owned:
  assumes "server_step cd cfg i s t" and "server_inv cfg s"
  shows "owned t = owned s + accepted_fds (si_events i)"
proof -
  from assms(1) obtain u where u: "take_answers i s = Ret (Next u)"
    "handle_events cd cfg i (maybe_shutdown i u) = Ret (Next t)"
    by (auto simp: server_step_def server_turn_def turn_bind_Ret dest!: check_exit_state)
  have inv: "server_inv cfg (maybe_shutdown i u)"
    using take_answers_inv [OF u(1) assms(2)] by (simp add: shutdown_inv)
  from u(2) obtain v where v: "turn_fold (handle_event cd cfg i) (si_events i) (maybe_shutdown i u) = Ret (Next v)"
    "t = drain_errors v"
    by (auto simp: handle_events_def turn_bind_Ret)
  from handle_events_fold_owned [OF v(1) inv] v(2) answers_owned [OF u(1) assms(2)]
  show ?thesis by (simp add: maybe_shutdown_owned)
qed

text \<open>C14: every descriptor the server has accepted is either in one of its two tables or
  has been dropped (closed), and each exactly once: nothing is leaked or closed twice.\<close>

theorem server_owns_descriptors:
  assumes "run (server_step cd cfg) (server_start workers) inputs s"
  shows "hm_vals (sv_reading s) + hm_vals (sv_processing s) + dropped_fds (sv_calls s)
     = sum_list (map (\<lambda>i. accepted_fds (si_events i)) inputs)"
proof -
  have "owned t = owned u + sum_list (map (\<lambda>i. accepted_fds (si_events i)) is)"
    if "run (server_step cd cfg) u is t" "server_inv cfg u" for u "is" t
    using that
  proof (induction rule: run.induct)
    case (run_nil s)
    then show ?case by simp
  next
    case (run_cons x s u xs t)
    have "server_inv cfg u" using srv.step_inv [OF run_cons.hyps(1) run_cons.prems] .
    with run_cons.IH server_step_owned [OF run_cons.hyps(1) run_cons.prems] show ?case
      by (simp add: add_ac)
  qed
  from this [OF assms server_inv_start] show ?thesis
    by (simp add: owned_def server_start_def server_new_def)
qed

theorem server_owns_descriptors_witness:
  "\<exists>s. run (server_step fixed_codec full_config) (server_start 1) [quiet_input [accept_event 5]] s \<and>
     hm_vals (sv_reading s) + hm_vals (sv_processing s) + dropped_fds (sv_calls s) = {#5#}"
  using server_owns_descriptors [OF reject_run] reject_run
  by (intro exI conjI) (assumption | simp add: quiet_input_def accept_event_def accepted_fds_def SERVER_TOKEN_def)+

section \<open>Answers of the workers\<close>

lemma kept_fold:
  "distinct tks \<Longrightarrow> set tks \<subseteq> hm_keys (sv_processing s) \<Longrightarrow>
   \<exists>t. turn_fold (kept_stream i) tks s = Ret (Next t) \<and>
     hm_keys (sv_processing t) = hm_keys (sv_processing s) - set tks \<and> sv_unix t = sv_unix s \<and>
     (sv_run_shutdown s \<longrightarrow> sv_run_shutdown t \<and> sv_reading t = sv_reading s)"
proof (induction tks arbitrary: s)
  case Nil
  then show ?case by simp
next
  case (Cons tk tks)
  then obtain fd where fd: "hm_get (sv_processing s) tk = Some fd"
    using hm_mem_obtain by fastforce
  then obtain u where u: "kept_stream i tk s = Ret (Next u)"
    "sv_processing u = hm_delete tk (sv_processing s)" "sv_unix u = sv_unix s"
    "sv_run_shutdown u = sv_run_shutdown s" "sv_run_shutdown s \<longrightarrow> sv_reading u = sv_reading s"
    by (cases "sv_run_shutdown s"; cases "si_tcp i (TcpRegister (keep_alive_token tk) fd)")
      (simp_all add: kept_stream_def Let_def)
  have "set tks \<subseteq> hm_keys (sv_processing u)" and "distinct tks"
    using Cons.prems by (auto simp: u(2))
  from Cons.IH [OF this(2,1)] u show ?case by auto
qed

lemma closed_fold:
  "distinct tks \<Longrightarrow> set tks \<subseteq> hm_keys (sv_processing s) \<Longrightarrow>
   \<exists>t. turn_fold (closed_stream i) tks s = Ret (Next t) \<and>
     hm_keys (sv_processing t) = hm_keys (sv_processing s) - set tks \<and> sv_unix t = sv_unix s \<and>
     sv_run_shutdown t = sv_run_shutdown s \<and> sv_reading t = sv_reading s"
proof (induction tks arbitrary: s)
  case Nil
  then show ?case by simp
next
  case (Cons tk tks)
  then obtain fd where fd: "hm_get (sv_processing s) tk = Some fd"
    using hm_mem_obtain by fastforce
  then obtain u where u: "closed_stream i tk s = Ret (Next u)"
    "sv_processing u = hm_delete tk (sv_processing s)" "sv_unix u = sv_unix s"
    "sv_run_shutdown u = sv_run_shutdown s" "sv_reading u = sv_reading s"
    by (simp add: closed_stream_def)
  have "set tks \<subseteq> hm_keys (sv_processing u)" and "distinct tks"
    using Cons.prems by (auto simp: u(2))
  from Cons.IH [OF this(2,1)] u show ?case by auto
qed

lemma us_reregister_all_fst:
  "map us_token (fst (us_reregister_all reg ss)) = map us_token ss \<and>
   queued_tks (fst (us_reregister_all reg ss)) = queued_tks ss \<and>
   queued_close_tks (fst (us_reregister_all reg ss)) = queued_close_tks ss"
  by (induction ss)
    (auto simp: split_beta Let_def queued_tks_def queued_close_tks_def us_reregister_def split: option.splits)

text \<open>The answers that have arrived name streams in processing, each once.\<close>

definition answers_ok :: "server \<Rightarrow> bool" where
  "answers_ok s \<longleftrightarrow>
     distinct (queued_tks (sv_unix s) @ queued_close_tks (sv_unix s)) \<and>
     set (queued_tks (sv_unix s) @ queued_close_tks (sv_unix s)) \<subseteq> hm_keys (sv_processing s)"

lemma take_answers_spec:
  assumes "answers_ok s"
  shows "\<exists>t. take_answers i s = Ret (Next t) \<and>
     hm_keys (sv_processing t) = hm_keys (sv_processing s)
       - set (queued_tks (sv_unix s)) - set (queued_close_tks (sv_unix s)) \<and>
     queued_tks (sv_unix t) = [] \<and> queued_close_tks (sv_unix t) = [] \<and>
     map us_token (sv_unix t) = map us_token (sv_unix s) \<and>
     (sv_run_shutdown s \<longrightarrow> sv_run_shutdown t \<and> sv_reading t = sv_reading s)"
proof -
  define r where "r = us_reregister_all (si_reg i) (sv_unix s)"
  have q: "queued_tks (fst r) = queued_tks (sv_unix s)"
    "queued_close_tks (fst r) = queued_close_tks (sv_unix s)"
    "map us_token (fst r) = map us_token (sv_unix s)"
    using us_reregister_all_fst [of "si_reg i" "sv_unix s"] by (simp_all add: r_def)
  define s1 where "s1 = s\<lparr>sv_unix := fst (next_stream_tks (fst r)), sv_errors := sv_errors s @ snd r\<rparr>"
  have "distinct (queued_tks (fst r))" "set (queued_tks (fst r)) \<subseteq> hm_keys (sv_processing s1)"
    using assms q by (auto simp: answers_ok_def s1_def)
  from kept_fold [OF this] obtain u where
    u: "turn_fold (kept_stream i) (queued_tks (fst r)) s1 = Ret (Next u)"
      "hm_keys (sv_processing u) = hm_keys (sv_processing s) - set (queued_tks (sv_unix s))"
      "sv_unix u = fst (next_stream_tks (fst r))"
      "sv_run_shutdown s \<longrightarrow> sv_run_shutdown u \<and> sv_reading u = sv_reading s"
    using q by (auto simp: s1_def)
  have k: "keep_answers i s = Ret (Next u)"
    using u(1) by (simp add: keep_answers_def Let_def split_beta r_def [symmetric] s1_def
        next_stream_tks_snd)
  have qu: "queued_tks (sv_unix u) = []" "queued_close_tks (sv_unix u) = queued_close_tks (sv_unix s)"
    "map us_token (sv_unix u) = map us_token (sv_unix s)"
    using next_stream_tks_fst [of "fst r"] q by (simp_all add: u(3))
  define u1 where "u1 = u\<lparr>sv_unix := fst (next_stream_close_tks (sv_unix u))\<rparr>"
  have "distinct (queued_close_tks (sv_unix u))"
    "set (queued_close_tks (sv_unix u)) \<subseteq> hm_keys (sv_processing u1)"
    using assms qu u(2) by (auto simp: answers_ok_def u1_def)
  from closed_fold [OF this] obtain t where
    t: "turn_fold (closed_stream i) (queued_close_tks (sv_unix u)) u1 = Ret (Next t)"
      "hm_keys (sv_processing t) = hm_keys (sv_processing u) - set (queued_close_tks (sv_unix s))"
      "sv_unix t = fst (next_stream_close_tks (sv_unix u))"
      "sv_run_shutdown t = sv_run_shutdown u" "sv_reading t = sv_reading u"
    using qu by (auto simp: u1_def)
  have "close_answers i u = Ret (Next t)"
    using t(1) by (simp add: close_answers_def Let_def split_beta u1_def next_stream_close_tks_snd)
  with k have "take_answers i s = Ret (Next t)" by (simp add: take_answers_def)
  with t u qu next_stream_close_tks_fst [of "sv_unix u"] show ?thesis by auto
qed

text \<open>When the answers that have arrived name streams in processing, each once, the
  server takes them all without panicking: every answered stream leaves the processing
  table, no other does, and no answer is left behind.\<close>

theorem answers_never_panic:
  assumes "answers_ok s"
  shows "\<exists>t. take_answers i s = Ret (Next t) \<and>
     hm_keys (sv_processing t) = hm_keys (sv_processing s)
       - set (queued_tks (sv_unix s) @ queued_close_tks (sv_unix s)) \<and>
     queued_tks (sv_unix t) = [] \<and> queued_close_tks (sv_unix t) = []"
  using take_answers_spec [OF assms, of i] by (auto simp: Diff_eq Int_assoc)

definition answered_state :: server where
  "answered_state = (server_start 1)\<lparr>sv_processing := [(Token 16777216, 5)],
     sv_unix := [(unix_stream_new (Token 1))\<lparr>num_reqs := 1,
       us_buffer := server_buf_new\<lparr>stream_tks := [(Token 16777216, 5)]\<rparr>\<rparr>]\<rparr>"

lemma answered_state_simps [simp]:
  "queued_tks (sv_unix answered_state) = [Token 16777216]"
  "queued_close_tks (sv_unix answered_state) = []"
  "sv_processing answered_state = [(Token 16777216, 5)]"
  "hm_keys [(Token 16777216, 5 :: raw_fd)] = {Token 16777216}"
  by (simp_all add: answered_state_def queued_tks_def queued_close_tks_def server_buf_new_def
      unix_stream_new_def hm_keys_def)

theorem answers_never_panic_witness:
  "\<exists>t. take_answers (quiet_input []) answered_state = Ret (Next t) \<and> hm_keys (sv_processing t) = {}"
proof -
  have "answers_ok answered_state" by (simp add: answers_ok_def)
  from answers_never_panic [OF this, of "quiet_input []"] show ?thesis by auto
qed

section \<open>Events\<close>

lemma us_find_None: "us_find tk ss = None \<longleftrightarrow> tk \<notin> set (map us_token ss)"
  by (induction ss) auto

lemma us_find_SomeD: "us_find tk ss = Some k \<Longrightarrow> k < length ss \<and> us_token (ss ! k) = tk"
  by (induction ss arbitrary: k) (auto split: if_splits)

text \<open>C28: (a defect) a stop request that is noticed in the same turn as an event of an idle
  client ends the server with \<open>UnknownToken\<close>: the idle streams have just been closed and
  forgotten, the event's token is then found nowhere, and the loop returns with an error
  while the requests in processing are still unanswered, instead of waiting for them.\<close>

theorem shutdown_with_idle_event_fails:
  assumes "answers_ok s" and "queued_tks (sv_unix s) = []" and "queued_close_tks (sv_unix s) = []"
    and "\<not> sv_run_shutdown s" and "sv_ctrlc_instant s = None" and "\<not> si_close_now i"
    and "\<not> si_running i"
    and "hm_get (sv_reading s) (se_token ev) = Some fd" and "se_token ev \<noteq> SERVER_TOKEN"
    and "se_token ev \<notin> set (map us_token (sv_unix s))"
    and "si_events i = ev # evs"
  shows "\<exists>t. server_turn cd cfg i s = Ret (Leave t (Err UnknownToken)) \<and>
     hm_keys (sv_processing t) = hm_keys (sv_processing s)"
proof -
  obtain t where t: "take_answers i s = Ret (Next t)"
    "hm_keys (sv_processing t) = hm_keys (sv_processing s)"
    "map us_token (sv_unix t) = map us_token (sv_unix s)"
    using take_answers_spec [OF assms(1), of i] assms(2,3) by auto
  have ex: "check_exit cfg i s = Ret (Next s)"
    using assms(4-6) by (simp add: check_exit_def)
  have "\<not> sv_run_shutdown t"
  proof -
    obtain v where v: "keep_answers i s = Ret (Next v)" "close_answers i v = Ret (Next t)"
      using t(1) by (auto simp: take_answers_def turn_bind_Ret)
    have "sv_run_shutdown v = sv_run_shutdown s \<and> queued_close_tks (sv_unix v) = []"
      using v(1) assms(2,3) us_reregister_all_fst [of "si_reg i" "sv_unix s"]
        next_stream_tks_fst(3) [of "fst (us_reregister_all (si_reg i) (sv_unix s))"]
      by (auto simp: keep_answers_def Let_def split_beta next_stream_tks_snd)
    then show ?thesis
      using v(2) assms(4) by (auto simp: close_answers_def Let_def split_beta next_stream_close_tks_snd)
  qed
  then have sh: "sv_reading (maybe_shutdown i t) = []"
    using assms(7) by (simp add: maybe_shutdown_def)
  have "us_find (se_token ev) (sv_unix (maybe_shutdown i t)) = None"
    using assms(10) t(3) by (simp add: us_find_None del: set_map)
  with sh assms(9) have "handle_event cd cfg i ev (maybe_shutdown i t) =
      Ret (Leave (maybe_shutdown i t) (Err UnknownToken))"
    by (simp add: handle_event_def)
  with ex t assms(11) show ?thesis
    by (simp add: server_turn_def handle_events_def)
qed

definition idle_state :: server where
  "idle_state = (server_start 1)\<lparr>sv_reading := [(Token 16777216, 5)], sv_processing := [(Token 33554432, 6)]\<rparr>"

definition idle_event :: srv_event where
  "idle_event = (accept_event 0)\<lparr>se_token := Token 16777216\<rparr>"

theorem shutdown_with_idle_event_fails_witness:
  "\<exists>t. server_turn fixed_codec full_config ((quiet_input [idle_event])\<lparr>si_running := False\<rparr>) idle_state =
     Ret (Leave t (Err UnknownToken)) \<and> hm_keys (sv_processing t) = {Token 33554432}"
proof -
  have q: "queued_tks (sv_unix idle_state) = []" "queued_close_tks (sv_unix idle_state) = []"
    by (simp_all add: idle_state_def server_start_def server_new_def queued_tks_def queued_close_tks_def
        unix_stream_new_def server_buf_new_def)
  then have ok: "answers_ok idle_state" by (simp add: answers_ok_def)
  have "\<exists>t. server_turn fixed_codec full_config ((quiet_input [idle_event])\<lparr>si_running := False\<rparr>) idle_state =
     Ret (Leave t (Err UnknownToken)) \<and> hm_keys (sv_processing t) = hm_keys (sv_processing idle_state)"
    by (rule shutdown_with_idle_event_fails [OF ok q, where ev = idle_event and fd = 5])
      (simp_all add: idle_state_def idle_event_def quiet_input_def accept_event_def server_start_def
        server_new_def hm_get_def SERVER_TOKEN_def unix_stream_new_def)
  then show ?thesis by (simp add: idle_state_def hm_keys_def)
qed

section \<open>Leaving after a stop request\<close>

lemma us_reregister_all_empty_events:
  "handle_events cd cfg (i\<lparr>si_events := []\<rparr>) s = Ret (Next (drain_errors s))"
  by (simp add: handle_events_def)

text \<open>C21: after a stop request, once the workers have answered every request in processing
  the server takes the answers, keeps none of those streams, and leaves the loop
  successfully at the start of the next turn.\<close>

theorem graceful_shutdown_completes:
  assumes "sv_run_shutdown s" and "sv_processing s \<noteq> []" and "answers_ok s"
    and "hm_keys (sv_processing s) = set (queued_tks (sv_unix s) @ queued_close_tks (sv_unix s))"
    and "sv_ctrlc_instant s = Some begun" and "begun \<le> si_now i" and "si_now i - begun < ctrlc_wait_time cfg"
    and "\<not> si_close_now i" and "si_events i = []"
  shows "\<exists>t. server_turn cd cfg i s = Ret (Next t) \<and> sv_reading t = sv_reading s \<and>
     (\<forall>j. server_turn cd cfg j t = Ret (Leave t (Ok ())))"
proof -
  obtain u where u: "take_answers i s = Ret (Next u)" "hm_keys (sv_processing u) = {}"
    "sv_run_shutdown u" "sv_reading u = sv_reading s"
    using take_answers_spec [OF assms(3), of i] assms(1,4) by auto
  have p: "sv_processing u = []" using u(2) by (simp add: hm_keys_def)
  have "check_exit cfg i s = Ret (Next s)"
    using assms(1,2,5-8) by (simp add: check_exit_def)
  moreover have "handle_events cd cfg i (maybe_shutdown i u) = Ret (Next (drain_errors u))"
    using u(3) assms(9) by (simp add: maybe_shutdown_def handle_events_def)
  ultimately have "server_turn cd cfg i s = Ret (Next (drain_errors u))"
    using u(1) by (simp add: server_turn_def)
  moreover have "server_turn cd cfg j (drain_errors u) = Ret (Leave (drain_errors u) (Ok ()))" for j
    using u(3) p by (simp add: server_turn_def check_exit_def drain_errors_def)
  ultimately show ?thesis using u(4) by auto
qed

definition stopping_state :: server where
  "stopping_state = answered_state\<lparr>sv_run_shutdown := True, sv_ctrlc_instant := Some 7\<rparr>"

theorem graceful_shutdown_completes_witness:
  "\<exists>t. server_turn fixed_codec full_config ((quiet_input [])\<lparr>si_now := 8\<rparr>) stopping_state = Ret (Next t) \<and>
     server_turn fixed_codec full_config (quiet_input []) t = Ret (Leave t (Ok ()))"
proof -
  have q: "queued_tks (sv_unix stopping_state) = [Token 16777216]"
    "queued_close_tks (sv_unix stopping_state) = []" "sv_processing stopping_state = [(Token 16777216, 5)]"
    using answered_state_simps by (simp_all add: stopping_state_def)
  then have "answers_ok stopping_state" by (simp add: answers_ok_def)
  then have "\<exists>t. server_turn fixed_codec full_config ((quiet_input [])\<lparr>si_now := 8\<rparr>) stopping_state = Ret (Next t) \<and>
     sv_reading t = sv_reading stopping_state \<and>
     (\<forall>j. server_turn fixed_codec full_config j t = Ret (Leave t (Ok ())))"
    by (intro graceful_shutdown_completes [where begun = 7])
      (simp_all add: q, simp_all add: stopping_state_def quiet_input_def full_config_def
        default_config_def from_secs_def)
  then show ?thesis by blast
qed

text \<open>C22: when \<open>CASKET_CTRLC_WAIT_TIME\<close> has passed since the stop request, the next turn
  leaves the loop successfully after shutting down and closing every stream still in
  processing, whatever the workers do.\<close>

theorem shutdown_deadline:
  assumes "sv_ctrlc_instant s = Some begun" and "sv_processing s \<noteq> []"
    and "begun + ctrlc_wait_time cfg \<le> si_now i"
  shows "\<exists>t. server_turn cd cfg i s = Ret (Leave t (Ok ())) \<and> sv_processing t = [] \<and>
     (\<forall>fd \<in># hm_vals (sv_processing s). TcpShutdown fd \<in> set (sv_calls t)) \<and>
     dropped_fds (sv_calls t) = dropped_fds (sv_calls s) + hm_vals (sv_processing s)"
proof -
  let ?calls = "concat (map (\<lambda>x. [TcpShutdown (snd x), TcpDrop (snd x)]) (sv_processing s))"
  let ?t = "s\<lparr>sv_processing := [], sv_calls := sv_calls s @ ?calls\<rparr>"
  have "dropped_fds (concat (map (\<lambda>x. [TcpShutdown (snd x), TcpDrop (snd x)]) m)) = mset (map snd m)"
    for m :: "(token, raw_fd) hashmap"
    by (induction m) simp_all
  moreover have "check_exit cfg i s = Ret (Leave ?t (Ok ()))"
    using assms by (auto simp: check_exit_def)
  ultimately show ?thesis
    by (intro exI [of _ ?t]) (auto simp: server_turn_def hm_vals_def)
qed

theorem shutdown_deadline_witness:
  "\<exists>t. server_turn fixed_codec full_config ((quiet_input [])\<lparr>si_now := from_secs 20\<rparr>) stopping_state =
     Ret (Leave t (Ok ())) \<and> TcpShutdown 5 \<in> set (sv_calls t)"
proof -
  have p: "sv_processing stopping_state = [(Token 16777216, 5)]"
    using answered_state_simps by (simp add: stopping_state_def)
  have "\<exists>t. server_turn fixed_codec full_config ((quiet_input [])\<lparr>si_now := from_secs 20\<rparr>) stopping_state =
     Ret (Leave t (Ok ())) \<and> sv_processing t = [] \<and>
     (\<forall>fd \<in># hm_vals (sv_processing stopping_state). TcpShutdown fd \<in> set (sv_calls t)) \<and>
     dropped_fds (sv_calls t) = dropped_fds (sv_calls stopping_state) + hm_vals (sv_processing stopping_state)"
    by (rule shutdown_deadline [where begun = 7])
      (simp_all add: p, simp_all add: stopping_state_def quiet_input_def full_config_def
        default_config_def from_secs_def)
  then show ?thesis by (auto simp: p hm_vals_def)
qed

section \<open>Tokens of the streams\<close>

text \<open>The token of stream \<open>n\<close> (counted from 1) in its request \<open>k\<close> (counted from 0).\<close>

definition stream_token :: "nat \<Rightarrow> nat \<Rightarrow> token" where
  "stream_token n k = (keep_alive_token ^^ k) (Token (((\<lambda>c. snd (count_next c)) ^^ (n - 1)) count_start))"

lemma count_iterate: "((\<lambda>c. snd (count_next c)) ^^ m) count_start = of_nat (Suc m) * 2 ^ 24"
  by (induction m)
    (simp_all add: count_start_def count_next_def NEW_STREAM_COUNT_INC_def push_bit_eq_mult algebra_simps)

lemma keep_alive_iterate: "(keep_alive_token ^^ k) (Token c) = Token (c + of_nat k * 2 ^ 7)"
  by (induction k)
    (simp_all add: keep_alive_token_def KEEP_ALIVE_COUNT_INC_def push_bit_eq_mult algebra_simps)

lemma stream_token_eq:
  "1 \<le> n \<Longrightarrow> stream_token n k = Token (of_nat (n * 2 ^ 24 + k * 2 ^ 7))"
  by (simp add: stream_token_def count_iterate keep_alive_iterate)

lemma stream_token_unat:
  assumes "1 \<le> n" and "n < 2 ^ 40" and "k < 2 ^ 17"
  shows "unat (tok (stream_token n k)) = n * 2 ^ 24 + k * 2 ^ 7"
proof -
  have "n * 2 ^ 24 + k * 2 ^ 7 < (2 ^ 40 - 1) * 2 ^ 24 + 2 ^ 24"
    using assms by (intro add_le_less_mono) auto
  then have "(n * 2 ^ 24 + k * 2 ^ 7) mod 2 ^ LENGTH(64) = n * 2 ^ 24 + k * 2 ^ 7" by simp
  then show ?thesis
    by (simp only: stream_token_eq [OF assms(1)] token.sel unat_of_nat)
qed

text \<open>C23: within the limits the source's comment gives (fewer than \<open>2^40\<close> streams, fewer than
  \<open>2^17\<close> requests on each) no two requests share a token, and none has the token of the
  listener or of one of up to \<open>2^24 - 1\<close> workers. The second limit is not enforced: the
  request number \<open>2^17\<close> of a stream has the token of the next stream's first request.\<close>

theorem stream_tokens_unique:
  assumes "1 \<le> n" and "n < 2 ^ 40" and "k < 2 ^ 17" and "1 \<le> m" and "m < 2 ^ 40" and "j < 2 ^ 17"
  shows "(stream_token n k = stream_token m j \<longleftrightarrow> n = m \<and> k = j) \<and>
     (\<forall>w < 2 ^ 24. stream_token n k \<noteq> Token (of_nat w)) \<and>
     stream_token n (2 ^ 17) = stream_token (n + 1) 0"
proof (intro conjI)
  show "stream_token n k = stream_token m j \<longleftrightarrow> n = m \<and> k = j"
  proof
    assume "stream_token n k = stream_token m j"
    then have e: "n * 2 ^ 24 + k * 2 ^ 7 = m * 2 ^ 24 + j * 2 ^ 7"
      using stream_token_unat [OF assms(1-3)] stream_token_unat [OF assms(4-6)] by metis
    then have "(n * 2 ^ 17 + k) * 2 ^ 7 = (m * 2 ^ 17 + j) * 2 ^ (7 :: nat)" by simp
    then have "n * 2 ^ 17 + k = m * 2 ^ 17 + j" by simp
    moreover have "(n * 2 ^ 17 + k) div 2 ^ 17 = n" "(m * 2 ^ 17 + j) div 2 ^ 17 = m"
      using assms(3,6) by simp_all
    ultimately show "n = m \<and> k = j" by simp
  qed simp
  show "\<forall>w < 2 ^ 24. stream_token n k \<noteq> Token (of_nat w)"
  proof (intro allI impI notI)
    fix w :: nat assume w: "w < 2 ^ 24" and "stream_token n k = Token (of_nat w)"
    then have "n * 2 ^ 24 + k * 2 ^ 7 = unat (of_nat w :: usize)"
      using stream_token_unat [OF assms(1-3)] by simp
    also have "\<dots> = w" using w by (simp add: unat_of_nat)
    finally have "n * 2 ^ 24 \<le> w" by linarith
    moreover have "1 * 2 ^ 24 \<le> n * 2 ^ (24 :: nat)" using assms(1) by (rule mult_le_mono1)
    ultimately show False using w by linarith
  qed
  show "stream_token n (2 ^ 17) = stream_token (n + 1) 0"
    using assms(1) by (simp add: stream_token_eq algebra_simps)
qed

theorem stream_tokens_unique_witness:
  "stream_token 5 0 \<noteq> stream_token 6 0 \<and> stream_token 5 (2 ^ 17) = stream_token 6 0"
  using stream_tokens_unique [of 5 0 6 0] by simp

end
