(* ===== verification/Poller.thy ===== *)
theory Poller
  imports Errors UnixStreams
begin

text \<open>
  \<open>src/worker/events.rs\<close> and \<open>src/worker/poller.rs\<close>: the events of a worker, and the
  poller that turns mio's readiness and expired timers into them. A registration is used
  up by the event it produces.
\<close>

section \<open>Events\<close>

datatype event =
    CtrlC
  | UnixStreamRead
  | UnixStreamWrite
  | NewStreamFd raw_fd
  | ServerStreamRead
  | QueuedRequests
  | PollPythonResponses
  | ServerStreamWrite
  | RequestReadTimeout
  | CasketResponseWrite
  | PythonCodeTimeout

datatype timeout = RequestRead | PythonCode

section \<open>The timer queue\<close>

record timer_entry =
  te_token :: token
  te_timeout :: systime
  te_event :: event

text \<open>
  \<open>BinaryHeap<Reverse<TimerEntry>>\<close>, ordered by the timeout: \<open>peek\<close> and \<open>pop\<close> give an entry
  with the least timeout. Which one among equal timeouts is unspecified in Rust; here it
  is the oldest, and no property depends on it.
\<close>

type_synonym timer_queue = "timer_entry list"

fun timer_push :: "timer_entry \<Rightarrow> timer_queue \<Rightarrow> timer_queue" where
  "timer_push e [] = [e]"
| "timer_push e (x # q) = (if te_timeout e < te_timeout x then e # x # q else x # timer_push e q)"

definition timer_peek :: "timer_queue \<Rightarrow> timer_entry option" where
  "timer_peek q = (case q of [] \<Rightarrow> None | e # _ \<Rightarrow> Some e)"

definition timer_pop :: "timer_queue \<Rightarrow> timer_queue" where
  "timer_pop q = tl q"

definition timer_inv :: "timer_queue \<Rightarrow> bool" where
  "timer_inv q \<longleftrightarrow> sorted (map te_timeout q)"

text \<open>What the poller relies on: a priority queue by timeout.\<close>

locale timer_heap =
  fixes push :: "timer_entry \<Rightarrow> 'q \<Rightarrow> 'q"
    and peek :: "'q \<Rightarrow> timer_entry option"
    and pop :: "'q \<Rightarrow> 'q"
    and entries :: "'q \<Rightarrow> timer_entry multiset"
    and inv :: "'q \<Rightarrow> bool"
  assumes push_entries: "inv q \<Longrightarrow> entries (push e q) = add_mset e (entries q)"
    and push_inv: "inv q \<Longrightarrow> inv (push e q)"
    and peek_None: "inv q \<Longrightarrow> peek q = None \<longleftrightarrow> entries q = {#}"
    and peek_min: "inv q \<Longrightarrow> peek q = Some e \<Longrightarrow>
        e \<in># entries q \<and> (\<forall>x \<in># entries q. te_timeout e \<le> te_timeout x)"
    and pop_entries: "inv q \<Longrightarrow> peek q = Some e \<Longrightarrow> entries q = add_mset e (entries (pop q))"
    and pop_inv: "inv q \<Longrightarrow> inv (pop q)"

text \<open>The loop that takes the expired entries, as a relation over any such queue.\<close>

inductive popping ::
  "('q \<Rightarrow> timer_entry option) \<Rightarrow> ('q \<Rightarrow> 'q) \<Rightarrow> systime \<Rightarrow> 'q \<Rightarrow> timer_entry list \<Rightarrow> 'q \<Rightarrow> bool"
  for peek pop now where
  popping_empty: "peek q = None \<Longrightarrow> popping peek pop now q [] q"
| popping_later: "peek q = Some e \<Longrightarrow> now < te_timeout e \<Longrightarrow> popping peek pop now q [] q"
| popping_due: "peek q = Some e \<Longrightarrow> \<not> now < te_timeout e \<Longrightarrow> popping peek pop now (pop q) es q' \<Longrightarrow>
    popping peek pop now q (e # es) q'"

context timer_heap
begin

lemma popping_spec:
  "popping peek pop now q es q' \<Longrightarrow> inv q \<Longrightarrow>
   mset es = filter_mset (\<lambda>e. te_timeout e \<le> now) (entries q) \<and>
   entries q' = filter_mset (\<lambda>e. \<not> te_timeout e \<le> now) (entries q) \<and>
   sorted (map te_timeout es) \<and> inv q'"
proof (induction rule: popping.induct)
  case (popping_empty q)
  then show ?case by (simp add: peek_None)
next
  case (popping_later q e)
  then have "\<forall>x \<in># entries q. now < te_timeout x"
    using peek_min [of q e] by fastforce
  then have "filter_mset (\<lambda>e. te_timeout e \<le> now) (entries q) = {#}"
    and "filter_mset (\<lambda>e. \<not> te_timeout e \<le> now) (entries q) = entries q"
    by (auto intro!: filter_mset_eq_conv [THEN iffD2])
  with popping_later show ?case by simp
next
  case (popping_due q e es q')
  from pop_entries [OF popping_due.prems popping_due.hyps(1)]
  have en: "entries q = add_mset e (entries (pop q))" .
  from popping_due.IH [OF pop_inv [OF popping_due.prems]]
  have ih: "mset es = filter_mset (\<lambda>e. te_timeout e \<le> now) (entries (pop q))"
    "entries q' = filter_mset (\<lambda>e. \<not> te_timeout e \<le> now) (entries (pop q))"
    "sorted (map te_timeout es)" "inv q'" by simp_all
  have "\<forall>x \<in> set es. te_timeout e \<le> te_timeout x"
  proof
    fix x assume "x \<in> set es"
    then have "x \<in># mset es" by simp
    then have "x \<in># entries q" unfolding ih(1) en by simp
    then show "te_timeout e \<le> te_timeout x"
      using peek_min [OF popping_due.prems popping_due.hyps(1)] by blast
  qed
  with ih popping_due.hyps(2) en show ?case by auto
qed

end

lemma timer_push_mset: "mset (timer_push e q) = add_mset e (mset q)"
  by (induction q) auto

lemma timer_push_set: "set (timer_push e q) = insert e (set q)"
  by (induction q) auto

lemma timer_push_sorted: "sorted (map te_timeout q) \<Longrightarrow> sorted (map te_timeout (timer_push e q))"
  by (induction q) (auto simp: timer_push_set)

interpretation th: timer_heap timer_push timer_peek timer_pop mset timer_inv
  by unfold_locales
    (auto simp: timer_push_mset timer_inv_def timer_push_sorted timer_peek_def timer_pop_def sorted_tl
      map_tl split: list.splits)

section \<open>The poller\<close>

text \<open>
  \<open>poll_reg\<close> is what mio's registry holds: the interest of each token's source.
\<close>

record poller =
  events_reg_read :: "(token, event) hashmap"
  events_reg_write :: "(token, event) hashmap"
  timerq :: timer_queue
  poll_reg :: "(token, mio_interest) hashmap"

definition poller_new :: poller where
  "poller_new = \<lparr>events_reg_read = [], events_reg_write = [], timerq = [], poll_reg = []\<rparr>"

text \<open>One event of mio's buffer.\<close>

record mio_event =
  me_token :: token
  me_readable :: bool
  me_writable :: bool

text \<open>The timeout given to \<open>poll\<close>.\<close>

definition tick_timeout :: "systime \<Rightarrow> duration option \<Rightarrow> poller \<Rightarrow> duration option" where
  "tick_timeout now timeout p =
     (case timeout of
        Some t \<Rightarrow> Some t
      | None \<Rightarrow>
          map_option (\<lambda>e. if te_timeout e < now then from_millis 20 else te_timeout e - now)
            (timer_peek (timerq p)))"

function pop_expired :: "systime \<Rightarrow> timer_queue \<Rightarrow> timer_entry list \<times> timer_queue" where
  "pop_expired now q =
     (case timer_peek q of
        None \<Rightarrow> ([], q)
      | Some e \<Rightarrow>
          if now < te_timeout e then ([], q)
          else (let (es, q') = pop_expired now (timer_pop q) in (e # es, q')))"
  by pat_completeness auto
termination
  by (relation "measure (\<lambda>(now, q). length q)") (auto simp: timer_peek_def timer_pop_def split: list.splits)

declare pop_expired.simps [simp del]

text \<open>mio's events in order; each uses up the registration it belongs to.\<close>

fun take_mio_events :: "mio_event list \<Rightarrow> poller \<Rightarrow> (token \<times> event) list \<Rightarrow>
    (poller \<times> (token \<times> event) list) exec" where
  "take_mio_events [] p evs = Ret (p, evs)"
| "take_mio_events (m # ms) p evs =
     exec_bind
       (if me_readable m then
          (case hm_get (events_reg_read p) (me_token m) of
             None \<Rightarrow> Panic ''couldn't find event in read reg''
           | Some ev \<Rightarrow>
               Ret (p\<lparr>events_reg_read := hm_delete (me_token m) (events_reg_read p)\<rparr>,
                    evs @ [(me_token m, ev)]))
        else Ret (p, evs))
       (\<lambda>(p, evs).
          exec_bind
            (if me_writable m then
               (case hm_get (events_reg_write p) (me_token m) of
                  None \<Rightarrow> Panic ''couldn't find event in write reg''
                | Some ev \<Rightarrow>
                    Ret (p\<lparr>events_reg_write := hm_delete (me_token m) (events_reg_write p)\<rparr>,
                         evs @ [(me_token m, ev)]))
             else Ret (p, evs))
            (\<lambda>(p, evs). take_mio_events ms p evs))"

text \<open>
  \<open>tick\<close>: expired timers, then \<open>poll\<close> (an interruption becomes \<open>CtrlC\<close>, another error ends
  the worker), then the events in mio's buffer.
\<close>

definition tick ::
  "systime \<Rightarrow> io_error option \<Rightarrow> mio_event list \<Rightarrow> (token \<times> event) list \<Rightarrow> poller \<Rightarrow>
     (poller \<times> (token \<times> event) list \<times> runtime_result) exec" where
  "tick now poll_err mio_events events p =
     (let (es, q) = pop_expired now (timerq p);
          p = p\<lparr>timerq := q\<rparr>;
          events = events @ map (\<lambda>e. (te_token e, te_event e)) es
      in case poll_err of
           Some e \<Rightarrow>
             if io_kind e = Interrupted then
               exec_bind (take_mio_events mio_events p (events @ [(Token 0, CtrlC)]))
                 (\<lambda>(p, evs). Ret (p, evs, Ok ()))
             else Ret (p, events, Err (fatal_io_error ''worker failed to poll'' e))
         | None \<Rightarrow>
             exec_bind (take_mio_events mio_events p events) (\<lambda>(p, evs). Ret (p, evs, Ok ())))"

text \<open>
  Registrations. The event is stored before the registry is called, so it stays when the
  call fails; \<open>r\<close> is the registry's answer.
\<close>

definition reg_result :: "io_error option \<Rightarrow> (io_error, unit) result" where
  "reg_result r = (case r of Some e \<Rightarrow> Err e | None \<Rightarrow> Ok ())"

definition set_reg :: "io_error option \<Rightarrow> token \<Rightarrow> mio_interest \<Rightarrow> poller \<Rightarrow> poller" where
  "set_reg r tk ri p = (if r = None then p\<lparr>poll_reg := hm_insert tk ri (poll_reg p)\<rparr> else p)"

definition register_read :: "io_error option \<Rightarrow> token \<Rightarrow> event \<Rightarrow> poller \<Rightarrow> poller \<times> (io_error, unit) result" where
  "register_read r tk ev p =
     (set_reg r tk Readable (p\<lparr>events_reg_read := hm_insert tk ev (events_reg_read p)\<rparr>), reg_result r)"

definition deregister :: "io_error option \<Rightarrow> token \<Rightarrow> poller \<Rightarrow> poller \<times> (io_error, unit) result" where
  "deregister r tk p =
     (if r = None then p\<lparr>poll_reg := hm_delete tk (poll_reg p)\<rparr> else p, reg_result r)"

definition register_write :: "io_error option \<Rightarrow> token \<Rightarrow> event \<Rightarrow> poller \<Rightarrow> poller \<times> (io_error, unit) result" where
  "register_write r tk ev p =
     (set_reg r tk Writable (p\<lparr>events_reg_write := hm_insert tk ev (events_reg_write p)\<rparr>), reg_result r)"

definition reregister_write :: "io_error option \<Rightarrow> token \<Rightarrow> event \<Rightarrow> poller \<Rightarrow> poller \<times> (io_error, unit) result" where
  "reregister_write r tk ev p =
     (set_reg r tk Writable (p\<lparr>events_reg_write := hm_insert tk ev (events_reg_write p)\<rparr>), reg_result r)"

definition reregister_read :: "io_error option \<Rightarrow> token \<Rightarrow> event \<Rightarrow> poller \<Rightarrow> poller \<times> (io_error, unit) result" where
  "reregister_read r tk ev p =
     (set_reg r tk Readable (p\<lparr>events_reg_read := hm_insert tk ev (events_reg_read p)\<rparr>), reg_result r)"

definition reregister_rw ::
  "io_error option \<Rightarrow> token \<Rightarrow> event \<Rightarrow> event \<Rightarrow> poller \<Rightarrow> poller \<times> (io_error, unit) result" where
  "reregister_rw r tk read_ev write_ev p =
     (set_reg r tk ReadableWritable
        (p\<lparr>events_reg_read := hm_insert tk read_ev (events_reg_read p),
           events_reg_write := hm_insert tk write_ev (events_reg_write p)\<rparr>), reg_result r)"

definition timer_event :: "token \<Rightarrow> systime \<Rightarrow> event \<Rightarrow> poller \<Rightarrow> poller" where
  "timer_event tk tmo ev p =
     p\<lparr>timerq := timer_push \<lparr>te_token = tk, te_timeout = tmo, te_event = ev\<rparr> (timerq p)\<rparr>"

section \<open>Timers fire when due\<close>

lemma pop_expired_popping:
  "popping timer_peek timer_pop now q (fst (pop_expired now q)) (snd (pop_expired now q))"
proof (induction now q rule: pop_expired.induct)
  case (1 now q)
  show ?case
  proof (cases "timer_peek q")
    case None
    then show ?thesis by (simp add: pop_expired.simps [of now q] popping_empty)
  next
    case (Some e)
    show ?thesis
    proof (cases "now < te_timeout e")
      case True
      with Some show ?thesis by (simp add: pop_expired.simps [of now q] popping_later)
    next
      case False
      from "1.IH" [OF Some False] Some False show ?thesis
        by (simp add: pop_expired.simps [of now q] popping_due split_beta)
    qed
  qed
qed

lemma pop_expired_spec:
  assumes "timer_inv q" and "pop_expired now q = (es, q')"
  shows "mset es = filter_mset (\<lambda>e. te_timeout e \<le> now) (mset q) \<and>
    mset q' = filter_mset (\<lambda>e. \<not> te_timeout e \<le> now) (mset q) \<and>
    sorted (map te_timeout es) \<and> timer_inv q'"
  using th.popping_spec [OF pop_expired_popping assms(1), of now] assms(2) by simp

section \<open>Registrations are used once\<close>

definition fired :: "poller \<Rightarrow> mio_event \<Rightarrow> (token \<times> event) list" where
  "fired p m =
     (if me_readable m then [(me_token m, the (hm_get (events_reg_read p) (me_token m)))] else [])
     @ (if me_writable m then [(me_token m, the (hm_get (events_reg_write p) (me_token m)))] else [])"

text \<open>mio reports only what is registered, once per source.\<close>

definition mio_expected :: "poller \<Rightarrow> mio_event list \<Rightarrow> bool" where
  "mio_expected p ms \<longleftrightarrow>
     distinct (map me_token ms) \<and>
     (\<forall>m \<in> set ms. (me_readable m \<longrightarrow> hm_get (events_reg_read p) (me_token m) \<noteq> None) \<and>
        (me_writable m \<longrightarrow> hm_get (events_reg_write p) (me_token m) \<noteq> None))"

definition use_up :: "mio_event \<Rightarrow> poller \<Rightarrow> poller" where
  "use_up m p =
     p\<lparr>events_reg_read := (if me_readable m then hm_delete (me_token m) (events_reg_read p) else events_reg_read p),
       events_reg_write := (if me_writable m then hm_delete (me_token m) (events_reg_write p) else events_reg_write p)\<rparr>"

lemma take_mio_events_eq:
  "mio_expected p ms \<Longrightarrow>
   take_mio_events ms p evs = Ret (fold use_up ms p, evs @ concat (map (fired p) ms))"
proof (induction ms arbitrary: p evs)
  case Nil
  then show ?case by simp
next
  case (Cons m ms)
  have get: "\<forall>x \<in> set ms. hm_get (events_reg_read (use_up m p)) (me_token x) = hm_get (events_reg_read p) (me_token x) \<and>
      hm_get (events_reg_write (use_up m p)) (me_token x) = hm_get (events_reg_write p) (me_token x)"
  proof
    fix x assume "x \<in> set ms"
    with Cons.prems have "me_token x \<noteq> me_token m" unfolding mio_expected_def by (metis distinct.simps(2) image_eqI list.simps(9) set_map)
    then show "hm_get (events_reg_read (use_up m p)) (me_token x) = hm_get (events_reg_read p) (me_token x) \<and>
      hm_get (events_reg_write (use_up m p)) (me_token x) = hm_get (events_reg_write p) (me_token x)"
      by (simp add: use_up_def)
  qed
  then have fi: "map (fired (use_up m p)) ms = map (fired p) ms" by (auto simp: fired_def)
  have "mio_expected (use_up m p) ms" using Cons.prems get by (simp add: mio_expected_def)
  from Cons.IH [OF this] fi
  have ih: "take_mio_events ms (use_up m p) evs' =
      Ret (fold use_up ms (use_up m p), evs' @ concat (map (fired p) ms))" for evs' by simp
  have "take_mio_events (m # ms) p evs = take_mio_events ms (use_up m p) (evs @ fired p m)"
    using Cons.prems by (cases "me_readable m"; cases "me_writable m")
      (auto simp: mio_expected_def use_up_def fired_def)
  with ih show ?case by simp
qed

lemma fold_use_up_simps [simp]:
  "timerq (fold use_up ms p) = timerq p" "poll_reg (fold use_up ms p) = poll_reg p"
  by (induction ms arbitrary: p) (simp_all add: use_up_def)

lemma fold_use_up_other:
  "tk \<notin> me_token ` set ms \<Longrightarrow>
   hm_get (events_reg_read (fold use_up ms p)) tk = hm_get (events_reg_read p) tk \<and>
   hm_get (events_reg_write (fold use_up ms p)) tk = hm_get (events_reg_write p) tk"
  by (induction ms arbitrary: p) (auto simp: use_up_def)

lemma fold_use_up_gone:
  "m \<in> set ms \<Longrightarrow>
   (me_readable m \<longrightarrow> hm_get (events_reg_read (fold use_up ms p)) (me_token m) = None) \<and>
   (me_writable m \<longrightarrow> hm_get (events_reg_write (fold use_up ms p)) (me_token m) = None)"
proof -
  have keep: "hm_get (events_reg_read p) tk = None \<longrightarrow> hm_get (events_reg_read (fold use_up ms p)) tk = None"
    "hm_get (events_reg_write p) tk = None \<longrightarrow> hm_get (events_reg_write (fold use_up ms p)) tk = None" for tk p ms
    by (induction ms arbitrary: p) (auto simp: use_up_def)
  show "m \<in> set ms \<Longrightarrow> ?thesis"
    by (induction ms arbitrary: p) (use keep in \<open>auto simp: use_up_def\<close>)
qed

text \<open>The whole tick, when nothing goes wrong.\<close>

lemma tick_eq:
  assumes "mio_expected p ms" and "pop_expired now (timerq p) = (due, q)"
  shows "tick now None ms evs p =
     Ret (fold use_up ms (p\<lparr>timerq := q\<rparr>),
          evs @ map (\<lambda>e. (te_token e, te_event e)) due @ concat (map (fired p) ms), Ok ())"
proof -
  have e: "mio_expected (p\<lparr>timerq := q\<rparr>) ms" using assms(1) by (simp add: mio_expected_def)
  have "fired (p\<lparr>timerq := q\<rparr>) = fired p" by (simp add: fired_def fun_eq_iff)
  with take_mio_events_eq [OF e] assms(2) show ?thesis by (simp add: tick_def Let_def)
qed

text \<open>Each readiness event of mio becomes the one event that was registered for it, read
  before write, after the timers; that registration is then used up and all others stand. The
  \<open>expect\<close>s fail only when mio reports a source twice or an interest that is not registered.\<close>

theorem registrations_fire_once:
  assumes "mio_expected p ms"
  shows "\<exists>p' due q. pop_expired now (timerq p) = (due, q) \<and>
     tick now None ms [] p =
       Ret (p', map (\<lambda>e. (te_token e, te_event e)) due @ concat (map (fired p) ms), Ok ()) \<and>
     (\<forall>tk. tk \<notin> me_token ` set ms \<longrightarrow>
        hm_get (events_reg_read p') tk = hm_get (events_reg_read p) tk \<and>
        hm_get (events_reg_write p') tk = hm_get (events_reg_write p) tk) \<and>
     (\<forall>m \<in> set ms. (me_readable m \<longrightarrow> hm_get (events_reg_read p') (me_token m) = None) \<and>
        (me_writable m \<longrightarrow> hm_get (events_reg_write p') (me_token m) = None))"
proof -
  obtain due q where d: "pop_expired now (timerq p) = (due, q)" by (cases "pop_expired now (timerq p)")
  have "\<forall>tk. tk \<notin> me_token ` set ms \<longrightarrow>
      hm_get (events_reg_read (fold use_up ms (p\<lparr>timerq := q\<rparr>))) tk = hm_get (events_reg_read p) tk \<and>
      hm_get (events_reg_write (fold use_up ms (p\<lparr>timerq := q\<rparr>))) tk = hm_get (events_reg_write p) tk"
    using fold_use_up_other [of _ ms "p\<lparr>timerq := q\<rparr>"] by simp
  with d tick_eq [OF assms d, of "[]"] fold_use_up_gone [of _ ms "p\<lparr>timerq := q\<rparr>"] show ?thesis by fastforce
qed


section \<open>Examples\<close>

text \<open>One stream to read, one to write, and two timers.\<close>

definition busy_poller :: poller where
  "busy_poller =
     timer_event (Token 7) (from_secs 4) PythonCodeTimeout
       (timer_event (Token 5) (from_secs 9) RequestReadTimeout
         (fst (register_write None (Token 6) ServerStreamWrite
           (fst (register_read None (Token 5) ServerStreamRead poller_new)))))"

lemma busy_poller_simps [simp]:
  "events_reg_read busy_poller = [(Token 5, ServerStreamRead)]"
  "events_reg_write busy_poller = [(Token 6, ServerStreamWrite)]"
  "timerq busy_poller =
     [\<lparr>te_token = Token 7, te_timeout = from_secs 4, te_event = PythonCodeTimeout\<rparr>,
      \<lparr>te_token = Token 5, te_timeout = from_secs 9, te_event = RequestReadTimeout\<rparr>]"
  by (simp_all add: busy_poller_def timer_event_def register_read_def register_write_def set_reg_def
      poller_new_def hm_insert_def hm_delete_def from_secs_def)

theorem registrations_fire_once_witness:
  "\<exists>p'. tick 0 None [\<lparr>me_token = Token 6, me_readable = False, me_writable = True\<rparr>] [] busy_poller =
     Ret (p', [(Token 6, ServerStreamWrite)], Ok ())"
proof -
  have "mio_expected busy_poller [\<lparr>me_token = Token 6, me_readable = False, me_writable = True\<rparr>]"
    by (simp add: mio_expected_def hm_get_def)
  from registrations_fire_once [OF this, of 0] show ?thesis
    by (auto simp: fired_def hm_get_def pop_expired.simps timer_peek_def from_secs_def)
qed


end
