(* ===== verification/ServerReader.thy ===== *)
theory ServerReader
  imports Http Msgs
begin

text \<open>
  \<open>src/worker/serverreader.rs\<close>: a request is read from its TCP stream in as many pieces as
  the kernel delivers, first the header, then a body of \<open>Content-Length\<close> bytes. The parsers
  of \<open>httparse\<close> and \<open>http_types\<close>, the \<open>hex\<close> encoder and the random bytes are arguments.
\<close>

section \<open>What comes from outside\<close>

record raw_request =
  raw_method :: string
  raw_path :: string
  raw_headers :: "(string \<times> bytes) list"

datatype parsed = ParseErr string | ParsePartial | ParseComplete nat raw_request

record http_lib =
  parse_request :: "bytes \<Rightarrow> parsed"
  parse_method :: "string \<Rightarrow> string option"
  parse_url :: "string \<Rightarrow> url option"
  hex_encode :: "bytes \<Rightarrow> string"
  rng16 :: bytes
  rng8 :: bytes

section \<open>The trace context\<close>

text \<open>The loop over the parts of the header; an error leaves it.\<close>

fun context_parts :: "nat \<Rightarrow> string list \<Rightarrow> string \<Rightarrow> string \<Rightarrow> (string, string \<times> string) result" where
  "context_parts n [] tid pid = Ok (tid, pid)"
| "context_parts n (v # vs) tid pid =
     (if n = 0 then
        (if v \<noteq> ''00'' then Err ''unsupported traceparent version'' else context_parts (n + 1) vs tid pid)
      else if n = 1 then context_parts (n + 1) vs v pid
      else if n = 2 then context_parts (n + 1) vs tid v
      else if n = 3 then context_parts (n + 1) vs tid pid
      else Err ''traceparent header should have four parts'')"

definition hex_chars :: string where
  "hex_chars = ''0123456789abcdef''"

definition parse_context :: "http_lib \<Rightarrow> string \<Rightarrow> (string, trace_ctx) result" where
  "parse_context lib val =
     (case context_parts 0 (split_at_char (CHR ''-'') val) [] [] of
        Err e \<Rightarrow> Err e
      | Ok (tid, pid) \<Rightarrow>
          if length tid \<noteq> 32 \<or> length pid \<noteq> 16 then Err ''badly formed traceparent header''
          else if \<not> list_all (\<lambda>c. c \<in> set hex_chars) tid then Err ''trace_id is not a hexstring''
          else if \<not> list_all (\<lambda>c. c \<in> set hex_chars) pid then Err ''parent_id is not a hexstring''
          else Ok (context_from_vals (hex_encode lib) (rng8 lib) tid pid))"

section \<open>The header\<close>

definition starts_with :: "string \<Rightarrow> string \<Rightarrow> bool" where
  "starts_with s p \<longleftrightarrow> take (length p) s = p"

definition request_url :: "http_lib \<Rightarrow> string \<Rightarrow> string \<Rightarrow> (http_error, url) result" where
  "request_url lib host path =
     (if starts_with path ''http://'' \<or> starts_with path ''https://'' then
        (case parse_url lib path of Some u \<Rightarrow> Ok u | None \<Rightarrow> Err (BadValue ''invalid http path''))
      else if starts_with path ''/'' then
        (case parse_url lib (''http://'' @ host @ path) of
           Some u \<Rightarrow> Ok u
         | None \<Rightarrow> Err (BadValue ''invalid path in http header''))
      else Err (BadValue ''invalid path in http header''))"

record partial_req =
  pr_method :: string
  pr_headers :: "(string \<times> string) list"
  pr_url :: url
  pr_content_type :: "string option"
  pr_content_length :: nat
  pr_keep_alive :: bool
  pr_body :: bytes
  pr_bytes_read :: nat
  pr_context :: trace_ctx

text \<open>The variables of the loop over the headers.\<close>

record header_vars =
  hv_content_type :: "string option"
  hv_host :: "string option"
  hv_keep_alive :: bool
  hv_content_length :: nat
  hv_context :: "trace_ctx option"
  hv_headers :: "(string \<times> string) list"

definition header_vars_init :: header_vars where
  "header_vars_init =
     \<lparr>hv_content_type = None, hv_host = None, hv_keep_alive = True, hv_content_length = 0,
      hv_context = None, hv_headers = []\<rparr>"

definition named :: "string \<Rightarrow> string \<times> bytes \<Rightarrow> bool" where
  "named n h \<longleftrightarrow> eq_ignore_ascii_case (fst h) n"

text \<open>The rest of the loop's body, once the value is known to be UTF-8.\<close>

definition header_rest :: "http_lib \<Rightarrow> string \<times> bytes \<Rightarrow> header_vars \<Rightarrow> header_vars" where
  "header_rest lib h v =
     (let v = (if named ''Host'' h then v\<lparr>hv_host := Some (snd h)\<rparr> else v);
          v = (if named ''Traceparent'' h then
                 (case parse_context lib (snd h) of Ok ctx \<Rightarrow> v\<lparr>hv_context := Some ctx\<rparr> | Err _ \<Rightarrow> v)
               else v);
          v = (if named ''Connection'' h \<and> eq_ignore_ascii_case (snd h) ''Close''
               then v\<lparr>hv_keep_alive := False\<rparr> else v)
      in v\<lparr>hv_headers := hv_headers v @ [h]\<rparr>)"

fun header_loop :: "http_lib \<Rightarrow> (string \<times> bytes) list \<Rightarrow> header_vars \<Rightarrow> (http_error, header_vars) result" where
  "header_loop lib [] v = Ok v"
| "header_loop lib (h # hs) v =
     (if \<not> utf8_valid (snd h) then Err (BadValue ''header value not utf8'')
      else
        (let v = (if named ''Content-Type'' h then v\<lparr>hv_content_type := Some (snd h)\<rparr> else v)
         in if named ''Content-Length'' h then
              (case parse_usize (snd h) of
                 None \<Rightarrow> Err (BadValue ''Content-Length not uint'')
               | Some n \<Rightarrow> header_loop lib hs (header_rest lib h (v\<lparr>hv_content_length := n\<rparr>)))
            else header_loop lib hs (header_rest lib h v)))"

definition partial_new :: "http_lib \<Rightarrow> raw_request \<Rightarrow> (http_error, partial_req) result" where
  "partial_new lib raw =
     (case parse_method lib (raw_method raw) of
        None \<Rightarrow> Err (BadValue ''http request with unrecognised method'')
      | Some meth \<Rightarrow>
          (case header_loop lib (raw_headers raw) header_vars_init of
             Err e \<Rightarrow> Err e
           | Ok v \<Rightarrow>
               (case hv_host v of
                  None \<Rightarrow> Err (BadValue ''http request missing host header'')
                | Some host \<Rightarrow>
                    (case request_url lib host (raw_path raw) of
                       Err e \<Rightarrow> Err e
                     | Ok u \<Rightarrow>
                         Ok \<lparr>pr_method = meth, pr_headers = hv_headers v, pr_url = u,
                             pr_content_type = hv_content_type v,
                             pr_content_length = hv_content_length v,
                             pr_keep_alive = hv_keep_alive v, pr_body = [], pr_bytes_read = 0,
                             pr_context = (case hv_context v of
                                             Some ctx \<Rightarrow> ctx
                                           | None \<Rightarrow> context_new (hex_encode lib) (rng16 lib) (rng8 lib))\<rparr>))))"

section \<open>The body\<close>

text \<open>\<open>Vec::reserve\<close> panics when the capacity would exceed \<open>isize::MAX\<close> bytes.\<close>

definition take_body :: "bytes \<Rightarrow> nat \<Rightarrow> partial_req \<Rightarrow> (http_error, partial_req) result exec" where
  "take_body buffer header_size pr =
     (if pr_content_length pr < length (drop header_size buffer)
      then Ret (Err (BadValue ''content-length too large''))
      else if isize_max < pr_content_length pr then Panic ''capacity overflow''
      else
        (let body = pr_body pr @ drop header_size buffer
         in Ret (Ok (pr\<lparr>pr_body := take (pr_content_length pr) body
                          @ replicate (pr_content_length pr - length body) (CHR 0x00),
                        pr_bytes_read := length buffer - header_size\<rparr>))))"

definition read_body :: "(io_error, bytes) result \<Rightarrow> partial_req \<Rightarrow> (http_error, partial_req) result" where
  "read_body res pr =
     (case res of
        Err e \<Rightarrow> Err (HttpIo ''failed to ready request body on tcp stream'' e)
      | Ok bs \<Rightarrow>
          if bs = [] then Err (BadValue ''stream EOF without complete body'')
          else Ok (pr\<lparr>pr_body := store_read (pr_body pr) (pr_bytes_read pr) bs,
                      pr_bytes_read := pr_bytes_read pr + length bs\<rparr>))"

definition is_done :: "partial_req \<Rightarrow> bool" where
  "is_done pr \<longleftrightarrow> pr_bytes_read pr = pr_content_length pr"

definition into_request :: "partial_req \<Rightarrow> http_request" where
  "into_request pr =
     \<lparr>req_method = pr_method pr, req_url = pr_url pr, req_headers = pr_headers pr,
      req_context = pr_context pr, req_keep_alive = pr_keep_alive pr,
      req_content_type = pr_content_type pr, req_content_length = pr_content_length pr,
      req_body = Some (pr_body pr)\<rparr>"

section \<open>The reader\<close>

datatype reader = Begin nat bytes | HaveHeader partial_req

datatype read_state = ReadPartial reader | ReadComplete http_request | StreamEOF

definition reader_new :: reader where
  "reader_new = Begin 0 (replicate 2048 (CHR 0x00))"

definition grow_header :: "nat \<Rightarrow> bytes \<Rightarrow> bytes" where
  "grow_header buf_len buf =
     (if length buf - buf_len < 1024 then buf @ replicate (length buf) (CHR 0x00) else buf)"

text \<open>\<open>is_done\<close> decides how a step ends.\<close>

definition done_or_partial :: "partial_req \<Rightarrow> read_state" where
  "done_or_partial pr =
     (if is_done pr then ReadComplete (into_request pr) else ReadPartial (HaveHeader pr))"

definition read_header ::
  "http_lib \<Rightarrow> nat \<Rightarrow> bytes \<Rightarrow> (io_error, bytes) result \<Rightarrow> (http_error, read_state) result exec" where
  "read_header lib buf_len buf0 res =
     (let buf = grow_header buf_len buf0
      in case res of
           Err e \<Rightarrow> Ret (Err (HttpIo ''failed to read tcp stream for server request'' e))
         | Ok bs \<Rightarrow>
             if bs = [] then Ret (Ok StreamEOF)
             else
               (let buf = store_read buf buf_len bs;
                    buf_len = buf_len + length bs
                in case parse_request lib (take buf_len buf) of
                     ParseErr e \<Rightarrow> Ret (Err (HeaderParse e))
                   | ParsePartial \<Rightarrow> Ret (Ok (ReadPartial (Begin buf_len buf)))
                   | ParseComplete header_size raw \<Rightarrow>
                       (case partial_new lib raw of
                          Err e \<Rightarrow> Ret (Err e)
                        | Ok pr \<Rightarrow>
                            exec_bind (take_body (take buf_len buf) header_size pr)
                              (\<lambda>r. case r of
                                     Err e \<Rightarrow> Ret (Err e)
                                   | Ok pr \<Rightarrow> Ret (Ok (done_or_partial pr))))))"

definition read_tcp_stream ::
  "http_lib \<Rightarrow> (io_error, bytes) result \<Rightarrow> reader \<Rightarrow> (http_error, read_state) result exec" where
  "read_tcp_stream lib res rd =
     (case rd of
        Begin buf_len buf \<Rightarrow> read_header lib buf_len buf res
      | HaveHeader pr \<Rightarrow>
          (case read_body res pr of
             Err e \<Rightarrow> Ret (Err e)
           | Ok pr \<Rightarrow> Ret (Ok (done_or_partial pr))))"

text \<open>The room of the slice given to \<open>read\<close>.\<close>

definition read_space :: "reader \<Rightarrow> nat" where
  "read_space rd =
     (case rd of
        Begin buf_len buf \<Rightarrow> length (grow_header buf_len buf) - buf_len
      | HaveHeader pr \<Rightarrow> length (pr_body pr) - pr_bytes_read pr)"

section \<open>One read\<close>

definition reader_inv :: "reader \<Rightarrow> bool" where
  "reader_inv rd \<longleftrightarrow>
     (case rd of
        Begin buf_len buf \<Rightarrow> buf_len \<le> length buf \<and> 2048 \<le> length buf
      | HaveHeader pr \<Rightarrow>
          length (pr_body pr) = pr_content_length pr \<and> pr_bytes_read pr < pr_content_length pr)"

text \<open>\<open>httparse\<close> reports how many of the bytes it was given form the header.\<close>

definition lib_sizes :: "http_lib \<Rightarrow> bool" where
  "lib_sizes lib \<longleftrightarrow> (\<forall>b k raw. parse_request lib b = ParseComplete k raw \<longrightarrow> k \<le> length b)"

definition read_fits :: "(io_error, bytes) result \<Rightarrow> reader \<Rightarrow> bool" where
  "read_fits res rd \<longleftrightarrow> (\<forall>bs. res = Ok bs \<longrightarrow> length bs \<le> read_space rd)"

lemma length_grow_header: "length buf \<le> length (grow_header n buf)"
  by (simp add: grow_header_def)

lemma grow_header_room: "n \<le> length buf \<Longrightarrow> 2048 \<le> length buf \<Longrightarrow> 1024 \<le> length (grow_header n buf) - n"
  by (auto simp: grow_header_def)

lemma take_grow_header: "n \<le> length buf \<Longrightarrow> take n (grow_header n buf) = take n buf"
  by (simp add: grow_header_def)

lemma read_space_pos: "reader_inv rd \<Longrightarrow> 0 < read_space rd"
  by (cases rd) (use grow_header_room in \<open>fastforce simp: reader_inv_def read_space_def\<close>)+

lemma reader_new_inv [simp]: "reader_inv reader_new"
  by (simp add: reader_inv_def reader_new_def)

lemma header_loop_length: "header_loop lib hs v = Ok v' \<Longrightarrow> hv_content_length v < usize_bound \<Longrightarrow>
    hv_content_length v' < usize_bound"
proof (induction lib hs v rule: header_loop.induct)
  case (2 lib h hs v)
  then show ?case
    by (auto simp: Let_def header_rest_def dest: parse_usize_bound
        split: if_splits option.splits result.splits)
qed simp

lemma partial_new_fields:
  "partial_new lib raw = Ok pr \<Longrightarrow> pr_body pr = [] \<and> pr_bytes_read pr = 0"
  by (auto simp: partial_new_def split: option.splits result.splits)

lemma done_or_partial_inv:
  assumes "length (pr_body pr) = pr_content_length pr" and "pr_bytes_read pr \<le> pr_content_length pr"
    and "done_or_partial pr = ReadPartial rd"
  shows "reader_inv rd"
  using assms by (auto simp: done_or_partial_def is_done_def reader_inv_def split: if_splits)

lemma take_body_Ok:
  assumes "take_body buffer k pr = Ret (Ok pr')" and "k \<le> length buffer" and "pr_body pr = []"
  shows "length (drop k buffer) \<le> pr_content_length pr \<and>
    pr' = pr\<lparr>pr_body := drop k buffer @ replicate (pr_content_length pr - length (drop k buffer)) (CHR 0x00),
             pr_bytes_read := length (drop k buffer)\<rparr>"
  using assms by (auto simp: take_body_def Let_def split: if_splits)

text \<open>The three ways a piece of the header can be taken.\<close>

definition after_header :: "http_lib \<Rightarrow> bytes \<Rightarrow> nat \<Rightarrow> raw_request \<Rightarrow> (http_error, read_state) result exec" where
  "after_header lib b k raw =
     (case partial_new lib raw of
        Err e \<Rightarrow> Ret (Err e)
      | Ok pr \<Rightarrow> exec_bind (take_body b k pr)
          (\<lambda>r. case r of Err e \<Rightarrow> Ret (Err e) | Ok pr \<Rightarrow> Ret (Ok (done_or_partial pr))))"

lemma after_header_Partial:
  assumes "after_header lib b k raw = Ret (Ok st)" and "k \<le> length b"
  obtains pr where "partial_new lib raw = Ok pr" "length (drop k b) \<le> pr_content_length pr"
    "st = done_or_partial (pr\<lparr>pr_body := drop k b @ replicate (pr_content_length pr - length (drop k b)) (CHR 0x00),
             pr_bytes_read := length (drop k b)\<rparr>)"
proof (cases "partial_new lib raw")
  case (Err e)
  with assms show ?thesis by (simp add: after_header_def)
next
  case (Ok pr)
  with assms(1) obtain pr' where pr': "take_body b k pr = Ret (Ok pr')" "st = done_or_partial pr'"
    by (cases "take_body b k pr") (auto simp: after_header_def split: result.splits)
  with take_body_Ok [OF pr'(1) assms(2)] partial_new_fields [OF Ok] Ok show ?thesis
    by (intro that [of pr]) simp_all
qed

lemma read_tcp_stream_Begin:
  assumes "n \<le> length buf" and "length bs \<le> read_space (Begin n buf)" and "bs \<noteq> []"
  obtains g where "n + length bs \<le> length g" "length buf \<le> length g"
    "take (n + length bs) g = take n buf @ bs"
    "read_tcp_stream lib (Ok bs) (Begin n buf) =
     (case parse_request lib (take n buf @ bs) of
        ParseErr e \<Rightarrow> Ret (Err (HeaderParse e))
      | ParsePartial \<Rightarrow> Ret (Ok (ReadPartial (Begin (n + length bs) g)))
      | ParseComplete k raw \<Rightarrow> after_header lib (take n buf @ bs) k raw)"
proof
  let ?g = "store_read (grow_header n buf) n bs"
  have fit: "n + length bs \<le> length (grow_header n buf)"
    using assms length_grow_header [of buf n] by (simp add: read_space_def)
  show "n + length bs \<le> length ?g" using fit by simp
  show "length buf \<le> length ?g" using fit length_grow_header [of buf n] by simp
  show t: "take (n + length bs) ?g = take n buf @ bs"
    using fit assms(1) by (simp add: take_store_read take_grow_header)
  show "read_tcp_stream lib (Ok bs) (Begin n buf) =
     (case parse_request lib (take n buf @ bs) of
        ParseErr e \<Rightarrow> Ret (Err (HeaderParse e))
      | ParsePartial \<Rightarrow> Ret (Ok (ReadPartial (Begin (n + length bs) ?g)))
      | ParseComplete k raw \<Rightarrow> after_header lib (take n buf @ bs) k raw)"
    using assms(3)
    by (simp add: read_tcp_stream_def read_header_def Let_def t after_header_def
        split: parsed.split result.split)
qed

lemma read_tcp_stream_body:
  assumes "read_tcp_stream lib res (HaveHeader pr) = Ret (Ok st)"
  obtains bs where "res = Ok bs" "bs \<noteq> []"
    "st = done_or_partial (pr\<lparr>pr_body := store_read (pr_body pr) (pr_bytes_read pr) bs,
        pr_bytes_read := pr_bytes_read pr + length bs\<rparr>)"
  using assms by (auto simp: read_tcp_stream_def read_body_def split: result.splits if_splits)

lemma read_tcp_stream_EOF: "read_tcp_stream lib (Ok []) (Begin n buf) = Ret (Ok StreamEOF)"
  by (simp add: read_tcp_stream_def read_header_def Let_def)

lemma read_tcp_stream_Err:
  "read_tcp_stream lib (Err e) (Begin n buf) =
     Ret (Err (HttpIo ''failed to read tcp stream for server request'' e))"
  by (simp add: read_tcp_stream_def read_header_def Let_def)

lemma done_or_partial_simps [simp]: "done_or_partial pr \<noteq> StreamEOF" "StreamEOF \<noteq> done_or_partial pr"
  by (simp_all add: done_or_partial_def)

lemma read_tcp_stream_inv:
  assumes "reader_inv rd" and "read_fits res rd" and "lib_sizes lib"
    and "read_tcp_stream lib res rd = Ret (Ok (ReadPartial rd'))"
  shows "reader_inv rd'"
proof (cases rd)
  case (Begin n buf)
  from assms(4) Begin obtain bs where bs: "res = Ok bs"
    by (cases res) (simp_all add: read_tcp_stream_Err)
  with assms(4) Begin have "bs \<noteq> []" by (auto simp: read_tcp_stream_EOF)
  note bs = bs this
  have n: "n \<le> length buf" "2048 \<le> length buf"
    using assms(1) Begin by (simp_all add: reader_inv_def)
  have fit: "length bs \<le> read_space (Begin n buf)" using assms(2) bs Begin by (simp add: read_fits_def)
  from read_tcp_stream_Begin [OF n(1) fit bs(2), of lib] obtain g where
    g: "n + length bs \<le> length g" "length buf \<le> length g" and
    step: "read_tcp_stream lib (Ok bs) (Begin n buf) =
     (case parse_request lib (take n buf @ bs) of
        ParseErr e \<Rightarrow> Ret (Err (HeaderParse e))
      | ParsePartial \<Rightarrow> Ret (Ok (ReadPartial (Begin (n + length bs) g)))
      | ParseComplete k raw \<Rightarrow> after_header lib (take n buf @ bs) k raw)" by blast
  show ?thesis
  proof (cases "parse_request lib (take n buf @ bs)")
    case (ParseErr e)
    with step assms(4) bs Begin show ?thesis by simp
  next
    case ParsePartial
    with step assms(4) bs Begin have "rd' = Begin (n + length bs) g" by simp
    with g n show ?thesis by (simp add: reader_inv_def)
  next
    case (ParseComplete k raw)
    with step assms(4) bs Begin
    have ah: "after_header lib (take n buf @ bs) k raw = Ret (Ok (ReadPartial rd'))" by simp
    have "k \<le> length (take n buf @ bs)" using ParseComplete assms(3) unfolding lib_sizes_def by blast
    from after_header_Partial [OF ah this] obtain pr where
      "length (drop k (take n buf @ bs)) \<le> pr_content_length pr" and
      pr: "ReadPartial rd' = done_or_partial (pr\<lparr>pr_body := drop k (take n buf @ bs)
             @ replicate (pr_content_length pr - length (drop k (take n buf @ bs))) (CHR 0x00),
             pr_bytes_read := length (drop k (take n buf @ bs))\<rparr>)" by blast
    then show ?thesis by (intro done_or_partial_inv [OF _ _ pr [symmetric]]) simp_all
  qed
next
  case (HaveHeader pr)
  from read_tcp_stream_body [OF assms(4) [unfolded HaveHeader]] obtain bs where
    bs: "res = Ok bs" "ReadPartial rd' = done_or_partial (pr\<lparr>pr_body := store_read (pr_body pr) (pr_bytes_read pr) bs,
        pr_bytes_read := pr_bytes_read pr + length bs\<rparr>)" by blast
  have "length bs \<le> length (pr_body pr) - pr_bytes_read pr"
    using assms(2) bs HaveHeader by (simp add: read_fits_def read_space_def)
  with assms(1) HaveHeader show ?thesis
    by (intro done_or_partial_inv [OF _ _ bs(2) [symmetric]]) (auto simp: reader_inv_def)
qed

end
