(* ===== verification/ReaderProps.thy ===== *)
theory ReaderProps
  imports ServerReader
begin

text \<open>
  What the request reader guarantees: a request is the same however its bytes are cut into
  reads; the fields of a request as functions of its header lines; the trace contexts that
  are accepted; and the inputs on which it fails or panics.
\<close>

section \<open>Reassembly\<close>

fun rd_feed :: "http_lib \<Rightarrow> bytes list \<Rightarrow> read_state \<Rightarrow> (http_error, read_state) result exec" where
  "rd_feed lib [] st = Ret (Ok st)"
| "rd_feed lib (c # cs) st =
     (case st of
        ReadPartial rd \<Rightarrow>
          exec_bind (read_tcp_stream lib (Ok c) rd)
            (\<lambda>r. case r of Err e \<Rightarrow> Ret (Err e) | Ok st \<Rightarrow> rd_feed lib cs st)
      | _ \<Rightarrow> Ret (Ok st))"

text \<open>Every read returned some bytes, and no more than its slice could hold.\<close>

fun rd_fits :: "http_lib \<Rightarrow> bytes list \<Rightarrow> read_state \<Rightarrow> bool" where
  "rd_fits lib [] st \<longleftrightarrow> True"
| "rd_fits lib (c # cs) st \<longleftrightarrow>
     c \<noteq> [] \<and>
     (case st of
        ReadPartial rd \<Rightarrow>
          length c \<le> read_space rd \<and>
          (case read_tcp_stream lib (Ok c) rd of Ret (Ok st) \<Rightarrow> rd_fits lib cs st | _ \<Rightarrow> True)
      | _ \<Rightarrow> True)"

text \<open>
  \<open>hd\<close> is the text of a header with the fields \<open>raw\<close>: \<open>httparse\<close> wants more for every
  proper prefix of it, and reports its size when it is there, whatever follows.
\<close>

definition header_text :: "http_lib \<Rightarrow> bytes \<Rightarrow> raw_request \<Rightarrow> bool" where
  "header_text lib hdr raw \<longleftrightarrow>
     hdr \<noteq> [] \<and>
     (\<forall>k. 0 < k \<and> k < length hdr \<longrightarrow> parse_request lib (take k hdr) = ParsePartial) \<and>
     (\<forall>rest. parse_request lib (hdr @ rest) = ParseComplete (length hdr) raw)"

text \<open>The request after \<open>b\<close> of its body.\<close>

definition with_body :: "bytes \<Rightarrow> partial_req \<Rightarrow> partial_req" where
  "with_body b pr =
     pr\<lparr>pr_body := b @ replicate (pr_content_length pr - length b) (CHR 0x00), pr_bytes_read := length b\<rparr>"

definition read_point :: "bytes \<Rightarrow> partial_req \<Rightarrow> bytes \<Rightarrow> read_state \<Rightarrow> bool" where
  "read_point hdr pr s st \<longleftrightarrow>
     (if length s < length hdr
      then \<exists>n buf. st = ReadPartial (Begin n buf) \<and> reader_inv (Begin n buf) \<and> take n buf = s
      else st = done_or_partial (with_body (drop (length hdr) s) pr))"

lemma with_body_store:
  assumes "length b + length c \<le> pr_content_length pr"
  shows "(with_body b pr)\<lparr>pr_body := store_read (pr_body (with_body b pr)) (pr_bytes_read (with_body b pr)) c,
      pr_bytes_read := pr_bytes_read (with_body b pr) + length c\<rparr> = with_body (b @ c) pr"
proof -
  have "pr_content_length pr - length b - length c = pr_content_length pr - (length b + length c)" by simp
  then show ?thesis by (simp add: with_body_def store_read_def)
qed

lemma read_point_header:
  assumes "header_text lib hdr raw" and "partial_new lib raw = Ok pr"
    and "pr_content_length pr \<le> isize_max" and "hdr @ body = s @ c @ rest" and "length body = pr_content_length pr"
    and "reader_inv (Begin n buf)" "take n buf = s" "length s < length hdr"
    and "c \<noteq> []" and "length c \<le> read_space (Begin n buf)"
  shows "\<exists>st. read_tcp_stream lib (Ok c) (Begin n buf) = Ret (Ok st) \<and> read_point hdr pr (s @ c) st"
proof -
  have n: "n \<le> length buf" "2048 \<le> length buf" using assms(6) by (simp_all add: reader_inv_def)
  from read_tcp_stream_Begin [OF n(1) assms(10,9), of lib] obtain g where
    g: "n + length c \<le> length g" "length buf \<le> length g" "take (n + length c) g = s @ c" and
    step: "read_tcp_stream lib (Ok c) (Begin n buf) =
     (case parse_request lib (s @ c) of
        ParseErr e \<Rightarrow> Ret (Err (HeaderParse e))
      | ParsePartial \<Rightarrow> Ret (Ok (ReadPartial (Begin (n + length c) g)))
      | ParseComplete k raw \<Rightarrow> after_header lib (s @ c) k raw)"
    unfolding assms(7) by blast
  show ?thesis
  proof (cases "length (s @ c) < length hdr")
    case True
    have "s @ c = take (length (s @ c)) (hdr @ body)" unfolding assms(4) by simp
    also have "\<dots> = take (length (s @ c)) hdr" using True by simp
    finally have "parse_request lib (s @ c) = ParsePartial"
      using assms(1,9) True unfolding header_text_def by (metis append_is_Nil_conv length_greater_0_conv)
    with step g n True show ?thesis by (auto simp: read_point_def reader_inv_def)
  next
    case False
    then obtain t where t: "s @ c = hdr @ t" "body = t @ rest"
      using assms(4) by (metis append_assoc append_eq_append_conv_if append_eq_conv_conj
          append_take_drop_id not_less)
    have p: "parse_request lib (s @ c) = ParseComplete (length hdr) raw"
      using assms(1) t by (simp add: header_text_def)
    have "after_header lib (hdr @ t) (length hdr) raw = Ret (Ok (done_or_partial (with_body t pr)))"
      using assms(2,3,5) t partial_new_fields [OF assms(2)]
      by (simp add: after_header_def take_body_def Let_def with_body_def)
    with step p t False show ?thesis by (simp add: read_point_def)
  qed
qed

lemma read_point_step:
  assumes "header_text lib hdr raw" and "partial_new lib raw = Ok pr"
    and "pr_content_length pr \<le> isize_max" and "length body = pr_content_length pr"
    and "hdr @ body = s @ c @ rest" and "read_point hdr pr s (ReadPartial rd)"
    and "c \<noteq> []" and "length c \<le> read_space rd"
  shows "\<exists>st. read_tcp_stream lib (Ok c) rd = Ret (Ok st) \<and> read_point hdr pr (s @ c) st"
proof (cases "length s < length hdr")
  case True
  with assms(6) obtain n buf where "rd = Begin n buf" "reader_inv (Begin n buf)" "take n buf = s"
    by (auto simp: read_point_def)
  with read_point_header [OF assms(1-3,5,4) this(2,3) True assms(7)] assms(8) show ?thesis by blast
next
  case False
  let ?b = "drop (length hdr) s"
  from False assms(6) have rd: "rd = HaveHeader (with_body ?b pr)"
    by (auto simp: read_point_def done_or_partial_def split: if_splits)
  have "length s + length c \<le> length (hdr @ body)" unfolding assms(5) by simp
  with False assms(4) have "length ?b + length c \<le> pr_content_length pr" by auto
  from with_body_store [OF this] False assms(7) show ?thesis
    by (simp add: rd read_tcp_stream_def read_body_def read_point_def)
qed

lemma rd_feed_points:
  assumes "header_text lib hdr raw" and "partial_new lib raw = Ok pr"
    and "pr_content_length pr \<le> isize_max" and "length body = pr_content_length pr"
    and "hdr @ body = s @ concat cs" and "read_point hdr pr s st" and "rd_fits lib cs st"
  shows "rd_feed lib cs st = Ret (Ok (ReadComplete (into_request (pr\<lparr>pr_body := body, pr_bytes_read := length body\<rparr>))))"
  using assms(5-7)
proof (induction cs arbitrary: s st)
  case Nil
  then have "s = hdr @ body" by simp
  then have "\<not> length s < length hdr" "drop (length hdr) s = body" by simp_all
  with Nil.prems assms(4) show ?case
    by (simp add: read_point_def done_or_partial_def is_done_def with_body_def)
next
  case (Cons c cs)
  then have c: "c \<noteq> []" by simp
  show ?case
  proof (cases st)
    case (ReadPartial rd)
    with Cons.prems read_point_step [OF assms(1-4) _ _ c, of s "concat cs" rd]
    obtain st' where "read_tcp_stream lib (Ok c) rd = Ret (Ok st')" "read_point hdr pr (s @ c) st'" by auto
    with Cons ReadPartial show ?thesis by auto
  next
    case (ReadComplete q)
    with Cons.prems(2) have "\<not> length s < length hdr" "is_done (with_body (drop (length hdr) s) pr)"
      by (auto simp: read_point_def done_or_partial_def split: if_splits)
    then have "length s = length (hdr @ body)" using assms(4) by (simp add: is_done_def with_body_def)
    moreover have "length (hdr @ body) = length s + length c + length (concat cs)"
      unfolding Cons.prems(1) by simp
    ultimately show ?thesis using c by simp
  next
    case StreamEOF
    with Cons.prems(2) show ?thesis by (simp add: read_point_def split: if_splits)
  qed
qed

lemma request_reassembled_eq:
  assumes "header_text lib hdr raw" and "partial_new lib raw = Ok pr"
    and "pr_content_length pr \<le> isize_max" and "length body = pr_content_length pr"
    and "concat cs = hdr @ body" and "rd_fits lib cs (ReadPartial reader_new)"
  shows "rd_feed lib cs (ReadPartial reader_new) =
     Ret (Ok (ReadComplete (into_request (pr\<lparr>pr_body := body, pr_bytes_read := length body\<rparr>))))"
proof -
  have "read_point hdr pr [] (ReadPartial reader_new)"
    using assms(1) reader_new_inv by (auto simp: read_point_def reader_new_def header_text_def)
  from rd_feed_points [OF assms(1-4) _ this assms(6)] assms(5) show ?thesis by simp
qed

text \<open>Reads of at most a kilobyte always fit.\<close>

lemma rd_fits_points:
  assumes "header_text lib hdr raw" and "partial_new lib raw = Ok pr"
    and "pr_content_length pr \<le> isize_max" and "length body = pr_content_length pr"
    and "hdr @ body = s @ concat cs" and "read_point hdr pr s st"
    and "\<forall>c \<in> set cs. c \<noteq> [] \<and> length c \<le> 1024"
  shows "rd_fits lib cs st"
  using assms(5-7)
proof (induction cs arbitrary: s st)
  case (Cons c cs)
  show ?case
  proof (cases st)
    case (ReadPartial rd)
    have room: "length c \<le> read_space rd"
    proof (cases "length s < length hdr")
      case True
      with Cons.prems(2) ReadPartial obtain n buf where "rd = Begin n buf" "reader_inv (Begin n buf)"
        by (auto simp: read_point_def)
      with grow_header_room [of n buf] Cons.prems(3) show ?thesis
        by (auto simp: reader_inv_def read_space_def)
    next
      case False
      let ?b = "drop (length hdr) s"
      from False Cons.prems(2) ReadPartial have rd: "rd = HaveHeader (with_body ?b pr)"
        by (auto simp: read_point_def done_or_partial_def split: if_splits)
      have "length (hdr @ body) = length s + length c + length (concat cs)"
        unfolding Cons.prems(1) by simp
      with False assms(4) show ?thesis by (simp add: rd read_space_def with_body_def)
    qed
    from Cons.prems ReadPartial read_point_step [OF assms(1-4) _ _ _ room, of s "concat cs"]
    obtain st' where "read_tcp_stream lib (Ok c) rd = Ret (Ok st')" "read_point hdr pr (s @ c) st'" by auto
    with Cons ReadPartial room show ?thesis by auto
  qed (use Cons.prems in auto)
qed simp

text \<open>C17: however the kernel cuts the header and the body of a request into reads, the reader
  goes on until the last byte and then delivers the request of that header with exactly that
  body.\<close>

theorem request_reassembled:
  assumes "header_text lib hdr raw" and "partial_new lib raw = Ok pr"
    and "pr_content_length pr \<le> isize_max" and "length body = pr_content_length pr"
    and "concat cs = hdr @ body" and "rd_fits lib cs (ReadPartial reader_new)"
  shows "\<exists>req. rd_feed lib cs (ReadPartial reader_new) = Ret (Ok (ReadComplete req)) \<and>
     req_body req = Some body \<and> req_content_length req = length body \<and>
     req_headers req = pr_headers pr \<and> req_url req = pr_url pr \<and> req_method req = pr_method pr \<and>
     req_keep_alive req = pr_keep_alive pr \<and> req_context req = pr_context pr"
  using request_reassembled_eq [OF assms] assms(4) by (simp add: into_request_def)

section \<open>The fields of a request\<close>

definition last_some :: "('a \<Rightarrow> 'b option) \<Rightarrow> 'a list \<Rightarrow> 'b option" where
  "last_some f xs = (case List.map_filter f xs of [] \<Rightarrow> None | y # ys \<Rightarrow> Some (last (y # ys)))"

lemma last_some_Nil [simp]: "last_some f [] = None"
  by (simp add: last_some_def List.map_filter_def)

lemma last_some_Cons:
  "last_some f (x # xs) = (case last_some f xs of Some y \<Rightarrow> Some y | None \<Rightarrow> f x)"
  by (cases "f x") (auto simp: last_some_def List.map_filter_simps split: list.split)

text \<open>The value of a header line with a given name.\<close>

definition field :: "string \<Rightarrow> string \<times> bytes \<Rightarrow> bytes option" where
  "field n h = (if named n h then Some (snd h) else None)"

definition trace_field :: "http_lib \<Rightarrow> string \<times> bytes \<Rightarrow> trace_ctx option" where
  "trace_field lib h =
     (if named ''Traceparent'' h
      then (case parse_context lib (snd h) of Ok ctx \<Rightarrow> Some ctx | Err _ \<Rightarrow> None) else None)"

definition length_field :: "string \<times> bytes \<Rightarrow> nat option" where
  "length_field h = (if named ''Content-Length'' h then parse_usize (snd h) else None)"

definition closes :: "string \<times> bytes \<Rightarrow> bool" where
  "closes h \<longleftrightarrow> named ''Connection'' h \<and> eq_ignore_ascii_case (snd h) ''Close''"

definition line_ok :: "string \<times> bytes \<Rightarrow> bool" where
  "line_ok h \<longleftrightarrow> utf8_valid (snd h) \<and> (named ''Content-Length'' h \<longrightarrow> parse_usize (snd h) \<noteq> None)"

definition scan_headers :: "http_lib \<Rightarrow> (string \<times> bytes) list \<Rightarrow> header_vars \<Rightarrow> header_vars" where
  "scan_headers lib hs v =
     \<lparr>hv_content_type = (case last_some (field ''Content-Type'') hs of Some x \<Rightarrow> Some x | None \<Rightarrow> hv_content_type v),
      hv_host = (case last_some (field ''Host'') hs of Some x \<Rightarrow> Some x | None \<Rightarrow> hv_host v),
      hv_keep_alive = (hv_keep_alive v \<and> \<not> list_ex closes hs),
      hv_content_length = (case last_some length_field hs of Some x \<Rightarrow> x | None \<Rightarrow> hv_content_length v),
      hv_context = (case last_some (trace_field lib) hs of Some x \<Rightarrow> Some x | None \<Rightarrow> hv_context v),
      hv_headers = hv_headers v @ hs\<rparr>"

lemma scan_headers_Nil [simp]: "scan_headers lib [] v = v"
  by (simp add: scan_headers_def)

lemma scan_headers_step:
  assumes "u = v\<lparr>hv_content_type := (if named ''Content-Type'' h then Some (snd h) else hv_content_type v),
       hv_content_length := (case length_field h of Some n \<Rightarrow> n | None \<Rightarrow> hv_content_length v)\<rparr>"
  shows "scan_headers lib (h # hs) v = scan_headers lib hs (header_rest lib h u)"
  by (auto simp: scan_headers_def last_some_Cons assms header_rest_def Let_def field_def trace_field_def
      closes_def split: option.split result.split)

lemma header_loop_scan:
  "header_loop lib hs v = Ok v' \<longleftrightarrow> list_all line_ok hs \<and> v' = scan_headers lib hs v"
proof (induction hs arbitrary: v)
  case Nil
  then show ?case by auto
next
  case (Cons h hs)
  show ?case
  proof (cases "line_ok h")
    case False
    then show ?thesis by (auto simp: line_ok_def Let_def)
  next
    case True
    then show ?thesis
      unfolding scan_headers_step [OF refl]
      by (auto simp: line_ok_def Let_def Cons.IH length_field_def split: option.split)
  qed
qed

text \<open>C25: which headers make a request, and what the request then holds: the last
  \<open>Content-Type\<close>, \<open>Content-Length\<close> (0 without one) and \<open>Host\<close>, the last \<open>Traceparent\<close>
  that parses (otherwise a fresh context), keep-alive unless some \<open>Connection\<close> line says
  close, and every line in order.\<close>

theorem request_fields:
  "partial_new lib raw = Ok pr \<longleftrightarrow>
     (let hs = raw_headers raw in
      list_all line_ok hs \<and>
      parse_method lib (raw_method raw) = Some (pr_method pr) \<and>
      (\<exists>host. last_some (field ''Host'') hs = Some host \<and>
         request_url lib host (raw_path raw) = Ok (pr_url pr)) \<and>
      pr_headers pr = hs \<and>
      pr_content_type pr = last_some (field ''Content-Type'') hs \<and>
      pr_content_length pr = (case last_some length_field hs of Some n \<Rightarrow> n | None \<Rightarrow> 0) \<and>
      pr_keep_alive pr = (\<not> list_ex closes hs) \<and>
      pr_context pr = (case last_some (trace_field lib) hs of
                         Some ctx \<Rightarrow> ctx | None \<Rightarrow> context_new (hex_encode lib) (rng16 lib) (rng8 lib)) \<and>
      pr_body pr = [] \<and> pr_bytes_read pr = 0)"
proof (cases "list_all line_ok (raw_headers raw)")
  case True
  then have "header_loop lib (raw_headers raw) header_vars_init =
      Ok (scan_headers lib (raw_headers raw) header_vars_init)"
    by (simp add: header_loop_scan)
  with True show ?thesis
    by (cases "last_some (field ''Host'') (raw_headers raw)")
      (auto simp: partial_new_def Let_def scan_headers_def header_vars_init_def partial_req.equality
        split: option.split result.split)
next
  case False
  then obtain e where "header_loop lib (raw_headers raw) header_vars_init = Err e"
    by (cases "header_loop lib (raw_headers raw) header_vars_init") (auto simp: header_loop_scan)
  with False show ?thesis by (simp add: partial_new_def Let_def split: option.split)
qed

section \<open>Trace contexts\<close>

definition is_hex :: "string \<Rightarrow> bool" where
  "is_hex s \<longleftrightarrow> list_all (\<lambda>c. c \<in> set hex_chars) s"

text \<open>Nothing, or one more part after a dash.\<close>

definition one_extension :: "string \<Rightarrow> bool" where
  "one_extension x \<longleftrightarrow> x = [] \<or> hd x = CHR ''-'' \<and> CHR ''-'' \<notin> set (tl x)"

lemma is_hex_no_dash: "is_hex s \<Longrightarrow> CHR ''-'' \<notin> set s"
proof -
  have "CHR ''-'' \<notin> set hex_chars" by (simp add: hex_chars_def)
  then show "is_hex s \<Longrightarrow> CHR ''-'' \<notin> set s" unfolding is_hex_def list_all_iff by blast
qed

lemma context_parts_Ok:
  "context_parts 0 vs [] [] = Ok (tid, pid) \<and> length tid = 32 \<and> length pid = 16 \<longleftrightarrow>
     (\<exists>ext. vs = ''00'' # tid # pid # ext \<and> length ext \<le> 1) \<and> length tid = 32 \<and> length pid = 16"
proof -
  consider "vs = []" | v1 where "vs = [v1]" | v1 v2 where "vs = [v1, v2]"
    | v1 v2 v3 where "vs = [v1, v2, v3]" | v1 v2 v3 v4 where "vs = [v1, v2, v3, v4]"
    | v1 v2 v3 v4 v5 r where "vs = v1 # v2 # v3 # v4 # v5 # r"
    by (cases vs; cases "tl vs"; cases "tl (tl vs)"; cases "tl (tl (tl vs))";
        cases "tl (tl (tl (tl vs)))"; simp)
  then show ?thesis
  proof cases
    case (4 v1 v2 v3)
    then show ?thesis by (cases "v1 = ''00''") simp_all
  next
    case (5 v1 v2 v3 v4)
    then show ?thesis by (cases "v1 = ''00''") auto
  qed (auto split: if_splits)
qed

lemma parse_context_parts:
  "parse_context lib v = Ok ctx \<longleftrightarrow>
     (\<exists>tid pid ext. split_at_char (CHR ''-'') v = ''00'' # tid # pid # ext \<and> length ext \<le> 1 \<and>
        length tid = 32 \<and> length pid = 16 \<and> is_hex tid \<and> is_hex pid \<and>
        ctx = context_from_vals (hex_encode lib) (rng8 lib) tid pid)" (is "?l \<longleftrightarrow> ?r")
proof -
  have "?l \<longleftrightarrow> (\<exists>tid pid. (context_parts 0 (split_at_char (CHR ''-'') v) [] [] = Ok (tid, pid)
      \<and> length tid = 32 \<and> length pid = 16) \<and> is_hex tid \<and> is_hex pid \<and>
        ctx = context_from_vals (hex_encode lib) (rng8 lib) tid pid)"
    by (cases "context_parts 0 (split_at_char (CHR ''-'') v) [] []")
      (auto simp: parse_context_def is_hex_def split: if_splits prod.splits)
  also have "\<dots> \<longleftrightarrow> ?r" unfolding context_parts_Ok by blast
  finally show ?thesis .
qed

lemma split_traceparent:
  assumes "is_hex tid" and "is_hex pid"
  shows "(\<exists>ext. split_at_char (CHR ''-'') v = ''00'' # tid # pid # ext \<and> length ext \<le> 1) \<longleftrightarrow>
     (\<exists>x. one_extension x \<and> v = ''00-'' @ tid @ ''-'' @ pid @ x)"
proof
  assume "\<exists>ext. split_at_char (CHR ''-'') v = ''00'' # tid # pid # ext \<and> length ext \<le> 1"
  then obtain ext where e: "split_at_char (CHR ''-'') v = ''00'' # tid # pid # ext" "length ext \<le> 1" by blast
  from split_at_char_parts [OF e(1)]
  have v: "v = ''00-'' @ tid @ ''-'' @ pid @ concat (map (\<lambda>x. CHR ''-'' # x) ext)"
    and nd: "\<forall>x \<in> set ext. CHR ''-'' \<notin> set x" by simp_all
  have "one_extension (concat (map (\<lambda>x. CHR ''-'' # x) ext))"
    using e(2) nd by (cases ext) (auto simp: one_extension_def)
  with v show "\<exists>x. one_extension x \<and> v = ''00-'' @ tid @ ''-'' @ pid @ x" by blast
next
  assume "\<exists>x. one_extension x \<and> v = ''00-'' @ tid @ ''-'' @ pid @ x"
  then obtain x where x: "one_extension x" "v = ''00'' @ CHR ''-'' # tid @ CHR ''-'' # pid @ x" by auto
  note nd = is_hex_no_dash [OF assms(1)] is_hex_no_dash [OF assms(2)]
  show "\<exists>ext. split_at_char (CHR ''-'') v = ''00'' # tid # pid # ext \<and> length ext \<le> 1"
  proof (cases x)
    case Nil
    with x nd show ?thesis by (simp add: split_at_char_append split_at_char_no_sep)
  next
    case (Cons c y)
    with x(1) have "x = CHR ''-'' # y" "CHR ''-'' \<notin> set y" by (auto simp: one_extension_def)
    with x(2) nd show ?thesis by (simp add: split_at_char_append split_at_char_no_sep)
  qed
qed

text \<open>The trace headers that are accepted: version 00, a trace id of 32 and a parent id of
  16 lower-case hexadecimal digits, and at most one more part; the flags, which make the
  fourth part the error message asks for, may be missing.\<close>

theorem traceparent_accepted:
  "parse_context lib v = Ok ctx \<longleftrightarrow>
     (\<exists>tid pid x. v = ''00-'' @ tid @ ''-'' @ pid @ x \<and> one_extension x \<and>
        length tid = 32 \<and> length pid = 16 \<and> is_hex tid \<and> is_hex pid \<and>
        trace_id ctx = tid \<and> parent_id ctx = Some pid \<and> span_id ctx = hex_encode lib (rng8 lib))"
    (is "_ \<longleftrightarrow> ?rhs")
proof -
  have ctx: "ctx = context_from_vals (hex_encode lib) (rng8 lib) tid pid \<longleftrightarrow>
      trace_id ctx = tid \<and> parent_id ctx = Some pid \<and> span_id ctx = hex_encode lib (rng8 lib)" for tid pid
    by (cases ctx) (auto simp: context_from_vals_def)
  show ?thesis
  proof
    assume "parse_context lib v = Ok ctx"
    then obtain tid pid ext where p: "split_at_char (CHR ''-'') v = ''00'' # tid # pid # ext \<and> length ext \<le> 1"
      "length tid = 32" "length pid = 16" "is_hex tid" "is_hex pid"
      "ctx = context_from_vals (hex_encode lib) (rng8 lib) tid pid"
      unfolding parse_context_parts by blast
    from split_traceparent [OF p(4,5), THEN iffD1, OF exI, OF p(1)] p(2-6) show "?rhs"
      unfolding ctx by blast
  next
    assume "?rhs"
    then obtain tid pid x where p: "one_extension x \<and> v = ''00-'' @ tid @ ''-'' @ pid @ x"
      "length tid = 32" "length pid = 16" "is_hex tid" "is_hex pid"
      "ctx = context_from_vals (hex_encode lib) (rng8 lib) tid pid"
      unfolding ctx by blast
    from split_traceparent [OF p(4,5), THEN iffD2, OF exI, OF p(1)] p(2-6)
    show "parse_context lib v = Ok ctx" unfolding parse_context_parts by blast
  qed
qed

section \<open>What is delivered\<close>

text \<open>What a state knows of the bytes \<open>s\<close> read so far.\<close>

definition read_so_far :: "bytes \<Rightarrow> read_state \<Rightarrow> bool" where
  "read_so_far s st \<longleftrightarrow>
     (case st of
        ReadPartial rd \<Rightarrow> reader_inv rd \<and>
          (case rd of
             Begin n buf \<Rightarrow> take n buf = s
           | HaveHeader pr \<Rightarrow> \<exists>k. k \<le> length s \<and> pr_bytes_read pr = length (drop k s) \<and>
               take (pr_bytes_read pr) (pr_body pr) = drop k s)
      | ReadComplete req \<Rightarrow> \<exists>k. k \<le> length s \<and> req_body req = Some (drop k s) \<and>
          length (drop k s) = req_content_length req
      | StreamEOF \<Rightarrow> True)"

lemma read_so_far_done:
  assumes "length (pr_body pr) = pr_content_length pr" and "pr_bytes_read pr = length (drop k s)"
    and "pr_bytes_read pr \<le> pr_content_length pr"
    and "k \<le> length s" and "take (pr_bytes_read pr) (pr_body pr) = drop k s"
  shows "read_so_far s (done_or_partial pr)"
proof (cases "is_done pr")
  case True
  with assms have "take (length (pr_body pr)) (pr_body pr) = drop k s" by (simp add: is_done_def)
  with assms True show ?thesis
    by (auto simp: read_so_far_def done_or_partial_def is_done_def into_request_def intro!: exI [of _ k])
next
  case False
  with assms show ?thesis
    by (auto simp: read_so_far_def done_or_partial_def is_done_def reader_inv_def intro!: exI [of _ k])
qed

lemma read_so_far_step:
  assumes "read_so_far s (ReadPartial rd)" and "lib_sizes lib" and "c \<noteq> []" and "length c \<le> read_space rd"
    and "read_tcp_stream lib (Ok c) rd = Ret (Ok st)"
  shows "read_so_far (s @ c) st"
proof (cases rd)
  case (Begin n buf)
  have n: "n \<le> length buf" "take n buf = s" and inv: "reader_inv rd"
    using assms(1) Begin by (simp_all add: read_so_far_def reader_inv_def)
  from read_tcp_stream_Begin [OF n(1) _ assms(3), of lib] assms(4) Begin obtain g where
    g: "n + length c \<le> length g" "take (n + length c) g = s @ c" and
    step: "read_tcp_stream lib (Ok c) rd =
     (case parse_request lib (s @ c) of
        ParseErr e \<Rightarrow> Ret (Err (HeaderParse e))
      | ParsePartial \<Rightarrow> Ret (Ok (ReadPartial (Begin (n + length c) g)))
      | ParseComplete k raw \<Rightarrow> after_header lib (s @ c) k raw)"
    unfolding n(2) by auto
  show ?thesis
  proof (cases "parse_request lib (s @ c)")
    case (ParseErr e)
    with step assms(5) show ?thesis by simp
  next
    case ParsePartial
    with step assms(5) have "st = ReadPartial (Begin (n + length c) g)" by simp
    moreover have "reader_inv (Begin (n + length c) g)"
      using read_tcp_stream_inv [OF inv _ assms(2), of "Ok c"] assms(4,5) calculation
      by (simp add: read_fits_def)
    ultimately show ?thesis using g(2) by (simp add: read_so_far_def)
  next
    case (ParseComplete k raw)
    with step assms(5) have ah: "after_header lib (s @ c) k raw = Ret (Ok st)" by simp
    have k: "k \<le> length (s @ c)" using ParseComplete assms(2) unfolding lib_sizes_def by blast
    from after_header_Partial [OF ah k] obtain pr where
      "length (drop k (s @ c)) \<le> pr_content_length pr"
      "st = done_or_partial (with_body (drop k (s @ c)) pr)" unfolding with_body_def by blast
    with k show ?thesis by (auto simp: with_body_def intro!: read_so_far_done [of _ k])
  qed
next
  case (HaveHeader pr)
  have pr: "length (pr_body pr) = pr_content_length pr" "pr_bytes_read pr < pr_content_length pr"
    using assms(1) HaveHeader by (simp_all add: read_so_far_def reader_inv_def)
  from assms(1) HaveHeader obtain k where k: "k \<le> length s" "pr_bytes_read pr = length (drop k s)"
    "take (pr_bytes_read pr) (pr_body pr) = drop k s" by (auto simp: read_so_far_def)
  have len: "length c \<le> length (pr_body pr) - pr_bytes_read pr"
    using assms(4) HaveHeader by (simp add: read_space_def)
  let ?pr = "pr\<lparr>pr_body := store_read (pr_body pr) (pr_bytes_read pr) c, pr_bytes_read := pr_bytes_read pr + length c\<rparr>"
  have "st = done_or_partial ?pr"
    using read_tcp_stream_body [OF assms(5) [unfolded HaveHeader]] by (metis result.inject(1))
  moreover have "take (pr_bytes_read pr + length c) (pr_body ?pr) = take (pr_bytes_read pr) (pr_body pr) @ c"
    using pr len take_store_read [of "pr_bytes_read pr" c "pr_body pr"] by simp
  then have "take (pr_bytes_read pr + length c) (pr_body ?pr) = drop k (s @ c)"
    unfolding k(3) using k(1) by simp
  ultimately show ?thesis using pr len k by (auto intro!: read_so_far_done [of _ k])
qed

lemma rd_feed_so_far:
  assumes "lib_sizes lib"
  shows "read_so_far s st \<Longrightarrow> rd_fits lib cs st \<Longrightarrow> rd_feed lib cs st = Ret (Ok st') \<Longrightarrow>
    \<exists>c t. concat cs = c @ t \<and> read_so_far (s @ c) st'"
proof (induction cs arbitrary: s st)
  case Nil
  then show ?case by auto
next
  case (Cons c cs)
  show ?case
  proof (cases st)
    case (ReadPartial rd)
    from Cons.prems(3) ReadPartial obtain st1 where
      st1: "read_tcp_stream lib (Ok c) rd = Ret (Ok st1)" "rd_feed lib cs st1 = Ret (Ok st')"
      by (cases "read_tcp_stream lib (Ok c) rd") (auto split: result.splits)
    have "read_so_far (s @ c) st1"
      using Cons.prems ReadPartial by (intro read_so_far_step [OF _ assms _ _ st1(1)]) auto
    from Cons.IH [OF this _ st1(2)] Cons.prems(2) ReadPartial st1(1) obtain d t where
      "concat cs = d @ t" "read_so_far ((s @ c) @ d) st'" by auto
    then show ?thesis by (intro exI [of _ "c @ d"] exI [of _ t]) simp
  next
    case (ReadComplete req)
    with Cons.prems show ?thesis by (auto intro: exI [of _ "[]"])
  next
    case StreamEOF
    with Cons.prems show ?thesis by (auto intro: exI [of _ "[]"])
  qed
qed

text \<open>A request is never delivered short or with bytes that were not sent: its body is
  as long as its \<open>Content-Length\<close> and is the end of what was read of the connection, whatever
  \<open>httparse\<close> makes of the bytes.\<close>

theorem delivered_body:
  assumes "lib_sizes lib" and "rd_fits lib cs (ReadPartial reader_new)"
    and "rd_feed lib cs (ReadPartial reader_new) = Ret (Ok (ReadComplete req))"
  shows "\<exists>hdr body rest. concat cs = hdr @ body @ rest \<and> req_body req = Some body \<and>
     length body = req_content_length req"
proof -
  have "read_so_far [] (ReadPartial reader_new)"
    by (simp add: read_so_far_def) (simp add: reader_new_def)
  from rd_feed_so_far [OF assms(1) this assms(2,3)] obtain c t where
    c: "concat cs = c @ t" "read_so_far c (ReadComplete req)" by auto
  then obtain k where "req_body req = Some (drop k c)" "length (drop k c) = req_content_length req"
    by (auto simp: read_so_far_def)
  with c(1) show ?thesis
    by (intro exI [of _ "take k c"] exI [of _ "drop k c"] exI [of _ t]) simp
qed

section \<open>Panics\<close>

lemma after_header_panics:
  "(\<exists>m. after_header lib b k raw = Panic m) \<longleftrightarrow>
     (\<exists>pr. partial_new lib raw = Ok pr \<and> isize_max < pr_content_length pr \<and>
        length (drop k b) \<le> pr_content_length pr)"
  by (auto simp: after_header_def take_body_def not_less split: result.split)

text \<open>C26: the reader panics exactly when a complete header announces a body of more than
  \<open>isize::MAX\<close> bytes (and no more bytes follow it yet than announced): one such request ends
  the worker process. Reading the rest of a body never panics.\<close>

theorem reader_panics_iff:
  assumes "reader_inv rd" and "length bs \<le> read_space rd" and "bs \<noteq> []"
  shows "(\<exists>m. read_tcp_stream lib (Ok bs) rd = Panic m) \<longleftrightarrow>
      (\<exists>n buf k raw pr. rd = Begin n buf \<and> parse_request lib (take n buf @ bs) = ParseComplete k raw \<and>
         partial_new lib raw = Ok pr \<and> isize_max < pr_content_length pr \<and>
         length (drop k (take n buf @ bs)) \<le> pr_content_length pr)"
proof (cases rd)
  case (Begin n buf)
  then have n: "n \<le> length buf" using assms(1) by (simp add: reader_inv_def)
  from read_tcp_stream_Begin [OF n assms(2) [unfolded Begin] assms(3), of lib] obtain g where
    step: "read_tcp_stream lib (Ok bs) (Begin n buf) =
     (case parse_request lib (take n buf @ bs) of
        ParseErr e \<Rightarrow> Ret (Err (HeaderParse e))
      | ParsePartial \<Rightarrow> Ret (Ok (ReadPartial (Begin (n + length bs) g)))
      | ParseComplete k raw \<Rightarrow> after_header lib (take n buf @ bs) k raw)" by blast
  show ?thesis unfolding Begin step
    by (cases "parse_request lib (take n buf @ bs)") (simp_all add: after_header_panics)
next
  case (HaveHeader pr)
  then show ?thesis by (simp add: read_tcp_stream_def split: result.split)
qed

section \<open>Examples\<close>

text \<open>A parser that knows one header.\<close>

definition exact_lib :: "bytes \<Rightarrow> raw_request \<Rightarrow> http_lib" where
  "exact_lib hdr raw =
     \<lparr>parse_request = (\<lambda>b. if take (length hdr) b = hdr then ParseComplete (length hdr) raw
        else if take (length b) hdr = b then ParsePartial else ParseErr ''invalid token''),
      parse_method = Some,
      parse_url = (\<lambda>s. Some \<lparr>url_path = ''/up'', url_query = None\<rparr>),
      hex_encode = (\<lambda>b. ''00''), rng16 = [], rng8 = []\<rparr>"

lemma exact_lib_header: "hdr \<noteq> [] \<Longrightarrow> header_text (exact_lib hdr raw) hdr raw"
  by (auto simp: header_text_def exact_lib_def min_def)

lemma exact_lib_sizes: "lib_sizes (exact_lib hdr raw)"
  by (auto simp: lib_sizes_def exact_lib_def dest: arg_cong [of _ _ length] split: if_splits)

definition up_header :: bytes where
  "up_header = ''POST /up HTTP/1.1'' @ crlf @ ''host: a'' @ crlf @ ''content-length: 3'' @ crlf @ crlf"

definition up_raw :: "string \<Rightarrow> raw_request" where
  "up_raw len =
     \<lparr>raw_method = ''POST'', raw_path = ''/up'',
      raw_headers = [(''host'', ''a''), (''content-length'', len)]\<rparr>"

definition up_partial :: "nat \<Rightarrow> string \<Rightarrow> partial_req" where
  "up_partial n len =
     \<lparr>pr_method = ''POST'', pr_headers = raw_headers (up_raw len),
      pr_url = \<lparr>url_path = ''/up'', url_query = None\<rparr>, pr_content_type = None, pr_content_length = n,
      pr_keep_alive = True, pr_body = [], pr_bytes_read = 0,
      pr_context = \<lparr>trace_id = ''00'', span_id = ''00'', parent_id = None\<rparr>\<rparr>"

lemma named_up [simp]:
  "named ''Host'' (''host'', v)" "\<not> named ''Host'' (''content-length'', v)"
  "named ''Content-Length'' (''content-length'', v)" "\<not> named ''Content-Length'' (''host'', v)"
  "\<not> named ''Content-Type'' (''host'', v)" "\<not> named ''Content-Type'' (''content-length'', v)"
  "\<not> named ''Traceparent'' (''host'', v)" "\<not> named ''Traceparent'' (''content-length'', v)"
  "\<not> named ''Connection'' (''host'', v)" "\<not> named ''Connection'' (''content-length'', v)"
proof -
  have low: "map ascii_lower ''Host'' = ''host''" "map ascii_lower ''host'' = ''host''"
    "map ascii_lower ''Content-Length'' = ''content-length''"
    "map ascii_lower ''content-length'' = ''content-length''"
    "map ascii_lower ''Content-Type'' = ''content-type''"
    "map ascii_lower ''Traceparent'' = ''traceparent''"
    "map ascii_lower ''Connection'' = ''connection''"
    by code_simp+
  show "named ''Host'' (''host'', v)" "\<not> named ''Host'' (''content-length'', v)"
    "named ''Content-Length'' (''content-length'', v)" "\<not> named ''Content-Length'' (''host'', v)"
    "\<not> named ''Content-Type'' (''host'', v)" "\<not> named ''Content-Type'' (''content-length'', v)"
    "\<not> named ''Traceparent'' (''host'', v)" "\<not> named ''Traceparent'' (''content-length'', v)"
    "\<not> named ''Connection'' (''host'', v)" "\<not> named ''Connection'' (''content-length'', v)"
    unfolding named_def eq_ignore_ascii_case_def fst_conv low by simp_all
qed

lemma up_partial_new:
  assumes "parse_usize len = Some n" and "utf8_valid len"
  shows "partial_new (exact_lib hdr (up_raw len)) (up_raw len) = Ok (up_partial n len)"
  using assms
  by (simp add: partial_new_def up_raw_def up_partial_def exact_lib_def header_rest_def header_vars_init_def
      request_url_def starts_with_def context_new_def utf8_valid_ascii in_range_def)

text \<open>A header cut in two, and a body cut in two across its end.\<close>

definition up_chunks :: "bytes list" where
  "up_chunks = [take 5 up_header, drop 5 up_header @ ''a'', ''bc'']"

definition up_lib :: http_lib where
  "up_lib = exact_lib up_header (up_raw ''3'')"

lemma up_example:
  "header_text up_lib up_header (up_raw ''3'')" (is ?h)
  "partial_new up_lib (up_raw ''3'') = Ok (up_partial 3 ''3'')" (is ?p)
  "pr_content_length (up_partial 3 ''3'') \<le> isize_max" (is ?m)
  "length ''abc'' = pr_content_length (up_partial 3 ''3'')" (is ?l)
  "concat up_chunks = up_header @ ''abc''" (is ?c)
  "rd_fits up_lib up_chunks (ReadPartial reader_new)"
proof -
  show h: ?h unfolding up_lib_def by (rule exact_lib_header) (simp add: up_header_def)
  show p: ?p unfolding up_lib_def by (rule up_partial_new) (simp_all add: parse_defs in_range_def)
  show m: ?m and l: ?l by (simp_all add: up_partial_def isize_max_def)
  show c: ?c by (simp add: up_chunks_def)
  have pt: "read_point up_header (up_partial 3 ''3'') [] (ReadPartial reader_new)"
    using reader_new_inv by (auto simp: read_point_def up_header_def reader_new_def)
  show "rd_fits up_lib up_chunks (ReadPartial reader_new)"
    by (rule rd_fits_points [OF h p m l _ pt]) (use c in \<open>simp_all add: up_chunks_def up_header_def crlf_def\<close>)
qed

theorem request_reassembled_witness:
  "\<exists>req. rd_feed up_lib up_chunks (ReadPartial reader_new) = Ret (Ok (ReadComplete req)) \<and>
      req_body req = Some ''abc'' \<and> req_content_length req = 3"
  using request_reassembled [OF up_example] by auto

theorem delivered_body_witness:
  "\<exists>hdr rest. concat up_chunks = hdr @ ''abc'' @ rest"
proof -
  have "lib_sizes up_lib" by (simp add: up_lib_def exact_lib_sizes)
  from delivered_body [OF this up_example(6) request_reassembled_eq [OF up_example]]
  show ?thesis by (auto simp: into_request_def up_partial_def)
qed

theorem reader_panics_iff_witness:
  "\<exists>m. read_tcp_stream (exact_lib up_header (up_raw ''9223372036854775808'')) (Ok up_header) reader_new = Panic m"
proof -
  let ?raw = "up_raw ''9223372036854775808''"
  have "partial_new (exact_lib up_header ?raw) ?raw = Ok (up_partial 9223372036854775808 ''9223372036854775808'')"
    by (rule up_partial_new) (simp_all add: parse_defs in_range_def)
  moreover have "parse_request (exact_lib up_header ?raw) (take 0 (replicate 2048 (CHR 0x00)) @ up_header) =
      ParseComplete (length up_header) ?raw"
    by (simp add: exact_lib_def)
  moreover have "length up_header \<le> read_space reader_new" "up_header \<noteq> []"
    by (simp_all add: up_header_def crlf_def reader_new_def read_space_def grow_header_def)
  ultimately show ?thesis
    using reader_panics_iff [OF reader_new_inv, of up_header "exact_lib up_header ?raw"]
    by (fastforce simp: reader_new_def up_partial_def isize_max_def)
qed

end
