(* ===== verification/ServerWriter.thy ===== *)
theory ServerWriter
  imports Http Msgs
begin

text \<open>
  \<open>src/worker/serverwriter.rs\<close>: a response is written to its TCP stream: the header block,
  then the parts of the body as the application's thread sends them over a channel. What
  \<open>try_recv\<close> on the channel and \<open>write\<close> on the stream return are arguments.
\<close>

section \<open>The writer\<close>

record writer =
  w_resp :: http_response
  w_buffer :: bytes
  w_header_size :: nat
  w_bytes_written :: nat

datatype write_state = WritePartial writer | WriteDone http_response

datatype recv = RecvPart bytes | RecvEmpty | RecvDisconnected

definition writer_new :: "http_response \<Rightarrow> writer" where
  "writer_new http_resp =
     (let buffer = write_header http_resp
      in \<lparr>w_resp = http_resp, w_buffer = buffer, w_header_size = length buffer, w_bytes_written = 0\<rparr>)"

text \<open>
  Nothing is received once the channel is gone (\<open>resp_body\<close> is \<open>None\<close>). The result also
  lists the bytes that went out.
\<close>

definition take_part :: "recv \<Rightarrow> writer \<Rightarrow> writer" where
  "take_part rv w =
     (case resp_body (w_resp w) of
        None \<Rightarrow> w
      | Some body \<Rightarrow>
          (case rv of
             RecvPart p \<Rightarrow> w\<lparr>w_buffer := w_buffer w @ p\<rparr>
           | RecvEmpty \<Rightarrow> w
           | RecvDisconnected \<Rightarrow> w\<lparr>w_resp := (w_resp w)\<lparr>resp_body := None\<rparr>\<rparr>))"

definition write_tcp_stream ::
  "recv \<Rightarrow> (io_error, nat) result \<Rightarrow> writer \<Rightarrow> bytes \<times> (http_error, write_state) result" where
  "write_tcp_stream rv res w0 =
     (let w = take_part rv w0
      in case res of
           Err e \<Rightarrow> ([], Err (HttpIo ''failed to write response to tcp stream'' e))
         | Ok n \<Rightarrow>
             (let sent = take n (w_buffer w);
                  w = w\<lparr>w_buffer := write_shift (w_buffer w) n,
                        w_bytes_written := w_bytes_written w + n\<rparr>
              in if w_buffer w = [] \<and> resp_body (w_resp w) = None
                 then (sent, Ok (WriteDone ((w_resp w)\<lparr>resp_content_length :=
                         Some (w_bytes_written w - w_header_size w)\<rparr>)))
                 else (sent, Ok (WritePartial w))))"

section \<open>One write\<close>

text \<open>What a writer has still to send, when the channel holds \<open>parts\<close>; after \<open>sent\<close>.\<close>

definition writer_at :: "http_response \<Rightarrow> bytes \<Rightarrow> bytes \<Rightarrow> writer \<Rightarrow> bool" where
  "writer_at r sent received w \<longleftrightarrow>
     (\<exists>body. w_resp w = r\<lparr>resp_body := body\<rparr>) \<and>
     sent @ w_buffer w = write_header r @ received \<and>
     w_header_size w = length (write_header r) \<and> w_bytes_written w = length sent"

fun part_of :: "recv \<Rightarrow> bytes" where
  "part_of (RecvPart p) = p"
| "part_of RecvEmpty = []"
| "part_of RecvDisconnected = []"

lemma writer_new_at: "writer_at r [] [] (writer_new r)"
  by (auto simp: writer_at_def writer_new_def Let_def intro!: exI [of _ "resp_body r"])

lemma take_part_at:
  assumes "writer_at r sent received w" and "resp_body (w_resp w) \<noteq> None"
  shows "writer_at r sent (received @ part_of rv) (take_part rv w)"
  using assms by (cases rv) (auto simp: writer_at_def take_part_def)

lemma take_part_gone:
  "resp_body (w_resp w) = None \<Longrightarrow> take_part rv w = w"
  by (simp add: take_part_def)

lemma write_tcp_stream_at:
  assumes "writer_at r sent received (take_part rv w)" and "n \<le> length (w_buffer (take_part rv w))"
    and "write_tcp_stream rv (Ok n) w = (out, Ok st)"
  shows "case st of
       WritePartial w' \<Rightarrow> writer_at r (sent @ out) received w' \<and> resp_body (w_resp w') = resp_body (w_resp (take_part rv w))
     | WriteDone r' \<Rightarrow> sent @ out = write_header r @ received \<and>
         r' = r\<lparr>resp_body := None, resp_content_length := Some (length received)\<rparr> \<and>
         resp_body (w_resp (take_part rv w)) = None"
proof -
  let ?w = "take_part rv w"
  have len: "length sent + length (w_buffer ?w) = length (write_header r) + length received"
    using assms(1) unfolding writer_at_def by (metis length_append)
  obtain body where b: "w_resp ?w = r\<lparr>resp_body := body\<rparr>" using assms(1) by (auto simp: writer_at_def)
  show ?thesis
  proof (cases "drop n (w_buffer ?w) = [] \<and> body = None")
    case True
    with assms(2) have n: "n = length (w_buffer ?w)" by simp
    from True n assms(3) b have "out = w_buffer ?w"
      "st = WriteDone (r\<lparr>resp_body := None, resp_content_length :=
          Some (w_bytes_written ?w + n - w_header_size ?w)\<rparr>)"
      by (auto simp: write_tcp_stream_def Let_def)
    then show ?thesis using assms(1) n len b True by (simp add: writer_at_def)
  next
    case False
    with assms b have "out = take n (w_buffer ?w)" and
      "st = WritePartial (?w\<lparr>w_buffer := drop n (w_buffer ?w), w_bytes_written := w_bytes_written ?w + n\<rparr>)"
      by (auto simp: write_tcp_stream_def Let_def)
    then show ?thesis using assms(1,2) b by (auto simp: writer_at_def)
  qed
qed

section \<open>A whole response\<close>

text \<open>
  The channel: the parts in it, and, with \<open>closed\<close>, that the sender is gone after them.
  \<open>accepts i a\<close> is how many of \<open>a\<close> bytes the \<open>i\<close>-th write takes. \<open>steps\<close> bounds the
  number of writes.
\<close>

fun chan_recv :: "bytes list \<Rightarrow> bool \<Rightarrow> recv \<times> bytes list" where
  "chan_recv [] closed = (if closed then RecvDisconnected else RecvEmpty, [])"
| "chan_recv (p # ps) closed = (RecvPart p, ps)"

fun write_all :: "nat \<Rightarrow> (nat \<Rightarrow> nat \<Rightarrow> nat) \<Rightarrow> bytes list \<Rightarrow> bool \<Rightarrow> writer \<Rightarrow> bytes \<times> write_state" where
  "write_all 0 accepts ps closed w = ([], WritePartial w)"
| "write_all (Suc k) accepts ps closed w =
     (let (rv, ps') = (if resp_body (w_resp w) = None then (RecvEmpty, ps) else chan_recv ps closed);
          n = accepts k (length (w_buffer (take_part rv w)))
      in case write_tcp_stream rv (Ok n) w of
           (out, Ok (WritePartial w')) \<Rightarrow>
             (let (out', st) = write_all k accepts ps' closed w' in (out @ out', st))
         | (out, Ok (WriteDone r)) \<Rightarrow> (out, WriteDone r)
         | (out, Err e) \<Rightarrow> (out, WritePartial w))"

definition kernel_writes :: "(nat \<Rightarrow> nat \<Rightarrow> nat) \<Rightarrow> bool" where
  "kernel_writes accepts \<longleftrightarrow> (\<forall>i a. accepts i a \<le> a \<and> (0 < a \<longrightarrow> 0 < accepts i a))"

lemma write_tcp_stream_Ok: "\<exists>out st. write_tcp_stream rv (Ok n) w = (out, Ok st)"
  by (simp add: write_tcp_stream_def Let_def)

text \<open>What one round takes from the channel and sends.\<close>

definition round_recv :: "bytes list \<Rightarrow> bool \<Rightarrow> writer \<Rightarrow> recv \<times> bytes list" where
  "round_recv ps closed w =
     (if resp_body (w_resp w) = None then (RecvEmpty, ps) else chan_recv ps closed)"

lemma round_recv_at:
  assumes "writer_at r sent received w" and "round_recv ps closed w = (rv, ps')"
    and "resp_body (w_resp w) = None \<longrightarrow> ps = []"
  shows "writer_at r sent (received @ part_of rv) (take_part rv w)"
    and "part_of rv @ concat ps' = concat ps"
    and "resp_body (w_resp (take_part rv w)) = None \<Longrightarrow> ps' = []"
proof -
  show "writer_at r sent (received @ part_of rv) (take_part rv w)"
    using assms by (cases "resp_body (w_resp w)")
      (auto simp: round_recv_def take_part_gone take_part_at)
  show "part_of rv @ concat ps' = concat ps"
    using assms by (cases ps) (auto simp: round_recv_def split: if_splits)
  show "resp_body (w_resp (take_part rv w)) = None \<Longrightarrow> ps' = []"
    using assms by (cases ps) (auto simp: round_recv_def take_part_def split: if_splits option.splits)
qed

lemma write_all_Suc:
  assumes "round_recv ps closed w = (rv, ps')"
    and "write_tcp_stream rv (Ok (accepts k (length (w_buffer (take_part rv w))))) w = (out, Ok st)"
  shows "write_all (Suc k) accepts ps closed w =
    (case st of WritePartial w' \<Rightarrow> (let (out', st) = write_all k accepts ps' closed w' in (out @ out', st))
     | WriteDone r \<Rightarrow> (out, WriteDone r))"
  using assms by (simp add: round_recv_def split: write_state.split)

lemma write_all_at:
  assumes "kernel_writes accepts" and "write_all k accepts ps closed w = (out, st)"
    and "writer_at r sent received w" and "resp_body (w_resp w) = None \<longrightarrow> ps = []"
  shows "case st of
       WritePartial w' \<Rightarrow> \<exists>rec ps'. concat ps = rec @ concat ps' \<and> writer_at r (sent @ out) (received @ rec) w'
     | WriteDone r' \<Rightarrow> sent @ out = write_header r @ received @ concat ps \<and>
         r' = r\<lparr>resp_body := None, resp_content_length := Some (length (received @ concat ps))\<rparr>"
  using assms(2-)
proof (induction k arbitrary: ps w sent received out st)
  case 0
  then have st: "st = WritePartial w" "out = []" by simp_all
  have "\<exists>rec ps'. concat ps = rec @ concat ps' \<and> writer_at r (sent @ out) (received @ rec) w"
    by (rule exI [of _ "[]"], rule exI [of _ ps]) (use 0 st in simp)
  with st show ?case by simp
next
  case (Suc k)
  obtain rv ps' where rr: "round_recv ps closed w = (rv, ps')" by (cases "round_recv ps closed w")
  let ?n = "accepts k (length (w_buffer (take_part rv w)))"
  obtain o1 st1 where w1: "write_tcp_stream rv (Ok ?n) w = (o1, Ok st1)"
    using write_tcp_stream_Ok [of rv ?n w] by blast
  note at1 = round_recv_at [OF Suc.prems(2) rr Suc.prems(3)]
  have "?n \<le> length (w_buffer (take_part rv w))" using assms(1) by (simp add: kernel_writes_def)
  note st1 = write_tcp_stream_at [OF at1(1) this w1]
  show ?case
  proof (cases st1)
    case (WritePartial w')
    obtain o2 where o2: "write_all k accepts ps' closed w' = (o2, st)" "out = o1 @ o2"
      using Suc.prems(1) write_all_Suc [where accepts = accepts and k = k, OF rr w1] WritePartial by (auto split: prod.splits)
    from st1 WritePartial have w': "writer_at r (sent @ o1) (received @ part_of rv) w'"
      "resp_body (w_resp w') = resp_body (w_resp (take_part rv w))" by simp_all
    with at1(3) have "resp_body (w_resp w') = None \<longrightarrow> ps' = []" by simp
    note ih = Suc.IH [OF o2(1) w'(1) this]
    show ?thesis
    proof (cases st)
      case (WritePartial w2)
      with ih obtain rec qs where "concat ps' = rec @ concat qs"
        "writer_at r ((sent @ o1) @ o2) ((received @ part_of rv) @ rec) w2" by auto
      then have "concat ps = (part_of rv @ rec) @ concat qs \<and>
          writer_at r (sent @ out) (received @ (part_of rv @ rec)) w2"
        using at1(2) o2(2) by simp
      then have "\<exists>rec ps'. concat ps = rec @ concat ps' \<and> writer_at r (sent @ out) (received @ rec) w2"
        by blast
      with WritePartial show ?thesis by simp
    next
      case (WriteDone r')
      with ih at1(2) [symmetric] o2(2) show ?thesis by simp
    qed
  next
    case (WriteDone r')
    with Suc.prems(1) write_all_Suc [where accepts = accepts and k = k, OF rr w1] have o: "out = o1" "st = WriteDone r'" by simp_all
    from st1 WriteDone have d: "sent @ o1 = write_header r @ received @ part_of rv"
      "r' = r\<lparr>resp_body := None, resp_content_length := Some (length (received @ part_of rv))\<rparr>"
      "ps' = []" using at1(3) by simp_all
    have "concat ps = part_of rv" using at1(2) d(3) by simp
    with d o show ?thesis by simp
  qed
qed

text \<open>How many rounds a closed channel still needs, and that they are enough.\<close>

definition rounds_left :: "bytes list \<Rightarrow> writer \<Rightarrow> nat" where
  "rounds_left ps w =
     length ps + length (w_buffer w) + length (concat ps) + (if resp_body (w_resp w) = None then 0 else 1)"

lemma rounds_left_decr:
  assumes "kernel_writes accepts" and "round_recv ps True w = (rv, ps')"
    and "write_tcp_stream rv (Ok (accepts k (length (w_buffer (take_part rv w))))) w = (out, Ok (WritePartial w'))"
    and "resp_body (w_resp w) = None \<longrightarrow> ps = []"
  shows "rounds_left ps' w' < rounds_left ps w"
proof -
  let ?b = "w_buffer (take_part rv w)"
  let ?n = "accepts k (length ?b)"
  have n: "?n \<le> length ?b" "?b \<noteq> [] \<Longrightarrow> 0 < ?n" using assms(1) by (simp_all add: kernel_writes_def)
  have w': "w_buffer w' = drop ?n ?b" "resp_body (w_resp w') = resp_body (w_resp (take_part rv w))"
    and stay: "drop ?n ?b \<noteq> [] \<or> resp_body (w_resp (take_part rv w)) \<noteq> None"
    using assms(3) n(1) by (auto simp: write_tcp_stream_def Let_def split: if_splits)
  show ?thesis
  proof (cases "resp_body (w_resp w)")
    case None
    with assms(2,4) have rv: "rv = RecvEmpty" "ps' = ps" "take_part rv w = w"
      by (auto simp: round_recv_def take_part_gone)
    with stay None have "w_buffer w \<noteq> []" by auto
    with n w' rv None have "length (w_buffer w') < length (w_buffer w)" by simp
    with rv None w' show ?thesis by (simp add: rounds_left_def)
  next
    case (Some b)
    show ?thesis
    proof (cases ps)
      case Nil
      with Some assms(2) have rv: "rv = RecvDisconnected" "ps' = []" by (simp_all add: round_recv_def)
      with Some have "w_buffer (take_part rv w) = w_buffer w" "resp_body (w_resp (take_part rv w)) = None"
        by (simp_all add: take_part_def)
      with w' rv Some Nil show ?thesis by (simp add: rounds_left_def)
    next
      case (Cons p qs)
      with Some assms(2) have rv: "rv = RecvPart p" "ps' = qs" by (simp_all add: round_recv_def)
      with Some have "w_buffer (take_part rv w) = w_buffer w @ p"
        "resp_body (w_resp (take_part rv w)) = Some b"
        by (simp_all add: take_part_def)
      with w' rv Some Cons show ?thesis by (simp add: rounds_left_def)
    qed
  qed
qed

lemma write_all_completes:
  assumes "kernel_writes accepts"
  shows "rounds_left ps w < k \<Longrightarrow> (resp_body (w_resp w) = None \<longrightarrow> ps = []) \<Longrightarrow> writer_at r sent received w \<Longrightarrow>
    \<exists>out r'. write_all k accepts ps True w = (out, WriteDone r')"
proof (induction k arbitrary: ps w sent received)
  case 0
  then show ?case by simp
next
  case (Suc k)
  obtain rv ps' where rr: "round_recv ps True w = (rv, ps')" by (cases "round_recv ps True w")
  let ?n = "accepts k (length (w_buffer (take_part rv w)))"
  obtain o1 st1 where w1: "write_tcp_stream rv (Ok ?n) w = (o1, Ok st1)"
    using write_tcp_stream_Ok [of rv ?n w] by blast
  show ?case
  proof (cases st1)
    case (WriteDone r')
    with write_all_Suc [where accepts = accepts and k = k, OF rr w1] show ?thesis by simp
  next
    case (WritePartial w')
    note at1 = round_recv_at [OF Suc.prems(3) rr Suc.prems(2)]
    have "?n \<le> length (w_buffer (take_part rv w))" using assms by (simp add: kernel_writes_def)
    from write_tcp_stream_at [OF at1(1) this w1] WritePartial
    have w': "writer_at r (sent @ o1) (received @ part_of rv) w'"
      "resp_body (w_resp w') = resp_body (w_resp (take_part rv w))" by simp_all
    have "rounds_left ps' w' < k"
      using rounds_left_decr [OF assms rr w1 [unfolded WritePartial] Suc.prems(2)] Suc.prems(1) by simp
    from Suc.IH [OF this _ w'(1)] w'(2) at1(3) obtain o2 r' where
      "write_all k accepts ps' True w' = (o2, WriteDone r')" by auto
    with write_all_Suc [where accepts = accepts and k = k, OF rr w1] WritePartial show ?thesis by simp
  qed
qed

text \<open>C18: whatever the writes accept, a response is never mixed up: what has gone out and what
  is buffered are together the header block followed by the parts of the body received, in
  order; it is done only when all of it is out and the channel is closed, and the body length
  it then reports is the number of body bytes sent.\<close>

theorem response_bytes_sent:
  assumes "kernel_writes accepts" and "resp_body r = Some ch"
    and "write_all k accepts parts closed (writer_new r) = (out, st)"
  shows "case st of
       WritePartial w \<Rightarrow> \<exists>rec rest. concat parts = rec @ concat rest \<and> out @ w_buffer w = write_header r @ rec
     | WriteDone r' \<Rightarrow> out = write_header r @ concat parts \<and>
         resp_content_length r' = Some (length (concat parts)) \<and> resp_keep_alive r' = resp_keep_alive r"
proof -
  have "resp_body (w_resp (writer_new r)) = None \<longrightarrow> parts = []"
    using assms(2) by (simp add: writer_new_def Let_def)
  from write_all_at [OF assms(1,3) writer_new_at this] show ?thesis
    by (cases st) (auto simp: writer_at_def)
qed

text \<open>C19: a response whose application thread has finished is sent completely: after at most
  two more writes than it has parts and bytes, if every write takes at least one byte.\<close>

theorem response_completes:
  assumes "kernel_writes accepts" and "resp_body r = Some ch"
    and "k = 2 + length parts + length (write_header r) + length (concat parts)"
  shows "\<exists>r'. write_all k accepts parts True (writer_new r) = (write_header r @ concat parts, WriteDone r') \<and>
     resp_content_length r' = Some (length (concat parts))"
proof -
  have ps: "resp_body (w_resp (writer_new r)) = None \<longrightarrow> parts = []"
    using assms(2) by (simp add: writer_new_def Let_def)
  have "rounds_left parts (writer_new r) < k"
    using assms(2,3) by (simp add: rounds_left_def writer_new_def Let_def)
  from write_all_completes [OF assms(1) this ps writer_new_at] obtain out r' where
    d: "write_all k accepts parts True (writer_new r) = (out, WriteDone r')" by blast
  with write_all_at [OF assms(1) d writer_new_at ps] show ?thesis by simp
qed

text \<open>One byte at a time.\<close>

definition byte_writes :: "nat \<Rightarrow> nat \<Rightarrow> nat" where
  "byte_writes i a = min 1 a"

lemma byte_writes_ok: "kernel_writes byte_writes"
  by (simp add: kernel_writes_def byte_writes_def)

theorem response_bytes_sent_witness:
  "\<exists>rec rest. concat [''ab'', ''c''] = rec @ concat rest \<and>
     fst (write_all 0 byte_writes [''ab'', ''c''] True (writer_new (sample_response ''x'')))
       @ write_header (sample_response ''x'') = write_header (sample_response ''x'') @ rec"
  using response_bytes_sent [OF byte_writes_ok, of "sample_response ''x''" 0 0 "[''ab'', ''c'']" True]
  by (fastforce simp: sample_response_def writer_new_def Let_def)

theorem response_completes_witness:
  "\<exists>k r'. write_all k byte_writes [''ab'', ''c''] True (writer_new (sample_response ''x'')) =
     (write_header (sample_response ''x'') @ ''abc'', WriteDone r') \<and> resp_content_length r' = Some 3"
proof -
  have "resp_body (sample_response ''x'') = Some 0" by (simp add: sample_response_def)
  from response_completes [OF byte_writes_ok this refl, of "[''ab'', ''c'']"] show ?thesis by fastforce
qed

end
