(* ===== verification/Actions.thy ===== *)
theory Actions
  imports ServerReader ServerWriter Errors
begin

text \<open>
  \<open>src/worker/actions.rs\<close> and the three canned responses it includes: what the handlers of
  a worker's events ask the worker to do next. A TCP stream is its descriptor.
\<close>

definition HTTP_408_RESPONSE :: bytes where
  "HTTP_408_RESPONSE =
     ''HTTP/1.1 408 Request Timeout'' @ crlf @ ''Server: Casket'' @ crlf @ ''Connection: Close'' @ crlf @ crlf"

definition HTTP_503_RESPONSE :: bytes where
  "HTTP_503_RESPONSE =
     ''HTTP/1.1 503 Service Busy'' @ crlf @ ''Server: Casket'' @ crlf @ ''Connection: Close'' @ crlf @ crlf"

definition HTTP_504_RESPONSE :: bytes where
  "HTTP_504_RESPONSE =
     ''HTTP/1.1 504 Gateway Timeout'' @ crlf @ ''Server: Casket'' @ crlf @ ''Connection: Close'' @ crlf @ crlf"

record casket_response =
  cr_code :: u16
  cr_response :: bytes
  cr_reason :: string
  cr_bytes_sent :: nat

datatype action =
    NewServerRequest token raw_fd
  | ServerContinueRead token reader raw_fd
  | ServerReadDone token http_request raw_fd
  | ServerStreamEOF token raw_fd
  | ServerNewResponse token http_response
  | ServerContinueWrite token writer raw_fd
  | ServerDoneWrite token http_response raw_fd
  | ServerCasketResponseNew token raw_fd casket_response
  | ServerCasketResponseContinue token raw_fd casket_response
  | ServerCasketResponseDone token raw_fd casket_response
  | ServerPythonCodeTimeoutNew token systime

definition new_408_timeout :: "token \<Rightarrow> raw_fd \<Rightarrow> action" where
  "new_408_timeout tk fd = ServerCasketResponseNew tk fd
     \<lparr>cr_code = 408, cr_response = HTTP_408_RESPONSE, cr_reason = ''request read timeout'', cr_bytes_sent = 0\<rparr>"

definition new_503_service_busy :: "token \<Rightarrow> raw_fd \<Rightarrow> action" where
  "new_503_service_busy tk fd = ServerCasketResponseNew tk fd
     \<lparr>cr_code = 503, cr_response = HTTP_503_RESPONSE, cr_reason = ''service busy'', cr_bytes_sent = 0\<rparr>"

definition new_504_gateway_timeout :: "token \<Rightarrow> raw_fd \<Rightarrow> action" where
  "new_504_gateway_timeout tk fd = ServerCasketResponseNew tk fd
     \<lparr>cr_code = 504, cr_response = HTTP_504_RESPONSE, cr_reason = ''gateway timeout'', cr_bytes_sent = 0\<rparr>"

text \<open>\<open>Error\<close>; its \<open>source\<close> has one value, \<open>ErrorSource::Server\<close>.\<close>

record action_error =
  ae_error :: http_error
  ae_token :: token
  ae_stream :: raw_fd

type_synonym action_result = "(action_error, action) result"

text \<open>What a client reads of them.\<close>

lemma canned_lines:
  "crlf_lines HTTP_408_RESPONSE =
     [''HTTP/1.1 408 Request Timeout'', ''Server: Casket'', ''Connection: Close'', [], []]"
  "crlf_lines HTTP_503_RESPONSE =
     [''HTTP/1.1 503 Service Busy'', ''Server: Casket'', ''Connection: Close'', [], []]"
  "crlf_lines HTTP_504_RESPONSE =
     [''HTTP/1.1 504 Gateway Timeout'', ''Server: Casket'', ''Connection: Close'', [], []]"
  by code_simp+

end
