(* ===== verification/PythonThreads.thy ===== *)
theory PythonThreads
  imports Workq Actions
begin

text \<open>
  \<open>src/worker/pythonthreads.rs\<close>: the worker's side of its Python threads. Requests go out
  over the work queue; start times and responses come back over two channels, of which a
  call of \<open>take_responses\<close> sees a list of messages and whether the senders are gone.
\<close>

section \<open>State and operations\<close>

text \<open>
  The last three fields are not kept by the code: \<open>pt_inflight\<close> lists the tokens the threads
  still owe, \<open>pt_sent\<close> everything sent over the work queue and \<open>pt_taken\<close> every response received.
\<close>

record python_threads =
  queued_reqs :: "(token \<times> http_request) list"
  num_pending_reqs :: nat
  req_send :: "(usize \<times> http_request) sender"
  timed_out_reqs :: "token list"
  pt_inflight :: "token list"
  pt_sent :: "(usize \<times> http_request) list"
  pt_taken :: "(usize \<times> http_response) list"

definition python_threads_new :: "(usize \<times> http_request) sender \<Rightarrow> python_threads" where
  "python_threads_new sq =
     \<lparr>queued_reqs = [], num_pending_reqs = 0, req_send = sq, timed_out_reqs = [], pt_inflight = [],
      pt_sent = [], pt_taken = []\<rparr>"

definition queue_http_req :: "token \<Rightarrow> http_request \<Rightarrow> python_threads \<Rightarrow> python_threads" where
  "queue_http_req tk req pt = pt\<lparr>queued_reqs := queued_reqs pt @ [(tk, req)]\<rparr>"

definition has_queued_reqs :: "python_threads \<Rightarrow> bool" where
  "has_queued_reqs pt \<longleftrightarrow> queued_reqs pt \<noteq> []"

text \<open>\<open>drain\<close> empties the queue even when the loop is left early.\<close>

fun send_queued_loop :: "(token \<times> http_request) list \<Rightarrow> python_threads \<Rightarrow> (python_threads \<times> runtime_result) exec" where
  "send_queued_loop [] pt = Ret (pt, Ok ())"
| "send_queued_loop ((tk, req) # q) pt =
     exec_bind (workq_send (req_send pt) (tok tk, req))
       (\<lambda>(s, r). case r of
          Err _ \<Rightarrow> Ret (pt\<lparr>req_send := s\<rparr>, Err PythonThreadsDied)
        | Ok _ \<Rightarrow> send_queued_loop q
            (pt\<lparr>req_send := s, num_pending_reqs := num_pending_reqs pt + 1,
                pt_inflight := pt_inflight pt @ [tk], pt_sent := pt_sent pt @ [(tok tk, req)]\<rparr>))"

definition send_queued_requests :: "python_threads \<Rightarrow> (python_threads \<times> runtime_result) exec" where
  "send_queued_requests pt = send_queued_loop (queued_reqs pt) (pt\<lparr>queued_reqs := []\<rparr>)"

text \<open>A \<open>HashSet\<close> of tokens as a list without duplicates.\<close>

definition timeout_request :: "token \<Rightarrow> python_threads \<Rightarrow> python_threads" where
  "timeout_request tk pt =
     pt\<lparr>timed_out_reqs := (if tk \<in> set (timed_out_reqs pt) then timed_out_reqs pt else tk # timed_out_reqs pt)\<rparr>"

definition start_action :: "usize \<times> systime \<Rightarrow> action_result" where
  "start_action x = Ok (ServerPythonCodeTimeoutNew (Token (fst x)) (snd x))"

text \<open>\<open>num_pending_reqs -= 1\<close> panics below zero (with overflow checks; it wraps without).\<close>

fun take_resps_loop ::
  "(usize \<times> http_response) list \<Rightarrow> python_threads \<Rightarrow> action_result list \<Rightarrow>
     (python_threads \<times> action_result list) exec" where
  "take_resps_loop [] pt results = Ret (pt, results)"
| "take_resps_loop ((n, resp) # rs) pt results =
     (let tk = Token n;
          late = tk \<in> set (timed_out_reqs pt);
          pt = pt\<lparr>timed_out_reqs := removeAll tk (timed_out_reqs pt)\<rparr>;
          results = (if late then results else results @ [Ok (ServerNewResponse tk resp)])
      in if num_pending_reqs pt = 0 then Panic ''attempt to subtract with overflow''
         else take_resps_loop rs
                (pt\<lparr>num_pending_reqs := num_pending_reqs pt - 1, pt_inflight := remove1 tk (pt_inflight pt),
                    pt_taken := pt_taken pt @ [(n, resp)]\<rparr>)
                results)"

definition take_responses ::
  "(usize \<times> systime) list \<Rightarrow> bool \<Rightarrow> (usize \<times> http_response) list \<Rightarrow> bool \<Rightarrow>
     python_threads \<Rightarrow> action_result list \<Rightarrow> (python_threads \<times> action_result list \<times> runtime_result) exec" where
  "take_responses starts starts_gone resps resps_gone pt results =
     (let results = results @ map start_action starts
      in if starts_gone then Ret (pt, results, Err PythonThreadsDied)
         else exec_bind (take_resps_loop resps pt results)
           (\<lambda>(pt, results).
              Ret (pt, results, if resps_gone then Err PythonThreadsDied else Ok ())))"

section \<open>Accounting\<close>

definition resp_tokens :: "(usize \<times> 'a) list \<Rightarrow> token list" where
  "resp_tokens rs = map (\<lambda>x. Token (fst x)) rs"

lemma resp_tokens_simps [simp]:
  "resp_tokens [] = []" "resp_tokens ((n, r) # rs) = Token n # resp_tokens rs"
  "resp_tokens (rs @ rs') = resp_tokens rs @ resp_tokens rs'"
  by (simp_all add: resp_tokens_def)

text \<open>Each token is sent once; what has been sent is answered or with a thread.\<close>

definition books_ok :: "python_threads \<Rightarrow> bool" where
  "books_ok pt \<longleftrightarrow>
     distinct (map fst (queued_reqs pt) @ resp_tokens (pt_sent pt)) \<and>
     mset (pt_inflight pt) + mset (resp_tokens (pt_taken pt)) = mset (resp_tokens (pt_sent pt))"

definition threads_inv :: "python_threads \<Rightarrow> bool" where
  "threads_inv pt \<longleftrightarrow>
     sender_inv (req_send pt) \<and> books_ok pt \<and> num_pending_reqs pt = length (pt_inflight pt) \<and>
     distinct (map fst (queued_reqs pt) @ pt_inflight pt) \<and> distinct (timed_out_reqs pt) \<and>
     set (timed_out_reqs pt) \<subseteq> fst ` set (queued_reqs pt) \<union> set (pt_inflight pt)"

text \<open>The tokens the threads have been or will be asked about.\<close>

definition asked :: "python_threads \<Rightarrow> token set" where
  "asked pt = fst ` set (queued_reqs pt) \<union> set (resp_tokens (pt_sent pt))"

lemma books_timed_out [simp]:
  "books_ok (pt\<lparr>timed_out_reqs := ts\<rparr>) = books_ok pt" "asked (pt\<lparr>timed_out_reqs := ts\<rparr>) = asked pt"
  by (simp_all add: books_ok_def asked_def)

lemma books_new [simp]: "books_ok (python_threads_new sq)" "asked (python_threads_new sq) = {}"
  by (simp_all add: books_ok_def asked_def python_threads_new_def)

lemma inflight_sent: "books_ok pt \<Longrightarrow> set (pt_inflight pt) \<subseteq> set (resp_tokens (pt_sent pt))"
  unfolding books_ok_def by (metis mset_subset_eq_add_left set_mset_mono set_mset_mset)

text \<open>The tokens whose response will be delivered.\<close>

definition awaited :: "python_threads \<Rightarrow> token set" where
  "awaited pt = (fst ` set (queued_reqs pt) \<union> set (pt_inflight pt)) - set (timed_out_reqs pt)"

definition wire :: "token \<times> http_request \<Rightarrow> usize \<times> http_request" where
  "wire x = (tok (fst x), snd x)"

lemma wire_pair [simp]: "wire (tk, req) = (tok tk, req)"
  by (simp add: wire_def)

lemma resp_tokens_wire [simp]: "resp_tokens (map wire q) = map fst q"
  by (simp add: resp_tokens_def wire_def o_def)

lemma send_queued_loop_live:
  assumes "sender_inv (req_send pt)" and "live_channels (req_send pt)"
  shows "\<exists>s. send_queued_loop q pt =
      Ret (pt\<lparr>req_send := s, num_pending_reqs := num_pending_reqs pt + length q,
              pt_inflight := pt_inflight pt @ map fst q, pt_sent := pt_sent pt @ map wire q\<rparr>, Ok ()) \<and>
     sender_inv s \<and> live_channels s \<and>
     sender_delivered s = sender_delivered (req_send pt) + mset (map wire q)"
  using assms
proof (induction q arbitrary: pt)
  case Nil
  then show ?case by (intro exI [of _ "req_send pt"]) simp
next
  case (Cons x q)
  obtain tk req where x: "x = (tk, req)" by (cases x)
  from wq.send_usable [OF Cons.prems, of "(tok tk, req)"] obtain s where
    s: "workq_send (req_send pt) (tok tk, req) = Ret (s, Ok ())" "sender_inv s" "live_channels s"
    "sender_delivered s = add_mset (tok tk, req) (sender_delivered (req_send pt))" by blast
  let ?pt = "pt\<lparr>req_send := s, num_pending_reqs := num_pending_reqs pt + 1, pt_inflight := pt_inflight pt @ [tk],
      pt_sent := pt_sent pt @ [(tok tk, req)]\<rparr>"
  from Cons.IH [of ?pt] s obtain s' where
    "send_queued_loop q ?pt = Ret (?pt\<lparr>req_send := s', num_pending_reqs := num_pending_reqs ?pt + length q,
              pt_inflight := pt_inflight ?pt @ map fst q, pt_sent := pt_sent ?pt @ map wire q\<rparr>, Ok ())"
    "sender_inv s'" "live_channels s'" "sender_delivered s' = sender_delivered s + mset (map wire q)"
    by auto
  with s x show ?case by (intro exI [of _ s']) simp
qed

lemma send_queued_loop_dead:
  assumes "sender_inv (req_send pt)" and "\<not> live_channels (req_send pt)" and "q \<noteq> []"
  shows "\<exists>pt'. send_queued_loop q pt = Ret (pt', Err PythonThreadsDied)"
proof -
  obtain tk req q' where q: "q = (tk, req) # q'" using assms(3) by (metis list.exhaust surj_pair)
  from wq.send_unusable [OF assms(1,2), of "(tok tk, req)"] q show ?thesis by auto
qed

lemma send_queued_live:
  assumes "threads_inv pt" and "live_channels (req_send pt)"
  shows "\<exists>s. send_queued_requests pt =
      Ret (pt\<lparr>queued_reqs := [], req_send := s,
              num_pending_reqs := num_pending_reqs pt + length (queued_reqs pt),
              pt_inflight := pt_inflight pt @ map fst (queued_reqs pt),
              pt_sent := pt_sent pt @ map wire (queued_reqs pt)\<rparr>, Ok ()) \<and>
     sender_inv s \<and> live_channels s \<and>
     sender_delivered s = sender_delivered (req_send pt) + mset (map wire (queued_reqs pt))"
  using send_queued_loop_live [of "pt\<lparr>queued_reqs := []\<rparr>" "queued_reqs pt"] assms
  by (simp add: send_queued_requests_def threads_inv_def)

lemma send_queued_inv:
  assumes "threads_inv pt" and "send_queued_requests pt = Ret (pt', Ok ())" and "live_channels (req_send pt)"
  shows "threads_inv pt' \<and> awaited pt' = awaited pt"
proof -
  from send_queued_live [OF assms(1,3)] assms(2) obtain s where
    "pt' = pt\<lparr>queued_reqs := [], req_send := s,
              num_pending_reqs := num_pending_reqs pt + length (queued_reqs pt),
              pt_inflight := pt_inflight pt @ map fst (queued_reqs pt),
              pt_sent := pt_sent pt @ map wire (queued_reqs pt)\<rparr>" "sender_inv s" by auto
  with assms(1) show ?thesis by (auto simp: threads_inv_def awaited_def books_ok_def)
qed

text \<open>Either way it returns, and the books are kept when it succeeds.\<close>

lemma send_queued_cases:
  assumes "threads_inv pt"
  shows "\<exists>pt' r. send_queued_requests pt = Ret (pt', r) \<and>
     (r = Ok () \<longrightarrow> threads_inv pt' \<and> awaited pt' = awaited pt \<and>
        set (pt_inflight pt) \<subseteq> set (pt_inflight pt') \<and>
        asked pt' = asked pt)"
proof (cases "live_channels (req_send pt)")
  case True
  from send_queued_live [OF assms True] obtain s where
    s: "send_queued_requests pt =
      Ret (pt\<lparr>queued_reqs := [], req_send := s,
              num_pending_reqs := num_pending_reqs pt + length (queued_reqs pt),
              pt_inflight := pt_inflight pt @ map fst (queued_reqs pt),
              pt_sent := pt_sent pt @ map wire (queued_reqs pt)\<rparr>, Ok ())" by blast
  from send_queued_inv [OF assms s True] s show ?thesis by (auto simp: asked_def)
next
  case False
  show ?thesis
  proof (cases "queued_reqs pt")
    case Nil
    with assms show ?thesis by (simp add: send_queued_requests_def threads_inv_def awaited_def books_ok_def asked_def)
  next
    case (Cons x q)
    have inv: "sender_inv (req_send (pt\<lparr>queued_reqs := []\<rparr>))" using assms by (simp add: threads_inv_def)
    from send_queued_loop_dead [OF inv, of "x # q"] False Cons show ?thesis
      by (auto simp: send_queued_requests_def)
  qed
qed

text \<open>The loop over the responses, as one update.\<close>

fun delivered_resps :: "token list \<Rightarrow> (usize \<times> http_response) list \<Rightarrow> action_result list" where
  "delivered_resps late [] = []"
| "delivered_resps late ((n, resp) # rs) =
     (if Token n \<in> set late then [] else [Ok (ServerNewResponse (Token n) resp)])
       @ delivered_resps (removeAll (Token n) late) rs"

lemma take_resps_loop_eq:
  assumes "length rs \<le> num_pending_reqs pt"
  shows "take_resps_loop rs pt results =
     Ret (pt\<lparr>timed_out_reqs := fold removeAll (resp_tokens rs) (timed_out_reqs pt),
             num_pending_reqs := num_pending_reqs pt - length rs,
             pt_inflight := fold remove1 (resp_tokens rs) (pt_inflight pt), pt_taken := pt_taken pt @ rs\<rparr>,
          results @ delivered_resps (timed_out_reqs pt) rs)"
  using assms
  by (induction rs pt results rule: take_resps_loop.induct) (auto simp: Let_def)

lemma fold_removeAll_set: "set (fold removeAll ts xs) = set xs - set ts"
  by (induction ts arbitrary: xs) auto

lemma fold_removeAll_distinct: "distinct xs \<Longrightarrow> distinct (fold removeAll ts xs)"
  by (induction ts arbitrary: xs) (auto simp: distinct_removeAll)

lemma fold_remove1:
  assumes "distinct ts" and "set ts \<subseteq> set xs" and "distinct xs"
  shows "distinct (fold remove1 ts xs)" and "set (fold remove1 ts xs) = set xs - set ts"
    and "length (fold remove1 ts xs) = length xs - length ts"
  using assms
proof (induction ts arbitrary: xs)
  case (Cons t ts)
  { case 1 then show ?case using Cons.IH(1) [of "remove1 t xs"] by auto }
  { case 2 then show ?case using Cons.IH(2) [of "remove1 t xs"] by auto }
  { case 3 then show ?case using Cons.IH(3) [of "remove1 t xs"] by (auto simp: length_remove1) }
qed simp_all

lemma fold_remove1_mset:
  assumes "distinct ts" and "set ts \<subseteq> set xs"
  shows "mset (fold remove1 ts xs) + mset ts = mset xs"
proof -
  have "mset (fold remove1 ts ys) = mset ys - mset ts" for ys
    by (induction ts arbitrary: ys) simp_all
  moreover have "mset ts \<subseteq># mset xs"
    using assms by (metis mset_set_set_mset_msubset mset_set_set set_mset_mset subset_imp_msubset_mset_set
        subset_mset.trans finite_set)
  ultimately show ?thesis by simp
qed

lemma delivered_resps_distinct:
  assumes "distinct (resp_tokens rs)"
  shows "delivered_resps late rs =
     map (\<lambda>x. Ok (ServerNewResponse (Token (fst x)) (snd x)))
       (filter (\<lambda>x. Token (fst x) \<notin> set late) rs)"
  using assms
proof (induction rs arbitrary: late)
  case Nil
  then show ?case by simp
next
  case (Cons x rs)
  obtain n r where x: "x = (n, r)" by (cases x)
  from Cons.prems x have d: "distinct (resp_tokens rs)" "Token n \<notin> set (resp_tokens rs)" by simp_all
  then have "\<forall>y \<in> set rs. (Token (fst y) \<notin> set (removeAll (Token n) late)) = (Token (fst y) \<notin> set late)"
    by (auto simp: resp_tokens_def image_iff)
  then have "filter (\<lambda>x. Token (fst x) \<notin> set (removeAll (Token n) late)) rs =
      filter (\<lambda>x. Token (fst x) \<notin> set late) rs"
    by (intro filter_cong) auto
  with Cons.IH [OF d(1), of "removeAll (Token n) late"] x show ?case by simp
qed

text \<open>What the threads send back: each a request they owe, once.\<close>

definition answers_ok :: "(usize \<times> http_response) list \<Rightarrow> python_threads \<Rightarrow> bool" where
  "answers_ok rs pt \<longleftrightarrow> distinct (resp_tokens rs) \<and> set (resp_tokens rs) \<subseteq> set (pt_inflight pt)"

lemma answers_ok_length:
  assumes "threads_inv pt" and "answers_ok rs pt"
  shows "length rs \<le> num_pending_reqs pt"
proof -
  have "length (resp_tokens rs) = card (set (resp_tokens rs))"
    using assms(2) by (simp add: answers_ok_def distinct_card)
  also have "\<dots> \<le> card (set (pt_inflight pt))"
    using assms(2) by (intro card_mono) (simp_all add: answers_ok_def)
  also have "\<dots> \<le> length (pt_inflight pt)" by (rule card_length)
  finally show ?thesis using assms(1) by (simp add: threads_inv_def resp_tokens_def)
qed

lemma take_responses_eq:
  assumes "threads_inv pt" and "answers_ok rs pt"
  shows "\<exists>pt'. take_responses starts False rs gone pt results =
      Ret (pt', results @ map start_action starts @
         map (\<lambda>x. Ok (ServerNewResponse (Token (fst x)) (snd x)))
           (filter (\<lambda>x. Token (fst x) \<notin> set (timed_out_reqs pt)) rs),
         if gone then Err PythonThreadsDied else Ok ()) \<and>
     threads_inv pt' \<and> num_pending_reqs pt' + length rs = num_pending_reqs pt \<and>
     queued_reqs pt' = queued_reqs pt \<and> req_send pt' = req_send pt \<and>
     set (pt_inflight pt') = set (pt_inflight pt) - set (resp_tokens rs) \<and>
     set (timed_out_reqs pt') = set (timed_out_reqs pt) - set (resp_tokens rs) \<and> asked pt' = asked pt"
proof -
  let ?pt = "pt\<lparr>timed_out_reqs := fold removeAll (resp_tokens rs) (timed_out_reqs pt),
             num_pending_reqs := num_pending_reqs pt - length rs,
             pt_inflight := fold remove1 (resp_tokens rs) (pt_inflight pt), pt_taken := pt_taken pt @ rs\<rparr>"
  note len = answers_ok_length [OF assms]
  have d: "distinct (resp_tokens rs)" "set (resp_tokens rs) \<subseteq> set (pt_inflight pt)" "distinct (pt_inflight pt)"
    using assms by (simp_all add: answers_ok_def threads_inv_def)
  have l: "length (resp_tokens rs) = length rs" by (simp add: resp_tokens_def)
  have "books_ok ?pt"
    using assms(1) fold_remove1_mset [OF d(1,2), symmetric] by (simp add: threads_inv_def books_ok_def ac_simps)
  then have inv: "threads_inv ?pt"
    using assms(1) fold_remove1 [OF d] d(2) l
    by (auto simp: threads_inv_def fold_removeAll_set fold_removeAll_distinct)
  show ?thesis
    using inv len l fold_remove1(2) [OF d]
    by (intro exI [of _ ?pt])
      (simp add: take_responses_def Let_def take_resps_loop_eq [OF len] delivered_resps_distinct [OF d(1)]
        fold_removeAll_set asked_def)
qed

section \<open>Properties\<close>

text \<open>Sending the queue fails exactly when something is queued and no thread is left to
  take it; otherwise the queue empties, each request reaches the work queue with its token
  once, and as many more requests are pending.\<close>

theorem queued_requests_sent:
  assumes "threads_inv pt"
  shows "(\<exists>pt'. send_queued_requests pt = Ret (pt', Ok ()) \<and>
       queued_reqs pt' = [] \<and> threads_inv pt' \<and> awaited pt' = awaited pt \<and>
       num_pending_reqs pt' = num_pending_reqs pt + length (queued_reqs pt) \<and>
       sender_delivered (req_send pt') = sender_delivered (req_send pt) + mset (map wire (queued_reqs pt)))
   \<longleftrightarrow> live_channels (req_send pt) \<or> queued_reqs pt = []"
proof (cases "live_channels (req_send pt)")
  case True
  from send_queued_live [OF assms True] obtain s where
    s: "send_queued_requests pt =
      Ret (pt\<lparr>queued_reqs := [], req_send := s,
              num_pending_reqs := num_pending_reqs pt + length (queued_reqs pt),
              pt_inflight := pt_inflight pt @ map fst (queued_reqs pt),
              pt_sent := pt_sent pt @ map wire (queued_reqs pt)\<rparr>, Ok ())"
    "sender_delivered s = sender_delivered (req_send pt) + mset (map wire (queued_reqs pt))" by blast
  from send_queued_inv [OF assms s(1) True] s True show ?thesis by simp
next
  case False
  have inv: "sender_inv (req_send (pt\<lparr>queued_reqs := []\<rparr>))" using assms by (simp add: threads_inv_def)
  show ?thesis
  proof (cases "queued_reqs pt")
    case Nil
    with assms show ?thesis by (simp add: send_queued_requests_def threads_inv_def awaited_def books_ok_def asked_def)
  next
    case (Cons x q)
    with send_queued_loop_dead [OF inv, of "x # q"] False obtain pt' where
      "send_queued_requests pt = Ret (pt', Err PythonThreadsDied)" by (auto simp: send_queued_requests_def)
    with Cons False show ?thesis by simp
  qed
qed

text \<open>A poll of the threads hands over every response whose request has not timed out, once
  and in order, discards the late ones and forgets that they were late, and counts each as no
  longer pending; the counter never goes below zero while every thread answers only what it
  was given.\<close>

theorem responses_taken:
  assumes "threads_inv pt" and "answers_ok rs pt"
  shows "\<exists>pt' results. take_responses starts False rs False pt [] = Ret (pt', results, Ok ()) \<and>
     results = map start_action starts @ map (\<lambda>x. Ok (ServerNewResponse (Token (fst x)) (snd x)))
       (filter (\<lambda>x. Token (fst x) \<in> awaited pt) rs) \<and>
     threads_inv pt' \<and> num_pending_reqs pt' + length rs = num_pending_reqs pt \<and>
     awaited pt' = awaited pt - set (resp_tokens rs)"
proof -
  from take_responses_eq [OF assms, of starts False "[]"] obtain pt' where
    t: "take_responses starts False rs False pt [] =
      Ret (pt', map start_action starts @ map (\<lambda>x. Ok (ServerNewResponse (Token (fst x)) (snd x)))
           (filter (\<lambda>x. Token (fst x) \<notin> set (timed_out_reqs pt)) rs), Ok ())"
    "threads_inv pt'" "num_pending_reqs pt' + length rs = num_pending_reqs pt"
    "queued_reqs pt' = queued_reqs pt" "set (pt_inflight pt') = set (pt_inflight pt) - set (resp_tokens rs)"
    "set (timed_out_reqs pt') = set (timed_out_reqs pt) - set (resp_tokens rs)" by auto
  have "\<forall>x \<in> set rs. (Token (fst x) \<in> awaited pt) = (Token (fst x) \<notin> set (timed_out_reqs pt))"
    using assms(2) by (auto simp: answers_ok_def awaited_def resp_tokens_def)
  then have f: "filter (\<lambda>x. Token (fst x) \<in> awaited pt) rs =
      filter (\<lambda>x. Token (fst x) \<notin> set (timed_out_reqs pt)) rs"
    by (intro filter_cong) auto
  have "set (resp_tokens rs) \<inter> fst ` set (queued_reqs pt) = {}"
    using assms by (auto simp: answers_ok_def threads_inv_def)
  then have "awaited pt' = awaited pt - set (resp_tokens rs)"
    using t(4-6) by (auto simp: awaited_def)
  with t(1-3) f show ?thesis by simp
qed

definition sample_request :: http_request where
  "sample_request =
     \<lparr>req_method = ''GET'', req_url = \<lparr>url_path = ''/'', url_query = None\<rparr>, req_headers = [],
      req_context = \<lparr>trace_id = ''4c'', span_id = ''7f'', parent_id = None\<rparr>, req_keep_alive = True,
      req_content_type = None, req_content_length = 0, req_body = Some []\<rparr>"

text \<open>Two requests queued and two with a thread, one of them timed out.\<close>

definition busy_threads :: python_threads where
  "busy_threads =
     \<lparr>queued_reqs = [(Token 5, sample_request), (Token 6, sample_request)], num_pending_reqs = 2,
      req_send = new_recv workq_new, timed_out_reqs = [Token 3], pt_inflight = [Token 3, Token 4],
      pt_sent = [(3, sample_request), (4, sample_request)], pt_taken = []\<rparr>"

lemma busy_threads_inv: "threads_inv busy_threads"
  by (simp add: threads_inv_def books_ok_def busy_threads_def sender_inv_def new_recv_def workq_new_def)

theorem queued_requests_sent_witness:
  "\<exists>pt'. send_queued_requests busy_threads = Ret (pt', Ok ()) \<and> num_pending_reqs pt' = 4"
proof -
  have "live_channels (req_send busy_threads)"
    by (simp add: busy_threads_def live_channels_def new_recv_def workq_new_def chan_new_def)
  with queued_requests_sent [OF busy_threads_inv] show ?thesis by (auto simp: busy_threads_def)
qed

theorem responses_taken_witness:
  "\<exists>pt'. take_responses [] False [(3, sample_response ''late''), (4, sample_response ''ok'')] False busy_threads [] =
     Ret (pt', [Ok (ServerNewResponse (Token 4) (sample_response ''ok''))], Ok ())"
proof -
  have "answers_ok [(3, sample_response ''late''), (4, sample_response ''ok'')] busy_threads"
    by (simp add: answers_ok_def busy_threads_def)
  from responses_taken [OF busy_threads_inv this, of "[]"] show ?thesis
    by (auto simp: awaited_def busy_threads_def)
qed

end
