(* ===== verification/Worker.thy ===== *)
theory Worker
  imports Config Link Poller PythonThreads
begin

text \<open>
  \<open>src/worker/mod.rs\<close>: the worker process. It takes connections from its Unix socket, reads
  a request from each, has a Python thread answer it, writes the answer, and gives the
  connection back with one message. One turn of the \<open>loop\<close> of \<open>run_worker\<close> is
  \<open>worker_turn\<close>; what the system calls and channels of that turn return is its input.
\<close>

section \<open>State and inputs\<close>

definition UNIX_STREAM_TOKEN :: token where
  "UNIX_STREAM_TOKEN = Token 0"

definition NO_TOKEN :: token where
  "NO_TOKEN = Token 1"

definition POLL_TIME :: duration where
  "POLL_TIME = from_millis 20"

text \<open>
  \<open>wk_log\<close> records what is visible outside: log lines, streams that are dropped (which
  closes the descriptor), streams turned into a bare descriptor by \<open>into_raw_fd\<close>, and the bytes
  read from and written to the Unix stream.
\<close>

datatype worker_log =
    LogResponse http_response
  | LogCasket u16 string
  | LogIoFailed string io_error
  | LogHeaderParse string
  | LogInvalid string
  | StreamDropped raw_fd
  | StreamForgotten raw_fd
  | UnixGot bytes "raw_fd list"
  | UnixSent bytes

text \<open>The struct \<open>Worker\<close>, then the local variables of \<open>run_worker\<close>.\<close>

record worker =
  wk_buf :: worker_buf
  wk_poll :: poller
  wk_threads :: python_threads
  wk_reading :: "(token, raw_fd \<times> reader) hashmap"
  wk_pending :: "(token, raw_fd) hashmap"
  wk_writing :: "(token, raw_fd \<times> writer) hashmap"
  wk_casket :: "(token, raw_fd \<times> casket_response) hashmap"
  wk_results :: "action_result list"
  wk_timeouts :: "(token \<times> timeout) list"
  wk_closing :: bool
  wk_log :: "worker_log list"

datatype poll_op = OpRegister | OpReregister | OpDeregister

record worker_input =
  wi_now :: systime
  wi_poll_err :: "io_error option"
  wi_mio :: "mio_event list"
  wi_unix_read :: "(io_error, bytes) result"
  wi_unix_fds :: "raw_fd list"
  wi_unix_write :: "(io_error, nat) result"
  wi_lib :: "token \<Rightarrow> http_lib"
  wi_read :: "token \<Rightarrow> (io_error, bytes) result"
  wi_recv :: "token \<Rightarrow> recv"
  wi_write :: "token \<Rightarrow> (io_error, nat) result"
  wi_reg :: "token \<Rightarrow> poll_op \<Rightarrow> io_error option"
  wi_action_now :: "token \<Rightarrow> systime"
  wi_starts :: "(usize \<times> systime) list"
  wi_starts_gone :: bool
  wi_resps :: "(usize \<times> http_response) list"
  wi_resps_gone :: bool

text \<open>Before the loop, with the Unix stream registered for reading.\<close>

definition worker_start :: "(usize \<times> http_request) sender \<Rightarrow> worker" where
  "worker_start sq =
     \<lparr>wk_buf = worker_buf_new,
      wk_poll = fst (register_read None UNIX_STREAM_TOKEN UnixStreamRead poller_new),
      wk_threads = python_threads_new sq,
      wk_reading = [], wk_pending = [], wk_writing = [], wk_casket = [],
      wk_results = [], wk_timeouts = [], wk_closing = False, wk_log = []\<rparr>"

section \<open>Small steps\<close>

definition wlog :: "worker_log \<Rightarrow> worker \<Rightarrow> worker" where
  "wlog l w = w\<lparr>wk_log := wk_log w @ [l]\<rparr>"

definition push_action :: "action_result \<Rightarrow> worker \<Rightarrow> worker" where
  "push_action r w = w\<lparr>wk_results := wk_results w @ [r]\<rparr>"

text \<open>\<open>HashMap::insert\<close> drops the stream it displaces.\<close>

definition displaced :: "raw_fd option \<Rightarrow> worker \<Rightarrow> worker" where
  "displaced old w = (case old of Some fd \<Rightarrow> wlog (StreamDropped fd) w | None \<Rightarrow> w)"

definition put_reading :: "token \<Rightarrow> raw_fd \<times> reader \<Rightarrow> worker \<Rightarrow> worker" where
  "put_reading tk x w =
     displaced (map_option fst (hm_get (wk_reading w) tk)) (w\<lparr>wk_reading := hm_insert tk x (wk_reading w)\<rparr>)"

definition put_pending :: "token \<Rightarrow> raw_fd \<Rightarrow> worker \<Rightarrow> worker" where
  "put_pending tk fd w =
     displaced (hm_get (wk_pending w) tk) (w\<lparr>wk_pending := hm_insert tk fd (wk_pending w)\<rparr>)"

definition put_writing :: "token \<Rightarrow> raw_fd \<times> writer \<Rightarrow> worker \<Rightarrow> worker" where
  "put_writing tk x w =
     displaced (map_option fst (hm_get (wk_writing w) tk)) (w\<lparr>wk_writing := hm_insert tk x (wk_writing w)\<rparr>)"

definition put_casket :: "token \<Rightarrow> raw_fd \<times> casket_response \<Rightarrow> worker \<Rightarrow> worker" where
  "put_casket tk x w =
     displaced (map_option fst (hm_get (wk_casket w) tk)) (w\<lparr>wk_casket := hm_insert tk x (wk_casket w)\<rparr>)"

text \<open>A call on the message buffer, and a call on the poller whose failure ends the action.\<close>

definition respond :: "(worker_buf \<Rightarrow> worker_buf exec) \<Rightarrow> worker \<Rightarrow> worker exec" where
  "respond f w = exec_bind (f (wk_buf w)) (\<lambda>b. Ret (w\<lparr>wk_buf := b\<rparr>))"

definition with_poll ::
  "codec \<Rightarrow> token \<Rightarrow> raw_fd \<Rightarrow> (poller \<Rightarrow> poller \<times> (io_error, unit) result) \<Rightarrow>
     (worker \<Rightarrow> worker exec) \<Rightarrow> worker \<Rightarrow> worker exec" where
  "with_poll cd tk fd call k w =
     (let (p, r) = call (wk_poll w);
          w = w\<lparr>wk_poll := p\<rparr>
      in case r of
           Err e \<Rightarrow> respond (resp_stream_reg_error cd tk e) (wlog (StreamDropped fd) w)
         | Ok _ \<Rightarrow> k w)"

section \<open>Actions and errors\<close>

fun handle_action :: "codec \<Rightarrow> config \<Rightarrow> worker_input \<Rightarrow> action \<Rightarrow> worker \<Rightarrow> worker exec" where
  "handle_action cd cfg i (NewServerRequest tk fd) w =
     with_poll cd tk fd (register_read (wi_reg i tk OpRegister) tk ServerStreamRead)
       (\<lambda>w. exec_bind (systime_add (wi_action_now i tk) (request_read_timeout cfg))
          (\<lambda>tmo. Ret (put_reading tk (fd, reader_new)
             (w\<lparr>wk_poll := timer_event tk tmo RequestReadTimeout (wk_poll w)\<rparr>)))) w"
| "handle_action cd cfg i (ServerContinueRead tk rd fd) w =
     with_poll cd tk fd (reregister_read (wi_reg i tk OpReregister) tk ServerStreamRead)
       (\<lambda>w. Ret (put_reading tk (fd, rd) w)) w"
| "handle_action cd cfg i (ServerReadDone tk req fd) w =
     with_poll cd tk fd (deregister (wi_reg i tk OpDeregister) tk)
       (\<lambda>w. Ret (put_pending tk fd (w\<lparr>wk_threads := queue_http_req tk req (wk_threads w)\<rparr>))) w"
| "handle_action cd cfg i (ServerStreamEOF tk fd) w =
     with_poll cd tk fd (deregister (wi_reg i tk OpDeregister) tk)
       (\<lambda>w. respond (resp_stream_done_ok cd tk fd False) (wlog (StreamForgotten fd) w)) w"
| "handle_action cd cfg i (ServerNewResponse tk resp) w =
     (case hm_get (wk_pending w) tk of
        None \<Rightarrow> Panic ''worker couldn't find pending stream''
      | Some fd \<Rightarrow>
          with_poll cd tk fd (register_write (wi_reg i tk OpRegister) tk ServerStreamWrite)
            (\<lambda>w. Ret (put_writing tk (fd, writer_new resp) w))
            (w\<lparr>wk_pending := hm_delete tk (wk_pending w)\<rparr>))"
| "handle_action cd cfg i (ServerContinueWrite tk wr fd) w =
     with_poll cd tk fd (reregister_write (wi_reg i tk OpReregister) tk ServerStreamWrite)
       (\<lambda>w. Ret (put_writing tk (fd, wr) w)) w"
| "handle_action cd cfg i (ServerDoneWrite tk resp fd) w =
     with_poll cd tk fd (deregister (wi_reg i tk OpDeregister) tk)
       (\<lambda>w. respond (resp_stream_done_ok cd tk fd (resp_keep_alive resp)) (wlog (StreamForgotten fd) w))
       (wlog (LogResponse resp) w)"
| "handle_action cd cfg i (ServerCasketResponseNew tk fd cr) w =
     with_poll cd tk fd (register_write (wi_reg i tk OpRegister) tk CasketResponseWrite)
       (\<lambda>w. Ret (put_casket tk (fd, cr) w)) w"
| "handle_action cd cfg i (ServerCasketResponseContinue tk fd cr) w =
     with_poll cd tk fd (reregister_write (wi_reg i tk OpReregister) tk CasketResponseWrite)
       (\<lambda>w. Ret (put_casket tk (fd, cr) w)) w"
| "handle_action cd cfg i (ServerCasketResponseDone tk fd cr) w =
     with_poll cd tk fd (deregister (wi_reg i tk OpDeregister) tk)
       (\<lambda>w. respond (resp_stream_done_ok cd tk fd False)
          (wlog (StreamForgotten fd) (wlog (LogCasket (cr_code cr) (cr_reason cr)) w))) w"
| "handle_action cd cfg i (ServerPythonCodeTimeoutNew tk st) w =
     exec_bind (systime_add st (python_code_timeout cfg))
       (\<lambda>tmo. Ret (w\<lparr>wk_poll := timer_event tk tmo PythonCodeTimeout (wk_poll w)\<rparr>))"

definition error_log :: "http_error \<Rightarrow> worker_log" where
  "error_log e =
     (case e of
        HttpIo reason err \<Rightarrow> LogIoFailed reason err
      | HeaderParse t \<Rightarrow> LogHeaderParse t
      | BadValue t \<Rightarrow> LogInvalid t)"

definition handle_error :: "codec \<Rightarrow> worker_input \<Rightarrow> action_error \<Rightarrow> worker \<Rightarrow> worker exec" where
  "handle_error cd i e w =
     (let tk = ae_token e; fd = ae_stream e
      in with_poll cd tk fd (deregister (wi_reg i tk OpDeregister) tk)
           (\<lambda>w. respond
              (case ae_error e of
                 HttpIo _ err \<Rightarrow> resp_io_error cd tk err
               | HeaderParse _ \<Rightarrow> resp_bad_client cd tk
               | BadValue _ \<Rightarrow> resp_bad_client cd tk)
              (wlog (StreamDropped fd) w))
           (wlog (error_log (ae_error e)) w))"

definition handle_result :: "codec \<Rightarrow> config \<Rightarrow> worker_input \<Rightarrow> action_result \<Rightarrow> worker \<Rightarrow> worker exec" where
  "handle_result cd cfg i r w =
     (case r of Ok act \<Rightarrow> handle_action cd cfg i act w | Err e \<Rightarrow> handle_error cd i e w)"

fun handle_results :: "codec \<Rightarrow> config \<Rightarrow> worker_input \<Rightarrow> action_result list \<Rightarrow> worker \<Rightarrow> worker exec" where
  "handle_results cd cfg i [] w = Ret w"
| "handle_results cd cfg i (r # rs) w =
     exec_bind (handle_result cd cfg i r w) (handle_results cd cfg i rs)"

definition drain_results :: "codec \<Rightarrow> config \<Rightarrow> worker_input \<Rightarrow> worker \<Rightarrow> worker exec" where
  "drain_results cd cfg i w = handle_results cd cfg i (wk_results w) (w\<lparr>wk_results := []\<rparr>)"

section \<open>Events\<close>

definition stream_error :: "token \<Rightarrow> raw_fd \<Rightarrow> http_error \<Rightarrow> action_result" where
  "stream_error tk fd e = Err \<lparr>ae_error = e, ae_token = tk, ae_stream = fd\<rparr>"

definition event_server_stream_read ::
  "http_lib \<Rightarrow> (io_error, bytes) result \<Rightarrow> token \<Rightarrow> raw_fd \<Rightarrow> reader \<Rightarrow> action_result exec" where
  "event_server_stream_read lib res tk fd rd =
     exec_bind (read_tcp_stream lib res rd)
       (\<lambda>r. Ret (case r of
          Err e \<Rightarrow> stream_error tk fd e
        | Ok (ReadPartial rd) \<Rightarrow> Ok (ServerContinueRead tk rd fd)
        | Ok (ReadComplete req) \<Rightarrow> Ok (ServerReadDone tk req fd)
        | Ok StreamEOF \<Rightarrow> Ok (ServerStreamEOF tk fd)))"

definition event_server_stream_write ::
  "recv \<Rightarrow> (io_error, nat) result \<Rightarrow> token \<Rightarrow> raw_fd \<Rightarrow> writer \<Rightarrow> action_result" where
  "event_server_stream_write rv res tk fd wr =
     (case snd (write_tcp_stream rv res wr) of
        Err e \<Rightarrow> stream_error tk fd e
      | Ok (WritePartial wr) \<Rightarrow> Ok (ServerContinueWrite tk wr fd)
      | Ok (WriteDone resp) \<Rightarrow> Ok (ServerDoneWrite tk resp fd))"

definition event_casket_response_write ::
  "(io_error, nat) result \<Rightarrow> token \<Rightarrow> raw_fd \<Rightarrow> casket_response \<Rightarrow> action_result" where
  "event_casket_response_write res tk fd cr =
     (case res of
        Err e \<Rightarrow> stream_error tk fd (HttpIo ''failed to write casket response to tcp stream'' e)
      | Ok sz \<Rightarrow>
          (let cr = cr\<lparr>cr_bytes_sent := cr_bytes_sent cr + sz\<rparr>
           in if cr_bytes_sent cr = length (cr_response cr)
              then Ok (ServerCasketResponseDone tk fd cr)
              else Ok (ServerCasketResponseContinue tk fd cr)))"

definition leave_on_err :: "worker \<Rightarrow> runtime_result \<Rightarrow> worker turn exec" where
  "leave_on_err w r = (case r of Ok _ \<Rightarrow> Ret (Next w) | Err e \<Rightarrow> Ret (Leave w (Err e)))"

definition fatal_result :: "string \<Rightarrow> (io_error, unit) result \<Rightarrow> runtime_result" where
  "fatal_result t r = (case r of Ok _ \<Rightarrow> Ok () | Err e \<Rightarrow> Err (fatal_io_error t e))"

fun handle_worker_event :: "codec \<Rightarrow> config \<Rightarrow> worker_input \<Rightarrow> token \<times> event \<Rightarrow> worker \<Rightarrow> worker turn exec" where
  "handle_worker_event cd cfg i (tk, CtrlC) w = Ret (Next (w\<lparr>wk_closing := True\<rparr>))"
| "handle_worker_event cd cfg i (tk, UnixStreamRead) w =
     exec_bind (wb_read_stream cd (wi_unix_read i) (wi_unix_fds i) (wk_buf w))
       (\<lambda>(b, r). leave_on_err (wlog (UnixGot (read_bytes (wi_unix_read i)) (wi_unix_fds i)) (w\<lparr>wk_buf := b\<rparr>))
          (fatal_result ''worker couldn't read unix stream'' r))"
| "handle_worker_event cd cfg i (tk, UnixStreamWrite) w =
     (let (b, out, r) = wb_write_stream (wi_unix_write i) (wk_buf w)
      in leave_on_err (wlog (UnixSent out) (w\<lparr>wk_buf := b\<rparr>)) (fatal_result ''worker couldn't read unix stream'' r))"
| "handle_worker_event cd cfg i (tk, NewStreamFd fd) w =
     Ret (Next (push_action
       (Ok (if max_requests cfg \<le> num_pending_reqs (wk_threads w)
            then new_503_service_busy tk fd else NewServerRequest tk fd)) w))"
| "handle_worker_event cd cfg i (tk, ServerStreamRead) w =
     (case hm_get (wk_reading w) tk of
        None \<Rightarrow> Panic ''couldn't find reading stream''
      | Some (fd, rd) \<Rightarrow>
          exec_bind (event_server_stream_read (wi_lib i tk) (wi_read i tk) tk fd rd)
            (\<lambda>r. Ret (Next (push_action r (w\<lparr>wk_reading := hm_delete tk (wk_reading w)\<rparr>)))))"
| "handle_worker_event cd cfg i (tk, QueuedRequests) w =
     exec_bind (send_queued_requests (wk_threads w))
       (\<lambda>(pt, r). leave_on_err (w\<lparr>wk_threads := pt\<rparr>) r)"
| "handle_worker_event cd cfg i (tk, PollPythonResponses) w =
     exec_bind (take_responses (wi_starts i) (wi_starts_gone i) (wi_resps i) (wi_resps_gone i)
         (wk_threads w) (wk_results w))
       (\<lambda>(pt, results, r). leave_on_err (w\<lparr>wk_threads := pt, wk_results := results\<rparr>) r)"
| "handle_worker_event cd cfg i (tk, ServerStreamWrite) w =
     (case hm_get (wk_writing w) tk of
        None \<Rightarrow> Panic ''couldn't find writing stream''
      | Some (fd, wr) \<Rightarrow>
          Ret (Next (push_action (event_server_stream_write (wi_recv i tk) (wi_write i tk) tk fd wr)
            (w\<lparr>wk_writing := hm_delete tk (wk_writing w)\<rparr>))))"
| "handle_worker_event cd cfg i (tk, RequestReadTimeout) w =
     Ret (Next (w\<lparr>wk_timeouts := wk_timeouts w @ [(tk, RequestRead)]\<rparr>))"
| "handle_worker_event cd cfg i (tk, CasketResponseWrite) w =
     (case hm_get (wk_casket w) tk of
        None \<Rightarrow> Panic ''couldn't find request read timeout stream''
      | Some (fd, cr) \<Rightarrow>
          Ret (Next (push_action (event_casket_response_write (wi_write i tk) tk fd cr)
            (w\<lparr>wk_casket := hm_delete tk (wk_casket w)\<rparr>))))"
| "handle_worker_event cd cfg i (tk, PythonCodeTimeout) w =
     Ret (Next (w\<lparr>wk_timeouts := wk_timeouts w @ [(tk, PythonCode)]\<rparr>))"

fun handle_timeout :: "worker_input \<Rightarrow> token \<times> timeout \<Rightarrow> worker \<Rightarrow> worker turn exec" where
  "handle_timeout i (tk, RequestRead) w =
     (case hm_get (wk_reading w) tk of
        None \<Rightarrow> Ret (Next w)
      | Some (fd, _) \<Rightarrow>
          (let (p, r) = deregister (wi_reg i tk OpDeregister) tk (wk_poll w);
               w = w\<lparr>wk_reading := hm_delete tk (wk_reading w), wk_poll := p\<rparr>
           in case r of
                Err e \<Rightarrow> Ret (Leave (wlog (StreamDropped fd) w)
                  (Err (fatal_io_error ''worker couldn't deregister stream poll'' e)))
              | Ok _ \<Rightarrow> Ret (Next (push_action (Ok (new_408_timeout tk fd)) w))))"
| "handle_timeout i (tk, PythonCode) w =
     (case hm_get (wk_pending w) tk of
        None \<Rightarrow> Ret (Next w)
      | Some fd \<Rightarrow>
          Ret (Next (push_action (Ok (new_504_gateway_timeout tk fd))
            (w\<lparr>wk_pending := hm_delete tk (wk_pending w),
               wk_threads := timeout_request tk (wk_threads w)\<rparr>))))"

section \<open>One turn of the loop\<close>

definition may_close :: "worker \<Rightarrow> bool" where
  "may_close w \<longleftrightarrow>
     wk_closing w \<and> \<not> wb_has_data_to_send (wk_buf w) \<and> num_pending_reqs (wk_threads w) = 0 \<and>
     \<not> has_queued_reqs (wk_threads w) \<and> wk_writing w = []"

text \<open>The events the worker makes itself, before it polls.\<close>

definition own_events :: "worker \<Rightarrow> (token \<times> event) list" where
  "own_events w =
     map (\<lambda>(tk, fd). (tk, NewStreamFd fd)) (snd (drain_streams (wk_buf w)))
     @ (if 0 < num_pending_reqs (wk_threads w) then [(NO_TOKEN, PollPythonResponses)] else [])
     @ (if has_queued_reqs (wk_threads w) then [(NO_TOKEN, QueuedRequests)] else [])"

definition worker_poll_timeout :: "worker \<Rightarrow> duration option" where
  "worker_poll_timeout w = (if own_events w = [] then None else Some POLL_TIME)"

definition poll_events :: "worker_input \<Rightarrow> worker \<Rightarrow> ((token \<times> event) list \<times> worker turn) exec" where
  "poll_events i w =
     (let evs = own_events w;
          w = w\<lparr>wk_buf := fst (drain_streams (wk_buf w))\<rparr>
      in exec_bind (tick (wi_now i) (wi_poll_err i) (wi_mio i) evs (wk_poll w))
           (\<lambda>(p, evs, r).
              Ret (evs, case r of Ok _ \<Rightarrow> Next (w\<lparr>wk_poll := p\<rparr>) | Err e \<Rightarrow> Leave (w\<lparr>wk_poll := p\<rparr>) (Err e))))"

definition finish :: "worker exec \<Rightarrow> worker turn exec" where
  "finish m = exec_bind m (\<lambda>w. Ret (Next w))"

definition drain_timeouts :: "worker_input \<Rightarrow> worker \<Rightarrow> worker turn exec" where
  "drain_timeouts i w = turn_fold (handle_timeout i) (wk_timeouts w) (w\<lparr>wk_timeouts := []\<rparr>)"

definition rearm_unix :: "worker_input \<Rightarrow> worker \<Rightarrow> worker turn exec" where
  "rearm_unix i w =
     (let r = wi_reg i UNIX_STREAM_TOKEN OpReregister;
          (p, res) = (if wb_has_data_to_send (wk_buf w)
             then reregister_rw r UNIX_STREAM_TOKEN UnixStreamRead UnixStreamWrite (wk_poll w)
             else reregister_read r UNIX_STREAM_TOKEN UnixStreamRead (wk_poll w))
      in leave_on_err (w\<lparr>wk_poll := p\<rparr>) (fatal_result ''worker failed to reregister unix stream'' res))"

definition handle_batch :: "codec \<Rightarrow> config \<Rightarrow> worker_input \<Rightarrow> (token \<times> event) list \<Rightarrow> worker \<Rightarrow> worker turn exec" where
  "handle_batch cd cfg i evs w =
     turn_bind (turn_fold (handle_worker_event cd cfg i) evs w) (\<lambda>w.
     turn_bind (finish (drain_results cd cfg i w)) (\<lambda>w.
     turn_bind (drain_timeouts i w) (\<lambda>w.
     turn_bind (finish (drain_results cd cfg i w))
       (rearm_unix i))))"

definition worker_turn :: "codec \<Rightarrow> config \<Rightarrow> worker_input \<Rightarrow> worker \<Rightarrow> worker turn exec" where
  "worker_turn cd cfg i w =
     (if may_close w then Ret (Leave w (Ok ()))
      else exec_bind (poll_events i w)
        (\<lambda>(evs, t). turn_bind (Ret t) (handle_batch cd cfg i evs)))"

end
