(* ===== verification/WorkerInv.thy ===== *)
theory WorkerInv
  imports Worker
begin

text \<open>
  The ledger of a worker: which table, pending result or event holds each connection the
  server handed over, what the Python threads still owe, and what the poller has registered.
  Every action and error keeps it.
\<close>

section \<open>Tokens of a result\<close>

text \<open>
  \<open>stream_tok\<close>: the result carries the connection; \<open>resp_tok\<close>: it carries a response for a
  pending one; \<open>reg_tok\<close> and \<open>new_tok\<close>: its connection is, or is not, registered with the
  poller; \<open>read_tok\<close>: its request is still to be read or queued.
\<close>

fun stream_tok :: "action_result \<Rightarrow> token list" where
  "stream_tok (Ok (ServerNewResponse tk _)) = []"
| "stream_tok (Ok (ServerPythonCodeTimeoutNew tk _)) = []"
| "stream_tok (Ok (NewServerRequest tk _)) = [tk]"
| "stream_tok (Ok (ServerContinueRead tk _ _)) = [tk]"
| "stream_tok (Ok (ServerReadDone tk _ _)) = [tk]"
| "stream_tok (Ok (ServerStreamEOF tk _)) = [tk]"
| "stream_tok (Ok (ServerContinueWrite tk _ _)) = [tk]"
| "stream_tok (Ok (ServerDoneWrite tk _ _)) = [tk]"
| "stream_tok (Ok (ServerCasketResponseNew tk _ _)) = [tk]"
| "stream_tok (Ok (ServerCasketResponseContinue tk _ _)) = [tk]"
| "stream_tok (Ok (ServerCasketResponseDone tk _ _)) = [tk]"
| "stream_tok (Err e) = [ae_token e]"

fun resp_tok :: "action_result \<Rightarrow> token list" where
  "resp_tok (Ok (ServerNewResponse tk _)) = [tk]"
| "resp_tok _ = []"

fun new_tok :: "action_result \<Rightarrow> token list" where
  "new_tok (Ok (NewServerRequest tk _)) = [tk]"
| "new_tok (Ok (ServerCasketResponseNew tk _ _)) = [tk]"
| "new_tok _ = []"

fun read_tok :: "action_result \<Rightarrow> token list" where
  "read_tok (Ok (NewServerRequest tk _)) = [tk]"
| "read_tok (Ok (ServerContinueRead tk _ _)) = [tk]"
| "read_tok (Ok (ServerReadDone tk _ _)) = [tk]"
| "read_tok _ = []"

definition reg_tok :: "action_result \<Rightarrow> token list" where
  "reg_tok r = (if new_tok r = [] then stream_tok r else [])"

definition toks :: "(action_result \<Rightarrow> token list) \<Rightarrow> action_result list \<Rightarrow> token list" where
  "toks f rs = concat (map f rs)"

lemma toks_simps [simp]:
  "toks f [] = []" "toks f (r # rs) = f r @ toks f rs" "toks f (rs @ qs) = toks f rs @ toks f qs"
  by (simp_all add: toks_def)

lemma reg_tok_simps [simp]:
  "reg_tok (Ok (ServerNewResponse tk x1)) = []" "reg_tok (Ok (ServerPythonCodeTimeoutNew tk x2)) = []"
  "reg_tok (Ok (NewServerRequest tk fd)) = []" "reg_tok (Ok (ServerContinueRead tk rd fd)) = [tk]"
  "reg_tok (Ok (ServerReadDone tk req fd)) = [tk]" "reg_tok (Ok (ServerStreamEOF tk fd)) = [tk]"
  "reg_tok (Ok (ServerContinueWrite tk wr fd)) = [tk]" "reg_tok (Ok (ServerDoneWrite tk resp fd)) = [tk]"
  "reg_tok (Ok (ServerCasketResponseNew tk fd cr)) = []"
  "reg_tok (Ok (ServerCasketResponseContinue tk fd cr)) = [tk]"
  "reg_tok (Ok (ServerCasketResponseDone tk fd cr)) = [tk]" "reg_tok (Err e) = [ae_token e]"
  by (simp_all add: reg_tok_def)

section \<open>Who holds a connection\<close>

definition keysm :: "('k, 'v) hashmap \<Rightarrow> 'k multiset" where
  "keysm m = mset (map fst m)"

lemma keysm_Nil [simp]: "keysm [] = {#}"
  by (simp add: keysm_def)

lemma set_keysm [simp]: "set_mset (keysm m) = hm_keys m"
  by (simp add: keysm_def hm_keys_def)

lemma keysm_wf: "keysm m + X = mset_set A \<Longrightarrow> hm_wf m"
proof -
  assume e: "keysm m + X = mset_set A"
  have "count (keysm m) k \<le> 1" for k
  proof -
    have "count (keysm m) k \<le> count (mset_set A) k" unfolding e [symmetric] by simp
    also have "\<dots> \<le> 1" by (cases "finite A") (simp_all add: count_mset_set')
    finally show ?thesis .
  qed
  then have "count (mset (map fst m)) k = (if k \<in> set (map fst m) then 1 else 0)" for k
    using count_greater_zero_iff [of "mset (map fst m)" k] count_eq_zero_iff [of "mset (map fst m)" k]
    unfolding keysm_def by (metis One_nat_def Suc_leI le_antisym set_mset_mset)
  then show "hm_wf m" by (simp only: hm_wf_def distinct_count_atmost_1) simp
qed

lemma keysm_delete: "hm_wf m \<Longrightarrow> hm_get m k = Some v \<Longrightarrow> keysm m = add_mset k (keysm (hm_delete k m))"
proof (induction m)
  case Nil
  then show ?case by simp
next
  case (Cons p m)
  then have wf: "hm_wf m" and new: "fst p \<notin> hm_keys m"
    by (auto simp: hm_wf_def hm_keys_def)
  show ?case
  proof (cases "fst p = k")
    case True
    then have "hm_delete k (p # m) = m"
      using new hm_delete_absent [of k m] by (simp add: hm_delete_def)
    with True show ?thesis by (simp add: keysm_def)
  next
    case False
    with Cons.prems(2) have "hm_get m k = Some v" by (cases p) (simp add: hm_get_def)
    from Cons.IH [OF wf this] have "keysm m = add_mset k (keysm (hm_delete k m))" .
    with False show ?thesis by (simp add: keysm_def hm_delete_def)
  qed
qed

lemma keysm_insert: "k \<notin> hm_keys m \<Longrightarrow> keysm (hm_insert k v m) = add_mset k (keysm m)"
  by (simp add: hm_insert_def hm_delete_absent keysm_def)

definition holders :: "worker \<Rightarrow> token multiset" where
  "holders w = keysm (wk_reading w) + keysm (wk_pending w) + keysm (wk_writing w) + keysm (wk_casket w)"

definition live :: "worker \<Rightarrow> token set" where
  "live w = hm_keys (server_fds (wk_buf w))"

lemma finite_hm_keys [simp]: "finite (hm_keys m)"
  by (simp add: hm_keys_def)

section \<open>The invariant in the middle of a turn\<close>

text \<open>What the poller knows of a connection at rest.\<close>

definition poll_at :: "worker \<Rightarrow> token \<Rightarrow> bool" where
  "poll_at w tk \<longleftrightarrow>
     (case hm_get (poll_reg (wk_poll w)) tk of
        None \<Rightarrow> True
      | Some Readable \<Rightarrow>
          hm_get (events_reg_read (wk_poll w)) tk = Some ServerStreamRead \<and> tk \<in> hm_keys (wk_reading w)
      | Some Writable \<Rightarrow>
          hm_get (events_reg_write (wk_poll w)) tk = Some ServerStreamWrite \<and> tk \<in> hm_keys (wk_writing w) \<or>
          hm_get (events_reg_write (wk_poll w)) tk = Some CasketResponseWrite \<and> tk \<in> hm_keys (wk_casket w)
      | Some ReadableWritable \<Rightarrow> False)"

definition timer_ok :: "timer_entry \<Rightarrow> bool" where
  "timer_ok e \<longleftrightarrow> te_event e = RequestReadTimeout \<or> te_event e = PythonCodeTimeout"

fun result_ok :: "config \<Rightarrow> action_result \<Rightarrow> bool" where
  "result_ok cfg (Ok (ServerContinueRead tk rd fd)) \<longleftrightarrow> reader_inv rd"
| "result_ok cfg (Ok (ServerPythonCodeTimeoutNew tk st)) \<longleftrightarrow>
     no_panic (systime_add st (python_code_timeout cfg))"
| "result_ok cfg _ \<longleftrightarrow> True"

text \<open>
  \<open>news\<close> are the connections of events still to be handled, \<open>moving\<close> those whose
  registration an event of this turn has used up, \<open>rs\<close> the results still to be handled.
\<close>

definition ledger :: "token list \<Rightarrow> action_result list \<Rightarrow> worker \<Rightarrow> bool" where
  "ledger news rs w \<longleftrightarrow> mset news + mset (toks stream_tok rs) + holders w = mset_set (live w)"

definition answers_due :: "action_result list \<Rightarrow> worker \<Rightarrow> bool" where
  "answers_due rs w \<longleftrightarrow> keysm (wk_pending w) = mset_set (awaited (wk_threads w)) + mset (toks resp_tok rs)"

definition not_asked :: "token list \<Rightarrow> action_result list \<Rightarrow> worker \<Rightarrow> bool" where
  "not_asked news rs w \<longleftrightarrow>
     (set news \<union> set (toks read_tok rs) \<union> hm_keys (wk_reading w)) \<inter> asked (wk_threads w) = {}"

definition polled :: "token list \<Rightarrow> token list \<Rightarrow> action_result list \<Rightarrow> worker \<Rightarrow> bool" where
  "polled news moving rs w \<longleftrightarrow>
     (\<forall>tk. tk \<notin> set moving \<longrightarrow> tk \<notin> set (toks reg_tok rs) \<longrightarrow> tk \<noteq> UNIX_STREAM_TOKEN \<longrightarrow> poll_at w tk) \<and>
     (\<forall>tk \<in> set news \<union> set (toks new_tok rs). tk \<noteq> UNIX_STREAM_TOKEN \<longrightarrow> hm_get (poll_reg (wk_poll w)) tk = None)"

definition readers_ok :: "worker \<Rightarrow> bool" where
  "readers_ok w \<longleftrightarrow> (\<forall>x \<in> set (wk_reading w). reader_inv (snd (snd x)))"

definition timers_ok :: "poller \<Rightarrow> bool" where
  "timers_ok p \<longleftrightarrow> timer_inv (timerq p) \<and> (\<forall>e \<in> set (timerq p). timer_ok e)"

definition healthy :: "config \<Rightarrow> action_result list \<Rightarrow> worker \<Rightarrow> bool" where
  "healthy cfg rs w \<longleftrightarrow>
     threads_inv (wk_threads w) \<and> readers_ok w \<and> list_all (result_ok cfg) rs \<and>
     timers_ok (wk_poll w) \<and> wb_inv (wk_buf w)"

definition mid :: "config \<Rightarrow> token list \<Rightarrow> token list \<Rightarrow> action_result list \<Rightarrow> worker \<Rightarrow> bool" where
  "mid cfg news moving rs w \<longleftrightarrow>
     ledger news rs w \<and> answers_due rs w \<and> not_asked news rs w \<and> polled news moving rs w \<and> healthy cfg rs w"

lemmas mid_defs = mid_def ledger_def answers_due_def not_asked_def polled_def healthy_def

section \<open>Moving one connection\<close>

lemma mset_set_add:
  assumes "finite A" and "add_mset k X = mset_set A"
  shows "k \<in> A" and "k \<notin># X" and "X = mset_set (A - {k})"
proof -
  have "k \<in># mset_set A" unfolding assms(2) [symmetric] by simp
  then show k: "k \<in> A" using assms(1) by simp
  have "mset_set A = add_mset k (mset_set (A - {k}))"
    using k assms(1) by (simp add: mset_set.remove)
  with assms(2) show X: "X = mset_set (A - {k})" by simp
  then show "k \<notin># X" using assms(1) by simp
qed

lemma finite_live [simp]: "finite (live w)"
  by (simp add: live_def)

lemma ledger_head:
  assumes "ledger [] (r # rs) w" and "stream_tok r = [tk]"
  shows "tk \<in> live w" and "tk \<notin># mset (toks stream_tok rs) + holders w"
    and "mset (toks stream_tok rs) + holders w = mset_set (live w - {tk})"
proof -
  have "add_mset tk (mset (toks stream_tok rs) + holders w) = mset_set (live w)"
    using assms by (simp add: ledger_def)
  from mset_set_add [OF finite_live this]
  show "tk \<in> live w" "tk \<notin># mset (toks stream_tok rs) + holders w"
    "mset (toks stream_tok rs) + holders w = mset_set (live w - {tk})" by simp_all
qed

lemma ledger_wf:
  assumes "ledger news rs w"
  shows "hm_wf (wk_reading w)" "hm_wf (wk_pending w)" "hm_wf (wk_writing w)" "hm_wf (wk_casket w)"
proof -
  let ?X = "mset news + mset (toks stream_tok rs)"
  have e: "?X + (keysm (wk_reading w) + keysm (wk_pending w) + keysm (wk_writing w) + keysm (wk_casket w)) = mset_set (live w)"
    using assms by (simp add: ledger_def holders_def)
  show "hm_wf (wk_reading w)"
    by (rule keysm_wf [of _ "?X + keysm (wk_pending w) + keysm (wk_writing w) + keysm (wk_casket w)" "live w"])
      (simp add: e [symmetric] ac_simps)
  show "hm_wf (wk_pending w)"
    by (rule keysm_wf [of _ "?X + keysm (wk_reading w) + keysm (wk_writing w) + keysm (wk_casket w)" "live w"])
      (simp add: e [symmetric] ac_simps)
  show "hm_wf (wk_writing w)"
    by (rule keysm_wf [of _ "?X + keysm (wk_reading w) + keysm (wk_pending w) + keysm (wk_casket w)" "live w"])
      (simp add: e [symmetric] ac_simps)
  show "hm_wf (wk_casket w)"
    by (rule keysm_wf [of _ "?X + keysm (wk_reading w) + keysm (wk_pending w) + keysm (wk_writing w)" "live w"])
      (simp add: e [symmetric] ac_simps)
qed

text \<open>Everything the poller knows of other connections stays.\<close>

definition same_but :: "token \<Rightarrow> poller \<Rightarrow> poller \<Rightarrow> bool" where
  "same_but tk p q \<longleftrightarrow>
     (\<forall>x. x \<noteq> tk \<longrightarrow> hm_get (poll_reg q) x = hm_get (poll_reg p) x \<and>
        hm_get (events_reg_read q) x = hm_get (events_reg_read p) x \<and>
        hm_get (events_reg_write q) x = hm_get (events_reg_write p) x)"

definition rest_at :: "worker \<Rightarrow> token \<Rightarrow> bool" where
  "rest_at w tk \<longleftrightarrow> tk = UNIX_STREAM_TOKEN \<or> poll_at w tk"

lemma poll_at_cong:
  assumes "hm_get (poll_reg (wk_poll v)) x = hm_get (poll_reg (wk_poll w)) x"
    and "hm_get (events_reg_read (wk_poll v)) x = hm_get (events_reg_read (wk_poll w)) x"
    and "hm_get (events_reg_write (wk_poll v)) x = hm_get (events_reg_write (wk_poll w)) x"
    and "x \<in> hm_keys (wk_reading v) \<longleftrightarrow> x \<in> hm_keys (wk_reading w)"
    and "x \<in> hm_keys (wk_writing v) \<longleftrightarrow> x \<in> hm_keys (wk_writing w)"
    and "x \<in> hm_keys (wk_casket v) \<longleftrightarrow> x \<in> hm_keys (wk_casket w)"
  shows "poll_at v x = poll_at w x"
  using assms by (simp add: poll_at_def split: option.split mio_interest.split)

lemma polled_step:
  assumes "polled [] [] (r # rs) w" and "same_but tk (wk_poll w) (wk_poll w')"
    and "\<And>x. x \<noteq> tk \<Longrightarrow> x \<in> hm_keys (wk_reading w') \<longleftrightarrow> x \<in> hm_keys (wk_reading w)"
    and "\<And>x. x \<noteq> tk \<Longrightarrow> x \<in> hm_keys (wk_writing w') \<longleftrightarrow> x \<in> hm_keys (wk_writing w)"
    and "\<And>x. x \<noteq> tk \<Longrightarrow> x \<in> hm_keys (wk_casket w') \<longleftrightarrow> x \<in> hm_keys (wk_casket w)"
    and "set (reg_tok r) \<subseteq> {tk}" and "tk \<notin> set (toks new_tok rs)" and "rest_at w' tk"
  shows "polled [] [] rs w'"
proof -
  have "poll_at w' x" if "x \<notin> set (toks reg_tok rs)" "x \<noteq> UNIX_STREAM_TOKEN" for x
  proof (cases "x = tk")
    case True
    with assms(8) that show ?thesis by (simp add: rest_at_def)
  next
    case False
    with assms(1,6) that have "poll_at w x" by (auto simp: polled_def)
    moreover have "poll_at w' x = poll_at w x"
      using False assms(2-5) by (intro poll_at_cong) (simp_all add: same_but_def)
    ultimately show ?thesis by simp
  qed
  moreover have "hm_get (poll_reg (wk_poll w')) x = None"
    if "x \<in> set (toks new_tok rs)" "x \<noteq> UNIX_STREAM_TOKEN" for x
    using that assms(1,2,7) by (auto simp: polled_def same_but_def)
  ultimately show ?thesis by (simp add: polled_def)
qed

lemma new_tok_stream: "set (new_tok r) \<subseteq> set (stream_tok r)"
  by (cases r rule: new_tok.cases) auto

lemma reg_tok_stream: "set (reg_tok r) \<subseteq> set (stream_tok r)"
  by (auto simp: reg_tok_def)

lemma toks_mono: "(\<And>r. set (f r) \<subseteq> set (g r)) \<Longrightarrow> set (toks f rs) \<subseteq> set (toks g rs)"
  by (induction rs) auto

lemmas new_toks_stream = toks_mono [of new_tok stream_tok, OF new_tok_stream]

lemma healthy_tl:
  "healthy cfg (r # rs) w \<Longrightarrow> timers_ok (wk_poll w') \<Longrightarrow> threads_inv (wk_threads w') \<Longrightarrow>
   wb_inv (wk_buf w') \<Longrightarrow> readers_ok w' \<Longrightarrow> healthy cfg rs w'"
  by (simp add: healthy_def)

text \<open>The connection is given back to the server.\<close>

lemma mid_release:
  assumes "mid cfg [] [] (r # rs) w" and r: "stream_tok r = [tk]" "resp_tok r = []"
    and tables: "wk_reading w' = wk_reading w" "wk_pending w' = wk_pending w"
      "wk_writing w' = wk_writing w" "wk_casket w' = wk_casket w" "wk_threads w' = wk_threads w"
    and buf: "server_fds (wk_buf w') = hm_delete tk (server_fds (wk_buf w))" "wb_inv (wk_buf w')"
    and p: "same_but tk (wk_poll w) (wk_poll w')" "timers_ok (wk_poll w')" "rest_at w' tk"
  shows "mid cfg [] [] rs w'"
proof -
  have L: "ledger [] (r # rs) w" using assms(1) by (simp add: mid_def)
  note h = ledger_head [OF L r(1)]
  have "holders w' = holders w" "live w' = live w - {tk}"
    using tables buf by (simp_all add: holders_def live_def)
  with h(3) have "ledger [] rs w'" by (simp add: ledger_def)
  moreover have "answers_due rs w'"
    using assms(1) r tables by (simp add: mid_def answers_due_def)
  moreover have "not_asked [] rs w'"
    using assms(1) tables by (auto simp: mid_def not_asked_def)
  moreover have "polled [] [] rs w'"
    using assms(1) p tables r h(2) reg_tok_stream [of r] new_toks_stream [of rs]
    by (intro polled_step [of r rs w tk]) (auto simp: mid_def)
  moreover have "healthy cfg rs w'"
    using assms(1) tables buf p by (simp add: mid_def healthy_def readers_ok_def)
  ultimately show ?thesis by (simp add: mid_def)
qed

lemma holders_sel [simp]:
  "tk \<notin># holders w \<longleftrightarrow> tk \<notin> hm_keys (wk_reading w) \<and> tk \<notin> hm_keys (wk_pending w) \<and>
     tk \<notin> hm_keys (wk_writing w) \<and> tk \<notin> hm_keys (wk_casket w)"
  by (auto simp: holders_def)

lemma readers_ok_insert:
  "readers_ok w \<Longrightarrow> reader_inv rd \<Longrightarrow> wk_reading w' = hm_insert tk (fd, rd) (wk_reading w) \<Longrightarrow> readers_ok w'"
  by (auto simp: readers_ok_def hm_insert_def hm_delete_def)

text \<open>The connection goes into the table of requests being read.\<close>

lemma mid_to_reading:
  assumes "mid cfg [] [] (r # rs) w" and r: "stream_tok r = [tk]" "resp_tok r = []" "read_tok r = [tk]"
    and tables: "wk_reading w' = hm_insert tk (fd, rd) (wk_reading w)" "wk_pending w' = wk_pending w"
      "wk_writing w' = wk_writing w" "wk_casket w' = wk_casket w" "wk_threads w' = wk_threads w"
      "wk_buf w' = wk_buf w"
    and rd: "reader_inv rd"
    and p: "same_but tk (wk_poll w) (wk_poll w')" "timers_ok (wk_poll w')" "rest_at w' tk"
  shows "mid cfg [] [] rs w'"
proof -
  have L: "ledger [] (r # rs) w" using assms(1) by (simp add: mid_def)
  note h = ledger_head [OF L r(1)]
  have "holders w' = add_mset tk (holders w)" "live w' = live w"
    using tables h(2) by (simp_all add: holders_def live_def keysm_insert)
  with L r have "ledger [] rs w'" by (simp add: ledger_def)
  moreover have "answers_due rs w'"
    using assms(1) r tables by (simp add: mid_def answers_due_def)
  moreover have "not_asked [] rs w'"
    using assms(1) tables r by (auto simp: mid_def not_asked_def)
  moreover have "polled [] [] rs w'"
    using assms(1) p tables r h(2) reg_tok_stream [of r] new_toks_stream [of rs]
    by (intro polled_step [of r rs w tk]) (auto simp: mid_def)
  moreover have "readers_ok w'"
    using assms(1) readers_ok_insert [OF _ rd tables(1)] by (simp add: mid_def healthy_def)
  then have "healthy cfg rs w'"
    using assms(1) tables p by (simp add: mid_def healthy_def)
  ultimately show ?thesis by (simp add: mid_def)
qed

text \<open>A request that has been read goes to the Python threads.\<close>

lemma awaited_queue:
  assumes "threads_inv pt" and "tk \<notin> asked pt"
  shows "threads_inv (queue_http_req tk req pt)" and "awaited (queue_http_req tk req pt) = insert tk (awaited pt)"
    and "asked (queue_http_req tk req pt) = insert tk (asked pt)" and "tk \<notin> awaited pt"
proof -
  have b: "books_ok pt" using assms(1) by (simp add: threads_inv_def)
  have i: "tk \<notin> set (pt_inflight pt)" using inflight_sent [OF b] assms(2) by (auto simp: asked_def)
  have "books_ok (queue_http_req tk req pt)"
    using b assms(2) by (auto simp: books_ok_def queue_http_req_def asked_def)
  then show "threads_inv (queue_http_req tk req pt)"
    using assms i by (auto simp: threads_inv_def queue_http_req_def asked_def)
  show "awaited (queue_http_req tk req pt) = insert tk (awaited pt)" "tk \<notin> awaited pt"
    "asked (queue_http_req tk req pt) = insert tk (asked pt)"
    using assms i by (auto simp: threads_inv_def queue_http_req_def awaited_def asked_def)
qed

lemma finite_awaited [simp]: "finite (awaited pt)"
  by (simp add: awaited_def)

lemma read_tok_stream: "set (read_tok r) \<subseteq> set (stream_tok r)"
  by (cases r rule: read_tok.cases) auto

lemmas read_toks_stream = toks_mono [of read_tok stream_tok, OF read_tok_stream]

lemma mid_to_pending:
  assumes "mid cfg [] [] (r # rs) w" and r: "stream_tok r = [tk]" "resp_tok r = []" "read_tok r = [tk]"
    and tables: "wk_reading w' = wk_reading w" "wk_pending w' = hm_insert tk fd (wk_pending w)"
      "wk_writing w' = wk_writing w" "wk_casket w' = wk_casket w"
      "wk_threads w' = queue_http_req tk req (wk_threads w)" "wk_buf w' = wk_buf w"
    and p: "same_but tk (wk_poll w) (wk_poll w')" "timers_ok (wk_poll w')" "rest_at w' tk"
  shows "mid cfg [] [] rs w'"
proof -
  have L: "ledger [] (r # rs) w" using assms(1) by (simp add: mid_def)
  note h = ledger_head [OF L r(1)]
  have "tk \<notin> asked (wk_threads w)" and T: "threads_inv (wk_threads w)"
    using assms(1) r by (auto simp: mid_def not_asked_def healthy_def)
  note q = awaited_queue(1-3) [OF T this(1), of req] awaited_queue(4) [OF T this(1)]
  have "holders w' = add_mset tk (holders w)" "live w' = live w"
    using tables h(2) by (simp_all add: holders_def live_def keysm_insert)
  with L r have "ledger [] rs w'" by (simp add: ledger_def)
  moreover have "answers_due rs w'"
    using assms(1) r tables h(2) q(2,4) by (simp add: mid_def answers_due_def keysm_insert)
  moreover have "not_asked [] rs w'"
    using assms(1) tables r h(2) read_toks_stream [of rs] q(3) by (auto simp: mid_def not_asked_def)
  moreover have "polled [] [] rs w'"
    using assms(1) p tables r h(2) reg_tok_stream [of r] new_toks_stream [of rs]
    by (intro polled_step [of r rs w tk]) (auto simp: mid_def)
  moreover have "healthy cfg rs w'"
    using assms(1) tables p q(1) by (simp add: mid_def healthy_def readers_ok_def)
  ultimately show ?thesis by (simp add: mid_def)
qed

text \<open>The connection goes into the table of responses being written, or of canned ones.\<close>

lemma mid_to_writing:
  assumes "mid cfg [] [] (r # rs) w" and r: "stream_tok r = [tk]" "resp_tok r = []"
    and tables: "wk_reading w' = wk_reading w" "wk_pending w' = wk_pending w"
      "wk_threads w' = wk_threads w" "wk_buf w' = wk_buf w"
    and or_casket: "wk_writing w' = hm_insert tk x (wk_writing w) \<and> wk_casket w' = wk_casket w \<or>
      wk_writing w' = wk_writing w \<and> wk_casket w' = hm_insert tk y (wk_casket w)"
    and p: "same_but tk (wk_poll w) (wk_poll w')" "timers_ok (wk_poll w')" "rest_at w' tk"
  shows "mid cfg [] [] rs w'"
proof -
  have L: "ledger [] (r # rs) w" using assms(1) by (simp add: mid_def)
  note h = ledger_head [OF L r(1)]
  have "holders w' = add_mset tk (holders w)" "live w' = live w"
    using tables or_casket h(2) by (auto simp: holders_def live_def keysm_insert)
  with L r have "ledger [] rs w'" by (simp add: ledger_def)
  moreover have "answers_due rs w'"
    using assms(1) r tables by (simp add: mid_def answers_due_def)
  moreover have "not_asked [] rs w'"
    using assms(1) tables r by (auto simp: mid_def not_asked_def)
  moreover have "polled [] [] rs w'"
    using assms(1) p tables or_casket r h(2) reg_tok_stream [of r] new_toks_stream [of rs]
    by (intro polled_step [of r rs w tk]) (auto simp: mid_def)
  moreover have "healthy cfg rs w'"
    using assms(1) tables p by (simp add: mid_def healthy_def readers_ok_def)
  ultimately show ?thesis by (simp add: mid_def)
qed

section \<open>Every action keeps the ledger\<close>

text \<open>
  What a turn relies on: the codec works, the poller's registry accepts changes of what is
  registered (a first registration may fail), and no timeout lies beyond the end of time.
\<close>

definition regs_ok :: "worker_input \<Rightarrow> bool" where
  "regs_ok i \<longleftrightarrow> (\<forall>tk. wi_reg i tk OpReregister = None \<and> wi_reg i tk OpDeregister = None)"

definition times_ok :: "config \<Rightarrow> worker_input \<Rightarrow> bool" where
  "times_ok cfg i \<longleftrightarrow>
     (\<forall>tk. no_panic (systime_add (wi_action_now i tk) (request_read_timeout cfg))) \<and>
     (\<forall>x \<in> set (wi_starts i). no_panic (systime_add (snd x) (python_code_timeout cfg)))"

definition locals_eq :: "worker \<Rightarrow> worker \<Rightarrow> bool" where
  "locals_eq w w' \<longleftrightarrow>
     wk_results w' = wk_results w \<and> wk_timeouts w' = wk_timeouts w \<and> wk_closing w' = wk_closing w"

lemma locals_eq_refl [simp]: "locals_eq w w"
  by (simp add: locals_eq_def)

lemma locals_eq_trans: "locals_eq u v \<Longrightarrow> locals_eq v w \<Longrightarrow> locals_eq u w"
  by (simp add: locals_eq_def)

lemma push_response_live:
  assumes "codec_ok cd" and "tk \<in> hm_keys (server_fds b)"
  shows "\<exists>wb. push_response cd tk k e b =
    Ret (b\<lparr>server_fds := hm_delete tk (server_fds b), wb_write_buffer := wb\<rparr>)"
proof -
  obtain fd where "hm_get (server_fds b) tk = Some fd" using hm_mem_obtain [OF assms(2)] by blast
  moreover obtain bs where "ser_response cd \<lparr>rs_token = tok tk, rs_fd = fd, rs_keep_alive = k, rs_error = e\<rparr> = Some bs"
    using assms(1) unfolding codec_ok_def by blast
  ultimately show ?thesis by (auto simp: push_response_def)
qed

lemma wb_inv_update [simp]:
  "wb_inv (b\<lparr>server_fds := f, wb_write_buffer := wb\<rparr>) = wb_inv b"
  by (simp add: wb_inv_def)

text \<open>The state \<open>v\<close> of an action that has changed only the poller and the log.\<close>

definition poll_changed :: "token \<Rightarrow> worker \<Rightarrow> worker \<Rightarrow> bool" where
  "poll_changed tk w v \<longleftrightarrow>
     wk_reading v = wk_reading w \<and> wk_pending v = wk_pending w \<and> wk_writing v = wk_writing w \<and>
     wk_casket v = wk_casket w \<and> wk_threads v = wk_threads w \<and> wk_buf v = wk_buf w \<and> locals_eq w v \<and>
     same_but tk (wk_poll w) (wk_poll v) \<and> (timers_ok (wk_poll w) \<longrightarrow> timers_ok (wk_poll v))"

lemma mid_timers: "mid cfg news moving rs w \<Longrightarrow> timers_ok (wk_poll w)"
  by (simp add: mid_def healthy_def)

lemma mid_wb: "mid cfg news moving rs w \<Longrightarrow> wb_inv (wk_buf w)"
  by (simp add: mid_def healthy_def)

lemma rest_at_buf [simp]: "rest_at (w\<lparr>wk_buf := b\<rparr>) tk = rest_at w tk"
proof -
  have "poll_at (w\<lparr>wk_buf := b\<rparr>) tk = poll_at w tk" by (rule poll_at_cong) simp_all
  then show ?thesis by (simp add: rest_at_def)
qed

lemma respond_mid:
  assumes "codec_ok cd" and m: "mid cfg [] [] (r # rs) w" and r: "stream_tok r = [tk]" "resp_tok r = []"
    and v: "poll_changed tk w v" and "rest_at v tk"
  shows "\<exists>w'. respond (push_response cd tk k e) v = Ret w' \<and> mid cfg [] [] rs w' \<and> locals_eq w w'"
proof -
  have "tk \<in> live w" using m r ledger_head(1) by (auto simp: mid_def)
  then have "tk \<in> hm_keys (server_fds (wk_buf v))" using v by (simp add: live_def poll_changed_def)
  from push_response_live [OF assms(1) this, of k e] obtain wb where
    pr: "push_response cd tk k e (wk_buf v) =
      Ret ((wk_buf v)\<lparr>server_fds := hm_delete tk (server_fds (wk_buf v)), wb_write_buffer := wb\<rparr>)" by blast
  let ?w' = "v\<lparr>wk_buf := (wk_buf v)\<lparr>server_fds := hm_delete tk (server_fds (wk_buf v)), wb_write_buffer := wb\<rparr>\<rparr>"
  have "mid cfg [] [] rs ?w'"
    using mid_timers [OF m] mid_wb [OF m] v assms(6)
    by (intro mid_release [OF m r]) (simp_all add: poll_changed_def)
  moreover have "locals_eq w ?w'" using v by (simp add: poll_changed_def locals_eq_def)
  ultimately show ?thesis using pr by (simp add: respond_def)
qed

lemma resp_tok_new: "resp_tok r = [] \<Longrightarrow> new_tok r = [tk] \<Longrightarrow> stream_tok r = [tk]"
  by (cases r rule: new_tok.cases) auto

lemma polled_new:
  "mid cfg [] [] (r # rs) w \<Longrightarrow> new_tok r = [tk] \<Longrightarrow> tk = UNIX_STREAM_TOKEN \<or> hm_get (poll_reg (wk_poll w)) tk = None"
  by (auto simp: mid_def polled_def)

lemma poll_at_None: "hm_get (poll_reg (wk_poll w)) tk = None \<Longrightarrow> poll_at w tk"
  by (simp add: poll_at_def)

lemmas poll_call_defs = register_read_def register_write_def reregister_read_def reregister_write_def
  deregister_def set_reg_def reg_result_def

text \<open>A registration that failed: nothing is registered, the connection is given back.\<close>

lemma register_failed_mid:
  assumes "codec_ok cd" and m: "mid cfg [] [] (r # rs) w" and r: "new_tok r = [tk]" "resp_tok r = []"
    and call: "call (wk_poll w) = (p, Err e)" "same_but tk (wk_poll w) p" "timerq p = timerq (wk_poll w)"
      "poll_reg p = poll_reg (wk_poll w)"
  shows "\<exists>w'. with_poll cd tk fd call k w = Ret w' \<and> mid cfg [] [] rs w' \<and> locals_eq w w'"
proof -
  let ?v = "wlog (StreamDropped fd) (w\<lparr>wk_poll := p\<rparr>)"
  have "poll_changed tk w ?v" using call by (simp add: poll_changed_def wlog_def locals_eq_def timers_ok_def)
  moreover have "rest_at ?v tk"
    using polled_new [OF m r(1)] call(4) by (auto simp: rest_at_def wlog_def poll_at_def)
  ultimately show ?thesis
    using respond_mid [OF assms(1) m resp_tok_new [OF r(2,1)] r(2), of ?v] call(1)
    by (simp add: with_poll_def resp_stream_reg_error_def)
qed

lemma with_poll_Ok:
  "call (wk_poll w) = (p, Ok ()) \<Longrightarrow> with_poll cd tk fd call k w = k (w\<lparr>wk_poll := p\<rparr>)"
  by (simp add: with_poll_def)

lemma displaced_simps [simp]:
  "wk_buf (displaced old w) = wk_buf w" "wk_poll (displaced old w) = wk_poll w"
  "wk_threads (displaced old w) = wk_threads w" "wk_reading (displaced old w) = wk_reading w"
  "wk_pending (displaced old w) = wk_pending w" "wk_writing (displaced old w) = wk_writing w"
  "wk_casket (displaced old w) = wk_casket w" "locals_eq v (displaced old w) = locals_eq v w"
  by (simp_all add: displaced_def wlog_def locals_eq_def split: option.split)

lemma wlog_simps [simp]:
  "wk_buf (wlog l w) = wk_buf w" "wk_poll (wlog l w) = wk_poll w"
  "wk_threads (wlog l w) = wk_threads w" "wk_reading (wlog l w) = wk_reading w"
  "wk_pending (wlog l w) = wk_pending w" "wk_writing (wlog l w) = wk_writing w"
  "wk_casket (wlog l w) = wk_casket w" "locals_eq v (wlog l w) = locals_eq v w"
  by (simp_all add: wlog_def locals_eq_def)

lemma timers_ok_push [simp]:
  "timers_ok p \<Longrightarrow> timer_ok e \<Longrightarrow> timers_ok (q\<lparr>timerq := timer_push e (timerq p)\<rparr>)"
  by (auto simp: timers_ok_def timer_inv_def timer_push_sorted timer_push_set)

lemma same_but_refl [simp]: "same_but tk p p"
  by (simp add: same_but_def)

lemma timers_ok_simps [simp]:
  "timers_ok (q\<lparr>poll_reg := r\<rparr>) = timers_ok q" "timers_ok (q\<lparr>events_reg_read := e\<rparr>) = timers_ok q"
  "timers_ok (q\<lparr>events_reg_write := e\<rparr>) = timers_ok q"
  by (simp_all add: timers_ok_def)

lemmas put_defs = put_reading_def put_pending_def put_writing_def put_casket_def

lemma mid_new_request:
  assumes cd: "codec_ok cd" and t: "times_ok cfg i" and m: "mid cfg [] [] (Ok (NewServerRequest tk fd) # rs) w"
  shows "\<exists>w'. handle_action cd cfg i (NewServerRequest tk fd) w = Ret w' \<and> mid cfg [] [] rs w' \<and> locals_eq w w'"
proof (cases "wi_reg i tk OpRegister")
  case (Some e)
  then show ?thesis unfolding handle_action.simps
    by (intro register_failed_mid [OF cd m, where e = e and p = "fst (register_read (Some e) tk ServerStreamRead (wk_poll w))"])
      (simp_all add: poll_call_defs same_but_def)
next
  case None
  obtain tmo where tmo: "systime_add (wi_action_now i tk) (request_read_timeout cfg) = Ret tmo"
    using t unfolding times_ok_def no_panic_iff by blast
  let ?p = "fst (register_read None tk ServerStreamRead (wk_poll w))"
  let ?w' = "put_reading tk (fd, reader_new) (w\<lparr>wk_poll := timer_event tk tmo RequestReadTimeout ?p\<rparr>)"
  have "handle_action cd cfg i (NewServerRequest tk fd) w = Ret ?w'"
    using None tmo by (simp add: with_poll_def poll_call_defs)
  moreover have "mid cfg [] [] rs ?w'"
    using mid_timers [OF m]
    by (intro mid_to_reading [OF m, of tk _ fd reader_new])
      (simp_all add: put_defs poll_call_defs same_but_def timer_event_def timer_ok_def rest_at_def poll_at_def)
  moreover have "locals_eq w ?w'" by (simp add: put_defs locals_eq_def displaced_def wlog_def split: option.split)
  ultimately show ?thesis by blast
qed

lemma mid_continue_read:
  assumes i: "regs_ok i" and m: "mid cfg [] [] (Ok (ServerContinueRead tk rd fd) # rs) w"
  shows "\<exists>w'. handle_action cd cfg i (ServerContinueRead tk rd fd) w = Ret w' \<and> mid cfg [] [] rs w' \<and> locals_eq w w'"
proof -
  let ?p = "fst (reregister_read None tk ServerStreamRead (wk_poll w))"
  let ?w' = "put_reading tk (fd, rd) (w\<lparr>wk_poll := ?p\<rparr>)"
  have "handle_action cd cfg i (ServerContinueRead tk rd fd) w = Ret ?w'"
    using i by (simp add: regs_ok_def with_poll_def poll_call_defs)
  moreover have "reader_inv rd" using m by (simp add: mid_def healthy_def)
  then have "mid cfg [] [] rs ?w'"
    using mid_timers [OF m]
    by (intro mid_to_reading [OF m, of tk _ fd rd])
      (simp_all add: put_defs poll_call_defs same_but_def rest_at_def poll_at_def)
  moreover have "locals_eq w ?w'" by (simp add: put_defs locals_eq_def displaced_def wlog_def split: option.split)
  ultimately show ?thesis by blast
qed

lemma mid_read_done:
  assumes i: "regs_ok i" and m: "mid cfg [] [] (Ok (ServerReadDone tk req fd) # rs) w"
  shows "\<exists>w'. handle_action cd cfg i (ServerReadDone tk req fd) w = Ret w' \<and> mid cfg [] [] rs w' \<and> locals_eq w w'"
proof -
  let ?p = "fst (deregister None tk (wk_poll w))"
  let ?w' = "put_pending tk fd (w\<lparr>wk_poll := ?p, wk_threads := queue_http_req tk req (wk_threads w)\<rparr>)"
  have "handle_action cd cfg i (ServerReadDone tk req fd) w = Ret ?w'"
    using i by (simp add: regs_ok_def with_poll_def poll_call_defs)
  moreover have "mid cfg [] [] rs ?w'"
    using mid_timers [OF m]
    by (intro mid_to_pending [OF m, of tk _ fd req])
      (simp_all add: put_defs poll_call_defs same_but_def rest_at_def poll_at_def)
  moreover have "locals_eq w ?w'" by (simp add: put_defs locals_eq_def displaced_def wlog_def split: option.split)
  ultimately show ?thesis by blast
qed

text \<open>A deregistered connection that is given back, whatever is logged on the way.\<close>

lemma mid_give_back:
  assumes cd: "codec_ok cd" and m: "mid cfg [] [] (r # rs) w" and r: "stream_tok r = [tk]" "resp_tok r = []"
    and v: "poll_changed tk w v" "wk_poll v = fst (deregister None tk (wk_poll w))"
  shows "\<exists>w'. respond (push_response cd tk k e) v = Ret w' \<and> mid cfg [] [] rs w' \<and> locals_eq w w'"
proof -
  have "rest_at v tk" using v(2) by (simp add: rest_at_def poll_at_def deregister_def)
  with respond_mid [OF cd m r v(1)] show ?thesis by blast
qed

lemma poll_changed_deregister:
  "poll_changed tk w (w\<lparr>wk_poll := fst (deregister None tk (wk_poll w))\<rparr>)"
  by (simp add: poll_changed_def deregister_def locals_eq_def same_but_def)

lemma poll_changed_wlog [simp]: "poll_changed tk w (wlog l v) = poll_changed tk w v"
  by (simp add: poll_changed_def)

lemma mid_stream_eof:
  assumes cd: "codec_ok cd" and i: "regs_ok i" and m: "mid cfg [] [] (Ok (ServerStreamEOF tk fd) # rs) w"
  shows "\<exists>w'. handle_action cd cfg i (ServerStreamEOF tk fd) w = Ret w' \<and> mid cfg [] [] rs w' \<and> locals_eq w w'"
proof -
  let ?v = "wlog (StreamForgotten fd) (w\<lparr>wk_poll := fst (deregister None tk (wk_poll w))\<rparr>)"
  have "handle_action cd cfg i (ServerStreamEOF tk fd) w = respond (push_response cd tk False None) ?v"
    using i by (simp add: regs_ok_def with_poll_def poll_call_defs resp_stream_done_ok_def)
  then show ?thesis
    using mid_give_back [OF cd m _ _, of tk ?v False None] poll_changed_deregister [of tk w] by simp
qed

lemma mid_done_write:
  assumes cd: "codec_ok cd" and i: "regs_ok i" and m: "mid cfg [] [] (Ok (ServerDoneWrite tk resp fd) # rs) w"
  shows "\<exists>w'. handle_action cd cfg i (ServerDoneWrite tk resp fd) w = Ret w' \<and> mid cfg [] [] rs w' \<and> locals_eq w w'"
proof -
  let ?v = "wlog (StreamForgotten fd) ((wlog (LogResponse resp) w)\<lparr>wk_poll := fst (deregister None tk (wk_poll w))\<rparr>)"
  have "handle_action cd cfg i (ServerDoneWrite tk resp fd) w =
      respond (push_response cd tk (resp_keep_alive resp) None) ?v"
    using i by (simp add: regs_ok_def with_poll_def poll_call_defs resp_stream_done_ok_def)
  moreover have "poll_changed tk w ?v" using poll_changed_deregister [of tk w]
    by (simp add: poll_changed_def locals_eq_def wlog_def)
  ultimately show ?thesis
    using mid_give_back [OF cd m _ _, of tk ?v "resp_keep_alive resp" None] by simp
qed

lemma mid_casket_done:
  assumes cd: "codec_ok cd" and i: "regs_ok i" and m: "mid cfg [] [] (Ok (ServerCasketResponseDone tk fd cr) # rs) w"
  shows "\<exists>w'. handle_action cd cfg i (ServerCasketResponseDone tk fd cr) w = Ret w' \<and> mid cfg [] [] rs w' \<and> locals_eq w w'"
proof -
  let ?v = "wlog (StreamForgotten fd) (wlog (LogCasket (cr_code cr) (cr_reason cr))
      (w\<lparr>wk_poll := fst (deregister None tk (wk_poll w))\<rparr>))"
  have "handle_action cd cfg i (ServerCasketResponseDone tk fd cr) w =
      respond (push_response cd tk False None) ?v"
    using i by (simp add: regs_ok_def with_poll_def poll_call_defs resp_stream_done_ok_def)
  then show ?thesis
    using mid_give_back [OF cd m _ _, of tk ?v False None] poll_changed_deregister [of tk w] by simp
qed

lemma mid_error:
  assumes cd: "codec_ok cd" and i: "regs_ok i" and m: "mid cfg [] [] (Err e # rs) w"
  shows "\<exists>w'. handle_error cd i e w = Ret w' \<and> mid cfg [] [] rs w' \<and> locals_eq w w'"
proof -
  let ?v = "wlog (StreamDropped (ae_stream e)) ((wlog (error_log (ae_error e)) w)
      \<lparr>wk_poll := fst (deregister None (ae_token e) (wk_poll w))\<rparr>)"
  obtain k t where "handle_error cd i e w = respond (push_response cd (ae_token e) k t) ?v"
    using i by (cases "ae_error e")
      (auto simp: regs_ok_def handle_error_def Let_def with_poll_def poll_call_defs resp_io_error_def resp_bad_client_def)
  moreover have "poll_changed (ae_token e) w ?v" using poll_changed_deregister [of "ae_token e" w]
    by (simp add: poll_changed_def locals_eq_def wlog_def)
  ultimately show ?thesis
    using mid_give_back [OF cd m _ _, of "ae_token e" ?v k t] by simp
qed

text \<open>Writing, from a pending connection or one already being written.\<close>

lemma mid_take_pending:
  assumes m: "mid cfg [] [] (Ok (ServerNewResponse tk resp) # rs) w"
  shows "\<exists>fd. hm_get (wk_pending w) tk = Some fd \<and>
     mid cfg [] [] (Ok (ServerCasketResponseNew tk fd cr) # rs) (w\<lparr>wk_pending := hm_delete tk (wk_pending w)\<rparr>)"
proof -
  let ?w' = "w\<lparr>wk_pending := hm_delete tk (wk_pending w)\<rparr>"
  have due: "keysm (wk_pending w) = add_mset tk (mset_set (awaited (wk_threads w)) + mset (toks resp_tok rs))"
    using m by (simp add: mid_def answers_due_def)
  then have "tk \<in> hm_keys (wk_pending w)" by (metis set_keysm union_single_eq_member set_mset_add_mset_insert insertI1)
  then obtain fd where fd: "hm_get (wk_pending w) tk = Some fd" using hm_mem_obtain by metis
  have L: "ledger [] (Ok (ServerNewResponse tk resp) # rs) w" using m by (simp add: mid_def)
  have kd: "keysm (wk_pending w) = add_mset tk (keysm (hm_delete tk (wk_pending w)))"
    by (rule keysm_delete [OF ledger_wf(2) [OF L] fd])
  have h: "holders w = add_mset tk (holders ?w')" by (simp add: holders_def kd)
  have L': "ledger [] (Ok (ServerCasketResponseNew tk fd cr) # rs) ?w'"
    using L h by (simp add: ledger_def live_def)
  note hd = ledger_head [OF L', of tk, simplified]
  have A: "answers_due (Ok (ServerCasketResponseNew tk fd cr) # rs) ?w'"
    using due kd by (simp add: answers_due_def)
  have N: "not_asked [] (Ok (ServerCasketResponseNew tk fd cr) # rs) ?w'"
    using m by (auto simp: mid_def not_asked_def)
  have "hm_get (poll_reg (wk_poll w)) tk = None" if "tk \<noteq> UNIX_STREAM_TOKEN"
  proof -
    have "tk \<notin> set (toks reg_tok rs)" using hd(2) toks_mono [of reg_tok stream_tok, OF reg_tok_stream] by auto
    with m that have "poll_at w tk" by (auto simp: mid_def polled_def)
    with hd(2) show ?thesis by (auto simp: poll_at_def split: option.splits mio_interest.splits)
  qed
  moreover have "poll_at ?w' x = poll_at w x" for x by (rule poll_at_cong) simp_all
  ultimately have P: "polled [] [] (Ok (ServerCasketResponseNew tk fd cr) # rs) ?w'"
    using m by (auto simp: mid_def polled_def)
  have "healthy cfg (Ok (ServerCasketResponseNew tk fd cr) # rs) ?w'"
    using m by (simp add: mid_def healthy_def readers_ok_def)
  with fd L' A N P show ?thesis by (simp add: mid_def)
qed

lemma mid_new_casket:
  assumes cd: "codec_ok cd" and m: "mid cfg [] [] (Ok (ServerCasketResponseNew tk fd cr) # rs) w"
  shows "\<exists>w'. handle_action cd cfg i (ServerCasketResponseNew tk fd cr) w = Ret w' \<and> mid cfg [] [] rs w' \<and> locals_eq w w'"
proof (cases "wi_reg i tk OpRegister")
  case (Some e)
  then show ?thesis unfolding handle_action.simps
    by (intro register_failed_mid [OF cd m, where e = e and p = "fst (register_write (Some e) tk CasketResponseWrite (wk_poll w))"])
      (simp_all add: poll_call_defs same_but_def)
next
  case None
  let ?w' = "put_casket tk (fd, cr) (w\<lparr>wk_poll := fst (register_write None tk CasketResponseWrite (wk_poll w))\<rparr>)"
  have "handle_action cd cfg i (ServerCasketResponseNew tk fd cr) w = Ret ?w'"
    using None by (simp add: with_poll_def poll_call_defs)
  moreover have "mid cfg [] [] rs ?w'"
    using mid_timers [OF m]
    by (intro mid_to_writing [OF m, of tk _ _ "(fd, cr)"])
      (simp_all add: put_defs poll_call_defs same_but_def rest_at_def poll_at_def)
  moreover have "locals_eq w ?w'" by (simp add: put_defs locals_eq_def displaced_def wlog_def split: option.split)
  ultimately show ?thesis by blast
qed

lemma mid_continue_casket:
  assumes i: "regs_ok i" and m: "mid cfg [] [] (Ok (ServerCasketResponseContinue tk fd cr) # rs) w"
  shows "\<exists>w'. handle_action cd cfg i (ServerCasketResponseContinue tk fd cr) w = Ret w' \<and> mid cfg [] [] rs w' \<and> locals_eq w w'"
proof -
  let ?w' = "put_casket tk (fd, cr) (w\<lparr>wk_poll := fst (reregister_write None tk CasketResponseWrite (wk_poll w))\<rparr>)"
  have "handle_action cd cfg i (ServerCasketResponseContinue tk fd cr) w = Ret ?w'"
    using i by (simp add: regs_ok_def with_poll_def poll_call_defs)
  moreover have "mid cfg [] [] rs ?w'"
    using mid_timers [OF m]
    by (intro mid_to_writing [OF m, of tk _ _ "(fd, cr)"])
      (simp_all add: put_defs poll_call_defs same_but_def rest_at_def poll_at_def)
  moreover have "locals_eq w ?w'" by (simp add: put_defs locals_eq_def displaced_def wlog_def split: option.split)
  ultimately show ?thesis by blast
qed

lemma mid_continue_write:
  assumes i: "regs_ok i" and m: "mid cfg [] [] (Ok (ServerContinueWrite tk wr fd) # rs) w"
  shows "\<exists>w'. handle_action cd cfg i (ServerContinueWrite tk wr fd) w = Ret w' \<and> mid cfg [] [] rs w' \<and> locals_eq w w'"
proof -
  let ?w' = "put_writing tk (fd, wr) (w\<lparr>wk_poll := fst (reregister_write None tk ServerStreamWrite (wk_poll w))\<rparr>)"
  have "handle_action cd cfg i (ServerContinueWrite tk wr fd) w = Ret ?w'"
    using i by (simp add: regs_ok_def with_poll_def poll_call_defs)
  moreover have "mid cfg [] [] rs ?w'"
    using mid_timers [OF m]
    by (intro mid_to_writing [OF m, of tk _ "(fd, wr)"])
      (simp_all add: put_defs poll_call_defs same_but_def rest_at_def poll_at_def)
  moreover have "locals_eq w ?w'" by (simp add: put_defs locals_eq_def displaced_def wlog_def split: option.split)
  ultimately show ?thesis by blast
qed

lemma mid_new_response:
  assumes cd: "codec_ok cd" and m: "mid cfg [] [] (Ok (ServerNewResponse tk resp) # rs) w"
  shows "\<exists>w'. handle_action cd cfg i (ServerNewResponse tk resp) w = Ret w' \<and> mid cfg [] [] rs w' \<and> locals_eq w w'"
proof -
  let ?cr = "\<lparr>cr_code = 200, cr_response = [], cr_reason = [], cr_bytes_sent = 0\<rparr>"
  from mid_take_pending [OF m, of ?cr] obtain fd where fd: "hm_get (wk_pending w) tk = Some fd" and
    m': "mid cfg [] [] (Ok (ServerCasketResponseNew tk fd ?cr) # rs) (w\<lparr>wk_pending := hm_delete tk (wk_pending w)\<rparr>)"
    by blast
  let ?u = "w\<lparr>wk_pending := hm_delete tk (wk_pending w)\<rparr>"
  have lu: "locals_eq w ?u" by (simp add: locals_eq_def)
  show ?thesis
  proof (cases "wi_reg i tk OpRegister")
    case (Some e)
    have "\<exists>w'. handle_action cd cfg i (ServerNewResponse tk resp) w = Ret w' \<and> mid cfg [] [] rs w' \<and> locals_eq ?u w'"
      unfolding handle_action.simps fd option.case
      by (intro register_failed_mid [OF cd m', where e = e and p = "fst (register_write (Some e) tk ServerStreamWrite (wk_poll ?u))"])
        (simp_all add: poll_call_defs same_but_def Some)
    then show ?thesis using locals_eq_trans [OF lu] by blast
  next
    case None
    let ?w' = "put_writing tk (fd, writer_new resp) (?u\<lparr>wk_poll := fst (register_write None tk ServerStreamWrite (wk_poll w))\<rparr>)"
    have "handle_action cd cfg i (ServerNewResponse tk resp) w = Ret ?w'"
      using None fd by (simp add: with_poll_def poll_call_defs)
    moreover have "mid cfg [] [] rs ?w'"
      using mid_timers [OF m']
      by (intro mid_to_writing [OF m', of tk _ "(fd, writer_new resp)"])
        (simp_all add: put_defs poll_call_defs same_but_def rest_at_def poll_at_def)
    moreover have "locals_eq w ?w'" by (simp add: put_defs locals_eq_def displaced_def wlog_def split: option.split)
    ultimately show ?thesis by blast
  qed
qed

lemma mid_code_timeout:
  assumes m: "mid cfg [] [] (Ok (ServerPythonCodeTimeoutNew tk st) # rs) w"
  shows "\<exists>w'. handle_action cd cfg i (ServerPythonCodeTimeoutNew tk st) w = Ret w' \<and> mid cfg [] [] rs w' \<and> locals_eq w w'"
proof -
  obtain tmo where tmo: "systime_add st (python_code_timeout cfg) = Ret tmo"
    using m by (auto simp: mid_def healthy_def no_panic_iff)
  let ?w' = "w\<lparr>wk_poll := timer_event tk tmo PythonCodeTimeout (wk_poll w)\<rparr>"
  have "poll_at ?w' x = poll_at w x" for x by (rule poll_at_cong) (simp_all add: timer_event_def)
  then have "polled [] [] rs ?w'"
    using m by (simp add: mid_def polled_def) (simp add: timer_event_def)
  moreover have "ledger [] rs ?w'" "answers_due rs ?w'" "not_asked [] rs ?w'"
    using m unfolding mid_def
    by (elim conjE, simp add: ledger_def holders_def live_def, simp add: answers_due_def,
        simp add: not_asked_def)
  moreover have "healthy cfg rs ?w'"
    using m by (simp add: mid_def healthy_def readers_ok_def timer_event_def timer_ok_def)
  ultimately have "mid cfg [] [] rs ?w'" by (simp add: mid_def)
  then show ?thesis using tmo by (simp add: locals_eq_def)
qed

lemma handle_result_mid:
  assumes cd: "codec_ok cd" and i: "regs_ok i" and t: "times_ok cfg i" and m: "mid cfg [] [] (r # rs) w"
  shows "\<exists>w'. handle_result cd cfg i r w = Ret w' \<and> mid cfg [] [] rs w' \<and> locals_eq w w'"
proof (cases r)
  case (Err e)
  with mid_error [OF cd i, of cfg e rs w] m show ?thesis by (simp add: handle_result_def)
next
  case (Ok act)
  note m = m [unfolded Ok]
  show ?thesis unfolding handle_result_def Ok result.case
    by (cases act; use m in \<open>simp only:\<close>)
      (elim mid_new_request [OF cd t] mid_continue_read [OF i] mid_read_done [OF i] mid_stream_eof [OF cd i]
        mid_new_response [OF cd] mid_continue_write [OF i] mid_done_write [OF cd i] mid_new_casket [OF cd]
        mid_continue_casket [OF i] mid_casket_done [OF cd i] mid_code_timeout)+
qed

lemma handle_results_mid:
  assumes cd: "codec_ok cd" and i: "regs_ok i" and t: "times_ok cfg i"
  shows "mid cfg [] [] rs w \<Longrightarrow> \<exists>w'. handle_results cd cfg i rs w = Ret w' \<and> mid cfg [] [] [] w' \<and> locals_eq w w'"
proof (induction rs arbitrary: w)
  case Nil
  then show ?case by simp
next
  case (Cons r rs)
  from handle_result_mid [OF cd i t Cons.prems] obtain u where
    u: "handle_result cd cfg i r w = Ret u" "mid cfg [] [] rs u" "locals_eq w u" by blast
  from Cons.IH [OF u(2)] u show ?case by (auto dest: locals_eq_trans)
qed

end
