(* ===== verification/WorkerProps.thy ===== *)
theory WorkerProps
  imports WorkerInv ReaderProps
begin

text \<open>
  Properties of a worker: whole turns keep the ledger of \<open>WorkerInv\<close> and never panic, under
  named assumptions about what the outside returns; how requests are refused and timed out;
  when the worker leaves its loop; and what happens to descriptors.
\<close>

section \<open>The events of a turn\<close>

definition is_new :: "token \<times> event \<Rightarrow> bool" where
  "is_new x \<longleftrightarrow> (case snd x of NewStreamFd _ \<Rightarrow> True | _ \<Rightarrow> False)"

definition is_stream :: "token \<times> event \<Rightarrow> bool" where
  "is_stream x \<longleftrightarrow> snd x \<in> {ServerStreamRead, ServerStreamWrite, CasketResponseWrite}"

definition news :: "(token \<times> event) list \<Rightarrow> token list" where
  "news evs = map fst (filter is_new evs)"

definition moving :: "(token \<times> event) list \<Rightarrow> token list" where
  "moving evs = map fst (filter is_stream evs)"

lemma news_simps [simp]:
  "news [] = []" "news ((tk, ev) # evs) = (case ev of NewStreamFd _ \<Rightarrow> [tk] | _ \<Rightarrow> []) @ news evs"
  "news (xs @ ys) = news xs @ news ys"
  by (simp_all add: news_def is_new_def split: event.split)

lemma moving_simps [simp]:
  "moving [] = []" "moving (xs @ ys) = moving xs @ moving ys"
  "moving ((tk, ev) # evs) =
     (if ev \<in> {ServerStreamRead, ServerStreamWrite, CasketResponseWrite} then [tk] else []) @ moving evs"
  by (simp_all add: moving_def is_stream_def)

text \<open>What the outside must respect in a turn.\<close>

definition bytes_ok :: "codec \<Rightarrow> worker_input \<Rightarrow> worker_buf \<Rightarrow> bool" where
  "bytes_ok cd i b \<longleftrightarrow>
     (\<forall>bs. wi_unix_read i = Ok bs \<longrightarrow> length bs \<le> wb_space b \<and>
        decode_all (de_request cd) (fst (split_frames 1 1 u8_from (wb_unread b @ bs))) \<noteq> None)"

text \<open>The reader panics only on an announced length beyond \<open>isize::MAX\<close>.\<close>

definition huge_request :: "http_lib \<Rightarrow> bytes \<Rightarrow> reader \<Rightarrow> bool" where
  "huge_request lib bs rd \<longleftrightarrow>
     (\<exists>n buf k raw pr. rd = Begin n buf \<and> parse_request lib (take n buf @ bs) = ParseComplete k raw \<and>
        partial_new lib raw = Ok pr \<and> isize_max < pr_content_length pr)"

definition reads_ok :: "worker_input \<Rightarrow> worker \<Rightarrow> bool" where
  "reads_ok i w \<longleftrightarrow>
     (\<forall>tk. lib_sizes (wi_lib i tk)) \<and>
     (\<forall>x \<in> set (wk_reading w). read_fits (wi_read i (fst x)) (snd (snd x)) \<and>
        (\<forall>bs. wi_read i (fst x) = Ok bs \<longrightarrow> \<not> huge_request (wi_lib i (fst x)) bs (snd (snd x))))"

text \<open>What is true of the events still to be handled.\<close>

definition events_ok :: "codec \<Rightarrow> worker_input \<Rightarrow> (token \<times> event) list \<Rightarrow> worker \<Rightarrow> bool" where
  "events_ok cd i evs w \<longleftrightarrow>
     distinct (moving evs) \<and>
     (\<forall>tk. ((tk, ServerStreamRead) \<in> set evs \<longrightarrow> tk \<in> hm_keys (wk_reading w)) \<and>
        ((tk, ServerStreamWrite) \<in> set evs \<longrightarrow> tk \<in> hm_keys (wk_writing w)) \<and>
        ((tk, CasketResponseWrite) \<in> set evs \<longrightarrow> tk \<in> hm_keys (wk_casket w))) \<and>
     length (filter (\<lambda>x. snd x = PollPythonResponses) evs) \<le> 1 \<and>
     (PollPythonResponses \<in> snd ` set evs \<longrightarrow> answers_ok (wi_resps i) (wk_threads w)) \<and>
     length (filter (\<lambda>x. snd x = UnixStreamRead) evs) \<le> 1 \<and>
     (UnixStreamRead \<in> snd ` set evs \<longrightarrow> bytes_ok cd i (wk_buf w)) \<and>
     reads_ok i w"

definition during :: "codec \<Rightarrow> config \<Rightarrow> worker_input \<Rightarrow> (token \<times> event) list \<Rightarrow> worker \<Rightarrow> bool" where
  "during cd cfg i evs w \<longleftrightarrow>
     mid cfg (news evs) (moving evs) (wk_results w) w \<and> events_ok cd i evs w"

lemma mid_locals [simp]:
  "mid cfg n m rs (w\<lparr>wk_results := x\<rparr>) = mid cfg n m rs w"
  "mid cfg n m rs (w\<lparr>wk_timeouts := y\<rparr>) = mid cfg n m rs w"
  "mid cfg n m rs (w\<lparr>wk_closing := z\<rparr>) = mid cfg n m rs w"
proof -
  have "poll_at (w\<lparr>wk_results := x\<rparr>) tk = poll_at w tk" "poll_at (w\<lparr>wk_timeouts := y\<rparr>) tk = poll_at w tk"
    "poll_at (w\<lparr>wk_closing := z\<rparr>) tk = poll_at w tk" for tk
    by (rule poll_at_cong; simp)+
  then show "mid cfg n m rs (w\<lparr>wk_results := x\<rparr>) = mid cfg n m rs w"
    "mid cfg n m rs (w\<lparr>wk_timeouts := y\<rparr>) = mid cfg n m rs w"
    "mid cfg n m rs (w\<lparr>wk_closing := z\<rparr>) = mid cfg n m rs w"
    by (simp_all add: mid_defs holders_def live_def readers_ok_def)
qed

text \<open>A new connection becomes a result.\<close>

lemma mid_push_new:
  assumes m: "mid cfg (tk # ns) mv rs w" and r: "stream_tok r = [tk]" "new_tok r = [tk]" "resp_tok r = []"
    "set (read_tok r) \<subseteq> {tk}" "result_ok cfg r"
  shows "mid cfg ns mv (rs @ [r]) w"
proof -
  have "reg_tok r = []" using r by (simp add: reg_tok_def)
  then have "polled ns mv (rs @ [r]) w"
    using m r by (auto simp: mid_def polled_def)
  moreover have "ledger ns (rs @ [r]) w" "answers_due (rs @ [r]) w"
    using m r by (simp_all add: mid_def ledger_def answers_due_def ac_simps)
  moreover have "not_asked ns (rs @ [r]) w"
    using m r(4) by (auto simp: mid_def not_asked_def)
  moreover have "healthy cfg (rs @ [r]) w" using m r by (simp add: mid_def healthy_def)
  ultimately show ?thesis by (simp add: mid_def)
qed

text \<open>A connection leaves its table and becomes a result, still registered.\<close>

definition drop_from :: "nat \<Rightarrow> token \<Rightarrow> worker \<Rightarrow> worker" where
  "drop_from k tk w =
     (if k = 0 then w\<lparr>wk_reading := hm_delete tk (wk_reading w)\<rparr>
      else if k = 1 then w\<lparr>wk_writing := hm_delete tk (wk_writing w)\<rparr>
      else w\<lparr>wk_casket := hm_delete tk (wk_casket w)\<rparr>)"

definition table_keys :: "nat \<Rightarrow> worker \<Rightarrow> token set" where
  "table_keys k w =
     (if k = 0 then hm_keys (wk_reading w) else if k = 1 then hm_keys (wk_writing w) else hm_keys (wk_casket w))"

lemma holders_drop:
  assumes "ledger ns rs w" and "tk \<in> table_keys k w"
  shows "holders w = add_mset tk (holders (drop_from k tk w))"
proof -
  have d: "keysm m = add_mset tk (keysm (hm_delete tk m))" if "hm_wf m" "tk \<in> hm_keys m" for m :: "(token \<times> 'a) list"
    using hm_mem_obtain [OF that(2)] keysm_delete [OF that(1)] by blast
  show ?thesis
    using assms(2) d [OF ledger_wf(1) [OF assms(1)]] d [OF ledger_wf(3) [OF assms(1)]]
      d [OF ledger_wf(4) [OF assms(1)]]
    by (auto simp: holders_def table_keys_def drop_from_def)
qed

lemma drop_from_simps [simp]:
  "wk_buf (drop_from k tk w) = wk_buf w" "wk_poll (drop_from k tk w) = wk_poll w"
  "wk_threads (drop_from k tk w) = wk_threads w" "wk_pending (drop_from k tk w) = wk_pending w"
  "wk_results (drop_from k tk w) = wk_results w"
  by (simp_all add: drop_from_def)

lemma poll_at_drop: "x \<noteq> tk \<Longrightarrow> poll_at (drop_from k tk w) x = poll_at w x"
  by (rule poll_at_cong) (auto simp: drop_from_def)

lemma readers_ok_drop: "readers_ok w \<Longrightarrow> readers_ok (drop_from k tk w)"
  by (auto simp: readers_ok_def drop_from_def hm_delete_def)

lemma hm_keys_drop: "hm_keys (wk_reading (drop_from k tk w)) \<subseteq> hm_keys (wk_reading w)"
  by (auto simp: drop_from_def)

lemma mid_push_stream:
  assumes m: "mid cfg ns (tk # mv) rs w" and k: "tk \<in> table_keys k w"
    and r: "stream_tok r = [tk]" "new_tok r = []" "resp_tok r = []" "result_ok cfg r"
    "set (read_tok r) \<subseteq> (if k = 0 then {tk} else {})"
  shows "mid cfg ns mv (rs @ [r]) (drop_from k tk w)"
proof -
  have reg: "reg_tok r = [tk]" using r by (simp add: reg_tok_def)
  have L: "ledger ns rs w" using m by (simp add: mid_def)
  have "ledger ns (rs @ [r]) (drop_from k tk w)"
    using L holders_drop [OF L k] r by (simp add: ledger_def live_def)
  moreover have "answers_due (rs @ [r]) (drop_from k tk w)"
    using m r by (simp add: mid_def answers_due_def)
  moreover have "not_asked ns (rs @ [r]) (drop_from k tk w)"
  proof -
    have "set (read_tok r) \<subseteq> hm_keys (wk_reading w)"
      using r(5) k by (auto simp: table_keys_def split: if_splits)
    with m hm_keys_drop [of k tk w] show ?thesis by (auto simp: mid_def not_asked_def)
  qed
  moreover have "polled ns mv (rs @ [r]) (drop_from k tk w)"
    using m reg r poll_at_drop [of _ tk k w] by (auto simp: mid_def polled_def)
  moreover have "healthy cfg (rs @ [r]) (drop_from k tk w)"
    using m r readers_ok_drop by (simp add: mid_def healthy_def)
  ultimately show ?thesis by (simp add: mid_def)
qed

section \<open>One event\<close>

lemma mid_buf:
  assumes "mid cfg n m rs w" and "server_fds b = server_fds (wk_buf w)" and "wb_inv b"
  shows "mid cfg n m rs (w\<lparr>wk_buf := b\<rparr>)"
proof -
  have "poll_at (w\<lparr>wk_buf := b\<rparr>) tk = poll_at w tk" for tk by (rule poll_at_cong) simp_all
  moreover have "ledger n rs (w\<lparr>wk_buf := b\<rparr>) = ledger n rs w"
    using assms(2) by (simp add: ledger_def holders_def live_def)
  moreover have "answers_due rs (w\<lparr>wk_buf := b\<rparr>) = answers_due rs w" "not_asked n rs (w\<lparr>wk_buf := b\<rparr>) = not_asked n rs w"
    by (simp_all add: answers_due_def not_asked_def)
  ultimately show ?thesis using assms(1,3) by (simp add: mid_def polled_def healthy_def readers_ok_def)
qed

definition returns :: "codec \<Rightarrow> config \<Rightarrow> worker_input \<Rightarrow> (token \<times> event) list \<Rightarrow> worker turn exec \<Rightarrow> bool" where
  "returns cd cfg i evs m \<longleftrightarrow> (\<exists>t. m = Ret t \<and> (\<forall>w'. t = Next w' \<longrightarrow> during cd cfg i evs w'))"

lemma returns_Next: "during cd cfg i evs w' \<Longrightarrow> returns cd cfg i evs (Ret (Next w'))"
  by (simp add: returns_def)

lemma returns_leave_on_err:
  "(r = Ok () \<Longrightarrow> during cd cfg i evs w') \<Longrightarrow> returns cd cfg i evs (leave_on_err w' r)"
  by (cases r) (auto simp: returns_def leave_on_err_def)

lemma events_ok_tl: "events_ok cd i (e # evs) w \<Longrightarrow> events_ok cd i evs w"
  by (cases e) (auto simp: events_ok_def split: if_splits)

text \<open>Events that only change the local variables.\<close>

lemma during_local:
  assumes "during cd cfg i ((tk, ev) # evs) w" and "news [(tk, ev)] = []" and "moving [(tk, ev)] = []"
  shows "during cd cfg i evs w"
  using assms events_ok_tl by (auto simp: during_def split: if_splits)

lemma during_locals [simp]:
  "during cd cfg i evs (w\<lparr>wk_timeouts := y\<rparr>) = during cd cfg i evs w"
  "during cd cfg i evs (w\<lparr>wk_closing := z\<rparr>) = during cd cfg i evs w"
  by (simp_all add: during_def events_ok_def reads_ok_def)

lemma wlog_locals [simp]:
  "wk_results (wlog l w) = wk_results w" "wk_timeouts (wlog l w) = wk_timeouts w" "wk_closing (wlog l w) = wk_closing w"
  by (simp_all add: wlog_def)

lemma poll_at_wlog [simp]: "poll_at (wlog l w) tk = poll_at w tk"
  by (rule poll_at_cong) simp_all

lemma mid_wlog [simp]: "mid cfg n m rs (wlog l w) = mid cfg n m rs w"
  by (simp add: mid_def ledger_def holders_def live_def answers_due_def not_asked_def polled_def healthy_def
      readers_ok_def)

lemma during_wlog [simp]: "during cd cfg i evs (wlog l w) = during cd cfg i evs w"
  by (simp add: during_def events_ok_def reads_ok_def)

lemma event_unix_read:
  assumes "during cd cfg i ((tk, UnixStreamRead) # evs) w"
  shows "returns cd cfg i evs (handle_worker_event cd cfg i (tk, UnixStreamRead) w)"
proof (cases "wi_unix_read i")
  case (Err e)
  then show ?thesis by (simp add: wb_read_stream_def leave_on_err_def fatal_result_def returns_def)
next
  case (Ok bs)
  have m: "mid cfg (news evs) (moving evs) (wk_results w) w" and ev: "events_ok cd i ((tk, UnixStreamRead) # evs) w"
    using assms by (simp_all add: during_def)
  have b: "bytes_ok cd i (wk_buf w)" using ev by (simp add: events_ok_def)
  obtain ps r where sp: "split_frames 1 1 u8_from (wb_unread (wk_buf w) @ bs) = (ps, r)"
    by (cases "split_frames 1 1 u8_from (wb_unread (wk_buf w) @ bs)")
  obtain ms where de: "decode_all (de_request cd) ps = Some ms" and fit: "length bs \<le> wb_space (wk_buf w)"
    using b Ok sp by (auto simp: bytes_ok_def)
  from wb_read_spec [OF mid_wb [OF m] fit sp de, of "wi_unix_fds i"] obtain b' where
    b': "wb_read_stream cd (Ok bs) (wi_unix_fds i) (wk_buf w) = Ret (b', Ok ())" "wb_inv b'"
    "server_fds b' = server_fds (wk_buf w)" by blast
  have none: "UnixStreamRead \<notin> snd ` set evs"
    using ev by (auto simp: events_ok_def filter_empty_conv)
  have "mid cfg (news evs) (moving evs) (wk_results w) (w\<lparr>wk_buf := b'\<rparr>)"
    by (rule mid_buf [OF m b'(3,2)])
  moreover have "events_ok cd i evs (w\<lparr>wk_buf := b'\<rparr>)"
    using events_ok_tl [OF ev] none by (simp add: events_ok_def reads_ok_def)
  ultimately have "during cd cfg i evs (w\<lparr>wk_buf := b'\<rparr>)" by (simp add: during_def)
  then show ?thesis
    using Ok b'(1) by (simp add: returns_def leave_on_err_def fatal_result_def)
qed

lemma event_unix_write:
  assumes "during cd cfg i ((tk, UnixStreamWrite) # evs) w"
  shows "returns cd cfg i evs (handle_worker_event cd cfg i (tk, UnixStreamWrite) w)"
proof -
  have m: "mid cfg (news evs) (moving evs) (wk_results w) w" and ev: "events_ok cd i evs w"
    using assms events_ok_tl by (auto simp: during_def)
  obtain b out r where wb: "wb_write_stream (wi_unix_write i) (wk_buf w) = (b, out, r)"
    by (cases "wb_write_stream (wi_unix_write i) (wk_buf w)")
  then have b: "server_fds b = server_fds (wk_buf w)" "wb_inv b = wb_inv (wk_buf w)"
    "wb_space b = wb_space (wk_buf w)" "wb_unread b = wb_unread (wk_buf w)"
    by (auto simp: wb_write_stream_def wb_inv_def wb_space_def wb_unread_def split: result.splits)
  have "mid cfg (news evs) (moving evs) (wk_results w) (w\<lparr>wk_buf := b\<rparr>)"
    using mid_wb [OF m] b by (intro mid_buf [OF m]) simp_all
  moreover have "events_ok cd i evs (w\<lparr>wk_buf := b\<rparr>)"
    using ev b by (simp add: events_ok_def reads_ok_def bytes_ok_def)
  ultimately have "during cd cfg i evs (w\<lparr>wk_buf := b\<rparr>)" by (simp add: during_def)
  then show ?thesis
    unfolding handle_worker_event.simps wb Let_def prod.case
    by (intro returns_leave_on_err) simp
qed

lemma event_new:
  assumes "during cd cfg i ((tk, NewStreamFd fd) # evs) w"
  shows "returns cd cfg i evs (handle_worker_event cd cfg i (tk, NewStreamFd fd) w)"
proof -
  let ?r = "Ok (if max_requests cfg \<le> num_pending_reqs (wk_threads w)
      then new_503_service_busy tk fd else NewServerRequest tk fd) :: action_result"
  have m: "mid cfg (tk # news evs) (moving evs) (wk_results w) w" and ev: "events_ok cd i evs w"
    using assms events_ok_tl by (auto simp: during_def)
  have "mid cfg (news evs) (moving evs) (wk_results w @ [?r]) w"
    by (rule mid_push_new [OF m]) (simp_all add: new_503_service_busy_def)
  with ev show ?thesis
    by (auto intro!: returns_Next simp: during_def push_action_def events_ok_def reads_ok_def)
qed

lemma reader_no_panic:
  assumes "reader_inv rd" and "read_fits res rd" and "\<forall>bs. res = Ok bs \<longrightarrow> \<not> huge_request lib bs rd"
  shows "no_panic (read_tcp_stream lib res rd)"
proof (cases rd)
  case (HaveHeader pr)
  then show ?thesis by (simp add: read_tcp_stream_def split: result.split)
next
  case (Begin n buf)
  show ?thesis
  proof (cases res)
    case (Err e)
    with Begin show ?thesis by (simp add: read_tcp_stream_Err)
  next
    case (Ok bs)
    show ?thesis
    proof (cases "bs = []")
      case True
      with Begin Ok show ?thesis by (simp add: read_tcp_stream_EOF)
    next
      case False
      have n: "n \<le> length buf" "length bs \<le> read_space (Begin n buf)"
        using assms(1,2) Begin Ok by (simp_all add: reader_inv_def read_fits_def)
      from read_tcp_stream_Begin [OF n False, of lib] obtain g where
        step: "read_tcp_stream lib (Ok bs) (Begin n buf) =
         (case parse_request lib (take n buf @ bs) of
            ParseErr e \<Rightarrow> Ret (Err (HeaderParse e))
          | ParsePartial \<Rightarrow> Ret (Ok (ReadPartial (Begin (n + length bs) g)))
          | ParseComplete k raw \<Rightarrow> after_header lib (take n buf @ bs) k raw)" by blast
      have "no_panic (after_header lib (take n buf @ bs) k raw)"
        if "parse_request lib (take n buf @ bs) = ParseComplete k raw" for k raw
        using after_header_panics [of lib "take n buf @ bs" k raw] assms(3) Begin Ok that
        by (cases "after_header lib (take n buf @ bs) k raw") (auto simp: huge_request_def)
      with step Begin Ok show ?thesis
        by (cases "parse_request lib (take n buf @ bs)") simp_all
    qed
  qed
qed

text \<open>Events of a stream: it leaves its table.\<close>

lemma during_drop:
  assumes "during cd cfg i ((tk, ev) # evs) w" and k: "ev = [ServerStreamRead, ServerStreamWrite, CasketResponseWrite] ! k" "k < 3"
    and r: "stream_tok r = [tk]" "new_tok r = []" "resp_tok r = []" "result_ok cfg r"
    "set (read_tok r) \<subseteq> (if k = 0 then {tk} else {})"
  shows "during cd cfg i evs (push_action r (drop_from k tk w))"
proof -
  have ev: "ev \<in> {ServerStreamRead, ServerStreamWrite, CasketResponseWrite}" "\<And>fd. ev \<noteq> NewStreamFd fd"
    using k by (auto simp: less_Suc_eq numeral_3_eq_3)
  have m: "mid cfg (news evs) (tk # moving evs) (wk_results w) w"
    and e: "events_ok cd i ((tk, ev) # evs) w"
    using assms(1) ev by (auto simp: during_def split: event.splits)
  have keys: "tk \<in> table_keys k w"
    using e k by (auto simp: events_ok_def table_keys_def less_Suc_eq numeral_3_eq_3)
  have "tk \<notin> set (moving evs)" using e ev by (auto simp: events_ok_def)
  then have "\<forall>x \<in> set evs. is_stream x \<longrightarrow> fst x \<noteq> tk" by (auto simp: moving_def)
  moreover have "reads_ok i (drop_from k tk w)"
    using e by (auto simp: events_ok_def drop_from_def reads_ok_def hm_delete_def)
  ultimately have "events_ok cd i evs (drop_from k tk w)"
    using events_ok_tl [OF e] by (auto simp: events_ok_def is_stream_def) (auto simp: drop_from_def)
  then have "events_ok cd i evs (push_action r (drop_from k tk w))"
    by (simp add: events_ok_def push_action_def reads_ok_def)
  with mid_push_stream [OF m keys r] show ?thesis by (simp add: during_def push_action_def)
qed

lemma event_read:
  assumes "during cd cfg i ((tk, ServerStreamRead) # evs) w"
  shows "returns cd cfg i evs (handle_worker_event cd cfg i (tk, ServerStreamRead) w)"
proof -
  have m: "mid cfg (news evs) (tk # moving evs) (wk_results w) w" and e: "events_ok cd i ((tk, ServerStreamRead) # evs) w"
    using assms by (simp_all add: during_def)
  have "tk \<in> hm_keys (wk_reading w)" using e by (simp add: events_ok_def)
  then obtain fd rd where g: "hm_get (wk_reading w) tk = Some (fd, rd)" using hm_mem_obtain by (metis surj_pair)
  then have mem: "(tk, (fd, rd)) \<in> set (wk_reading w)" by (simp add: hm_get_def map_of_SomeD)
  have rd: "reader_inv rd" using m mem by (force simp: mid_def healthy_def readers_ok_def)
  have fits: "read_fits (wi_read i tk) rd" "\<forall>bs. wi_read i tk = Ok bs \<longrightarrow> \<not> huge_request (wi_lib i tk) bs rd"
    and lib: "lib_sizes (wi_lib i tk)"
    using e mem by (force simp: events_ok_def reads_ok_def)+
  from reader_no_panic [OF rd fits] obtain res where
    res: "read_tcp_stream (wi_lib i tk) (wi_read i tk) rd = Ret res" by (auto simp: no_panic_iff)
  define r where "r = (case res of
          Err e \<Rightarrow> stream_error tk fd e
        | Ok (ReadPartial rd) \<Rightarrow> Ok (ServerContinueRead tk rd fd)
        | Ok (ReadComplete req) \<Rightarrow> Ok (ServerReadDone tk req fd)
        | Ok StreamEOF \<Rightarrow> Ok (ServerStreamEOF tk fd))"
  have "stream_tok r = [tk]" "new_tok r = []" "resp_tok r = []" "set (read_tok r) \<subseteq> {tk}"
    by (simp_all add: r_def stream_error_def split: result.split read_state.split)
  moreover have "result_ok cfg r"
    using read_tcp_stream_inv [OF rd fits(1) lib] res
    by (auto simp: r_def stream_error_def split: result.split read_state.split)
  ultimately have "during cd cfg i evs (push_action r (drop_from 0 tk w))"
    by (intro during_drop [OF assms]) simp_all
  moreover have "handle_worker_event cd cfg i (tk, ServerStreamRead) w = Ret (Next (push_action r (drop_from 0 tk w)))"
    using g res by (simp add: event_server_stream_read_def r_def drop_from_def)
  ultimately show ?thesis by (simp add: returns_def)
qed

lemma event_write:
  assumes "during cd cfg i ((tk, ServerStreamWrite) # evs) w"
  shows "returns cd cfg i evs (handle_worker_event cd cfg i (tk, ServerStreamWrite) w)"
proof -
  have "tk \<in> hm_keys (wk_writing w)" using assms by (simp add: during_def events_ok_def)
  then obtain fd wr where g: "hm_get (wk_writing w) tk = Some (fd, wr)" using hm_mem_obtain by (metis surj_pair)
  define r where "r = event_server_stream_write (wi_recv i tk) (wi_write i tk) tk fd wr"
  have "stream_tok r = [tk]" "new_tok r = []" "resp_tok r = []" "read_tok r = []" "result_ok cfg r"
    by (simp_all add: r_def event_server_stream_write_def stream_error_def split: result.split write_state.split)
  then have "during cd cfg i evs (push_action r (drop_from 1 tk w))"
    by (intro during_drop [OF assms]) simp_all
  then show ?thesis using g by (simp add: returns_def r_def drop_from_def)
qed

lemma event_casket:
  assumes "during cd cfg i ((tk, CasketResponseWrite) # evs) w"
  shows "returns cd cfg i evs (handle_worker_event cd cfg i (tk, CasketResponseWrite) w)"
proof -
  have "tk \<in> hm_keys (wk_casket w)" using assms by (simp add: during_def events_ok_def)
  then obtain fd cr where g: "hm_get (wk_casket w) tk = Some (fd, cr)" using hm_mem_obtain by (metis surj_pair)
  define r where "r = event_casket_response_write (wi_write i tk) tk fd cr"
  have "stream_tok r = [tk]" "new_tok r = []" "resp_tok r = []" "read_tok r = []" "result_ok cfg r"
    by (simp_all add: r_def event_casket_response_write_def stream_error_def Let_def split: result.split)
  then have "during cd cfg i evs (push_action r (drop_from 2 tk w))"
    by (intro during_drop [OF assms]) simp_all
  then show ?thesis using g by (simp add: returns_def r_def drop_from_def)
qed

text \<open>Events of the Python threads.\<close>

lemma poll_at_threads [simp]: "poll_at (w\<lparr>wk_threads := pt\<rparr>) tk = poll_at w tk"
  by (rule poll_at_cong) simp_all

lemma mid_threads:
  assumes "mid cfg n m rs w" and "threads_inv pt" and "asked pt \<subseteq> asked (wk_threads w)"
    and "mset_set (awaited (wk_threads w)) + mset (toks resp_tok rs) = mset_set (awaited pt) + mset (toks resp_tok qs)"
    and "toks stream_tok qs = toks stream_tok rs" and "toks read_tok qs = toks read_tok rs"
    and "toks new_tok qs = toks new_tok rs" and "toks reg_tok qs = toks reg_tok rs"
    and "list_all (result_ok cfg) qs"
  shows "mid cfg n m qs (w\<lparr>wk_threads := pt\<rparr>)"
proof -
  have "ledger n qs (w\<lparr>wk_threads := pt\<rparr>)"
    using assms(1,5) by (simp add: mid_def ledger_def holders_def live_def)
  moreover have "answers_due qs (w\<lparr>wk_threads := pt\<rparr>)"
    using assms(1,4) by (simp add: mid_def answers_due_def)
  moreover have "not_asked n qs (w\<lparr>wk_threads := pt\<rparr>)"
    using assms(1,3,6) by (auto simp: mid_def not_asked_def)
  moreover have "polled n m qs (w\<lparr>wk_threads := pt\<rparr>)"
    using assms(1,7,8) by (simp add: mid_def polled_def)
  ultimately show ?thesis using assms(1,2,9) by (simp add: mid_def healthy_def readers_ok_def)
qed

lemma event_queued:
  assumes "during cd cfg i ((tk, QueuedRequests) # evs) w"
  shows "returns cd cfg i evs (handle_worker_event cd cfg i (tk, QueuedRequests) w)"
proof -
  have m: "mid cfg (news evs) (moving evs) (wk_results w) w" and e: "events_ok cd i evs w"
    using assms events_ok_tl by (auto simp: during_def)
  have inv: "threads_inv (wk_threads w)" and ro: "list_all (result_ok cfg) (wk_results w)"
    using m by (simp_all add: mid_def healthy_def)
  from send_queued_cases [OF inv] obtain pt r where
    s: "send_queued_requests (wk_threads w) = Ret (pt, r)" and
    ok: "r = Ok () \<Longrightarrow> threads_inv pt \<and> awaited pt = awaited (wk_threads w) \<and>
      set (pt_inflight (wk_threads w)) \<subseteq> set (pt_inflight pt) \<and> asked pt = asked (wk_threads w)"
    by blast
  have "during cd cfg i evs (w\<lparr>wk_threads := pt\<rparr>)" if "r = Ok ()"
  proof -
    have "mid cfg (news evs) (moving evs) (wk_results w) (w\<lparr>wk_threads := pt\<rparr>)"
      using ok [OF that] ro by (intro mid_threads [OF m]) simp_all
    moreover have "events_ok cd i evs (w\<lparr>wk_threads := pt\<rparr>)"
      using e ok [OF that] by (auto simp: events_ok_def reads_ok_def answers_ok_def)
    ultimately show ?thesis by (simp add: during_def)
  qed
  then show ?thesis using s by (simp add: returns_leave_on_err)
qed

lemma toks_empty: "(\<And>r. r \<in> set rs \<Longrightarrow> f r = []) \<Longrightarrow> toks f rs = []"
  by (induction rs) auto

text \<open>The responses that are handed over are those that are still awaited.\<close>

lemma taken_due:
  assumes inv: "threads_inv pt" and a: "answers_ok rs pt"
    and pt': "queued_reqs pt' = queued_reqs pt"
      "set (pt_inflight pt') = set (pt_inflight pt) - set (resp_tokens rs)"
      "set (timed_out_reqs pt') = set (timed_out_reqs pt) - set (resp_tokens rs)"
  shows "mset_set (awaited pt) =
     mset_set (awaited pt') + mset (map (\<lambda>x. Token (fst x)) (filter (\<lambda>x. Token (fst x) \<notin> set (timed_out_reqs pt)) rs))"
proof -
  let ?got = "map (\<lambda>x. Token (fst x)) (filter (\<lambda>x. Token (fst x) \<notin> set (timed_out_reqs pt)) rs)"
  have "set (resp_tokens rs) \<inter> fst ` set (queued_reqs pt) = {}"
    using a inv by (auto simp: answers_ok_def threads_inv_def)
  then have aw: "awaited pt' = awaited pt - set (resp_tokens rs)" using pt' by (auto simp: awaited_def)
  have gset: "set ?got = awaited pt \<inter> set (resp_tokens rs)"
    using a by (auto simp: answers_ok_def awaited_def resp_tokens_def)
  have "distinct ?got" using a by (simp add: answers_ok_def resp_tokens_def distinct_map_filter)
  then have "mset ?got = mset_set (awaited pt \<inter> set (resp_tokens rs))"
    unfolding gset [symmetric] by (simp only: mset_set_set)
  moreover have "mset_set (awaited pt) = mset_set (awaited pt') + mset_set (awaited pt \<inter> set (resp_tokens rs))"
    unfolding aw by (subst mset_set_Union [symmetric]) (auto intro: arg_cong [of _ _ mset_set])
  ultimately show ?thesis by simp
qed

lemma event_poll:
  assumes t: "times_ok cfg i" and d: "during cd cfg i ((tk, PollPythonResponses) # evs) w"
  shows "returns cd cfg i evs (handle_worker_event cd cfg i (tk, PollPythonResponses) w)"
proof (cases "wi_starts_gone i")
  case True
  then show ?thesis by (simp add: take_responses_def returns_def leave_on_err_def)
next
  case False
  have m: "mid cfg (news evs) (moving evs) (wk_results w) w"
    and e: "events_ok cd i ((tk, PollPythonResponses) # evs) w"
    using d by (simp_all add: during_def)
  have inv: "threads_inv (wk_threads w)" and ro: "list_all (result_ok cfg) (wk_results w)"
    using m by (simp_all add: mid_def healthy_def)
  have a: "answers_ok (wi_resps i) (wk_threads w)" using e by (simp add: events_ok_def)
  let ?late = "set (timed_out_reqs (wk_threads w))"
  let ?got = "filter (\<lambda>x. Token (fst x) \<notin> ?late) (wi_resps i)"
  let ?new = "map start_action (wi_starts i) @
    map (\<lambda>x. Ok (ServerNewResponse (Token (fst x)) (snd x))) ?got"
  from take_responses_eq [OF inv a, of "wi_starts i" "wi_resps_gone i" "wk_results w"] obtain pt where
    tr: "take_responses (wi_starts i) False (wi_resps i) (wi_resps_gone i) (wk_threads w) (wk_results w) =
      Ret (pt, wk_results w @ ?new, if wi_resps_gone i then Err PythonThreadsDied else Ok ())"
    and pt: "threads_inv pt" "queued_reqs pt = queued_reqs (wk_threads w)"
     "set (pt_inflight pt) = set (pt_inflight (wk_threads w)) - set (resp_tokens (wi_resps i))"
     "set (timed_out_reqs pt) = ?late - set (resp_tokens (wi_resps i))" "asked pt = asked (wk_threads w)" by auto
  have got: "toks resp_tok ?new = map (\<lambda>x. Token (fst x)) ?got"
    by (simp add: toks_def start_action_def o_def concat_map_singleton)
  have "mset (toks resp_tok (wk_results w @ ?new)) =
      mset (toks resp_tok (wk_results w)) + mset (map (\<lambda>x. Token (fst x)) ?got)"
    using got toks_simps(3) [of resp_tok "wk_results w" ?new] by (simp only: mset_append)
  then have due: "mset_set (awaited (wk_threads w)) + mset (toks resp_tok (wk_results w)) =
      mset_set (awaited pt) + mset (toks resp_tok (wk_results w @ ?new))"
    using taken_due [OF inv a pt(2-4)] by (simp only: ac_simps)
  have ne: "toks f (wk_results w @ ?new) = toks f (wk_results w)"
    if "\<And>tk st. f (Ok (ServerPythonCodeTimeoutNew tk st)) = []"
      "\<And>tk rp. f (Ok (ServerNewResponse tk rp)) = []" for f
  proof -
    have "toks f ?new = []" using that by (intro toks_empty) (auto simp: start_action_def)
    then show ?thesis by (simp only: toks_simps(3) append_Nil2)
  qed
  have ok: "list_all (result_ok cfg) (wk_results w @ ?new)"
    using t ro by (auto simp: list_all_iff start_action_def times_ok_def)
  have "mid cfg (news evs) (moving evs) (wk_results w @ ?new) (w\<lparr>wk_threads := pt\<rparr>)"
    by (rule mid_threads [OF m pt(1) _ due _ _ _ _ ok]; (rule ne)?) (use pt in auto)
  moreover have "PollPythonResponses \<notin> snd ` set evs"
    using e by (auto simp: events_ok_def filter_empty_conv)
  then have "events_ok cd i evs (w\<lparr>wk_threads := pt, wk_results := wk_results w @ ?new\<rparr>)"
    using events_ok_tl [OF e] by (simp add: events_ok_def reads_ok_def)
  ultimately have "during cd cfg i evs (w\<lparr>wk_threads := pt, wk_results := wk_results w @ ?new\<rparr>)"
    by (simp add: during_def)
  then show ?thesis using False tr by (simp add: returns_leave_on_err)
qed

lemma event_step:
  assumes t: "times_ok cfg i" and d: "during cd cfg i (x # evs) w"
  shows "returns cd cfg i evs (handle_worker_event cd cfg i x w)"
proof -
  obtain tk ev where x: "x = (tk, ev)" by (cases x)
  note d = d [unfolded x]
  show ?thesis unfolding x
  proof (cases ev)
    case UnixStreamRead
    then show "returns cd cfg i evs (handle_worker_event cd cfg i (tk, ev) w)" using event_unix_read d by simp
  next
    case UnixStreamWrite
    then show "returns cd cfg i evs (handle_worker_event cd cfg i (tk, ev) w)" using event_unix_write d by simp
  next
    case (NewStreamFd fd)
    then show "returns cd cfg i evs (handle_worker_event cd cfg i (tk, ev) w)" using event_new d by simp
  next
    case ServerStreamRead
    then show "returns cd cfg i evs (handle_worker_event cd cfg i (tk, ev) w)" using event_read d by simp
  next
    case QueuedRequests
    then show "returns cd cfg i evs (handle_worker_event cd cfg i (tk, ev) w)" using event_queued d by simp
  next
    case PollPythonResponses
    then show "returns cd cfg i evs (handle_worker_event cd cfg i (tk, ev) w)" using event_poll [OF t] d by simp
  next
    case ServerStreamWrite
    then show "returns cd cfg i evs (handle_worker_event cd cfg i (tk, ev) w)" using event_write d by simp
  next
    case CasketResponseWrite
    then show "returns cd cfg i evs (handle_worker_event cd cfg i (tk, ev) w)" using event_casket d by simp
  qed (use during_local [OF d] in \<open>simp_all add: returns_Next\<close>)
qed

lemma events_during:
  assumes "times_ok cfg i"
  shows "during cd cfg i evs w \<Longrightarrow> returns cd cfg i [] (turn_fold (handle_worker_event cd cfg i) evs w)"
proof (induction evs arbitrary: w)
  case Nil
  then show ?case by (simp add: returns_Next)
next
  case (Cons x evs)
  from event_step [OF assms Cons.prems] obtain t where
    t: "handle_worker_event cd cfg i x w = Ret t" "\<forall>w'. t = Next w' \<longrightarrow> during cd cfg i evs w'"
    by (auto simp: returns_def)
  show ?case
  proof (cases t)
    case (Next u)
    with t Cons.IH [of u] show ?thesis by simp
  next
    case (Leave u r)
    with t show ?thesis by (simp add: returns_def)
  qed
qed

section \<open>Timeouts\<close>

definition canned_only :: "config \<Rightarrow> worker \<Rightarrow> bool" where
  "canned_only cfg w \<longleftrightarrow> mid cfg [] [] (wk_results w) w \<and> toks resp_tok (wk_results w) = []"

lemma mid_moved: "mid cfg ns [] rs w \<Longrightarrow> mid cfg ns mv rs w"
  by (auto simp: mid_def polled_def)

lemma timeout_read_step:
  assumes i: "regs_ok i" and c: "canned_only cfg w"
  shows "\<exists>w'. handle_timeout i (tk, RequestRead) w = Ret (Next w') \<and> canned_only cfg w'"
proof (cases "hm_get (wk_reading w) tk")
  case None
  with c show ?thesis by simp
next
  case (Some x)
  obtain fd rd where x: "x = (fd, rd)" by (cases x)
  have m: "mid cfg [] [] (wk_results w) w" using c by (simp add: canned_only_def)
  let ?p = "(wk_poll w)\<lparr>poll_reg := hm_delete tk (poll_reg (wk_poll w))\<rparr>"
  let ?r = "Ok (new_408_timeout tk fd) :: action_result"
  let ?u = "(drop_from 0 tk w)\<lparr>wk_poll := ?p\<rparr>"
  have key: "tk \<in> table_keys 0 w" using hm_get_SomeD [OF Some] by (simp add: table_keys_def)
  have L: "ledger [] (wk_results w) w" using m by (simp add: mid_def)
  have "holders ?u = holders (drop_from 0 tk w)" by (simp add: holders_def)
  with L holders_drop [OF L key] have "ledger [] (wk_results w @ [?r]) ?u"
    by (simp add: ledger_def live_def new_408_timeout_def)
  moreover have "answers_due (wk_results w @ [?r]) ?u"
    using m by (simp add: mid_def answers_due_def new_408_timeout_def)
  moreover have "not_asked [] (wk_results w @ [?r]) ?u"
    using m hm_keys_drop [of 0 tk w] by (auto simp: mid_def not_asked_def new_408_timeout_def)
  moreover have "poll_at ?u y" if "poll_at w y \<or> y = tk" for y
  proof (cases "y = tk")
    case True
    then show ?thesis by (simp add: poll_at_None)
  next
    case False
    then have "poll_at ?u y = poll_at w y" by (intro poll_at_cong) (auto simp: drop_from_def)
    with that False show ?thesis by simp
  qed
  then have "polled [] [] (wk_results w @ [?r]) ?u"
    using m by (auto simp: mid_def polled_def new_408_timeout_def)
  moreover have "healthy cfg (wk_results w @ [?r]) ?u"
    using m readers_ok_drop [of w 0 tk] by (simp add: mid_def healthy_def readers_ok_def new_408_timeout_def)
  ultimately have "mid cfg [] [] (wk_results w @ [?r]) ?u" by (simp add: mid_def)
  then have "canned_only cfg (push_action ?r ?u)"
    using c by (simp add: canned_only_def push_action_def new_408_timeout_def)
  moreover have "handle_timeout i (tk, RequestRead) w = Ret (Next (push_action ?r ?u))"
    using i Some x by (simp add: regs_ok_def deregister_def reg_result_def drop_from_def)
  ultimately show ?thesis by blast
qed

lemma timeout_code_step:
  assumes c: "canned_only cfg w"
  shows "\<exists>w'. handle_timeout i (tk, PythonCode) w = Ret (Next w') \<and> canned_only cfg w'"
proof (cases "hm_get (wk_pending w) tk")
  case None
  with c show ?thesis by simp
next
  case (Some fd)
  have m: "mid cfg [] [] (wk_results w) w" and no_resp: "toks resp_tok (wk_results w) = []"
    using c by (simp_all add: canned_only_def)
  let ?r = "Ok (new_504_gateway_timeout tk fd) :: action_result"
  let ?pt = "timeout_request tk (wk_threads w)"
  let ?u = "w\<lparr>wk_pending := hm_delete tk (wk_pending w), wk_threads := ?pt\<rparr>"
  have L: "ledger [] (wk_results w) w" and inv: "threads_inv (wk_threads w)"
    using m by (simp_all add: mid_def healthy_def)
  have kd: "keysm (wk_pending w) = add_mset tk (keysm (hm_delete tk (wk_pending w)))"
    by (rule keysm_delete [OF ledger_wf(2) [OF L] Some])
  have due: "keysm (wk_pending w) = mset_set (awaited (wk_threads w))"
    using m no_resp by (simp add: mid_def answers_due_def)
  have aw: "tk \<in> awaited (wk_threads w)" "keysm (hm_delete tk (wk_pending w)) = mset_set (awaited (wk_threads w) - {tk})"
    using mset_set_add [OF finite_awaited, of tk] kd due by auto
  have pt: "threads_inv ?pt" "awaited ?pt = awaited (wk_threads w) - {tk}" "asked ?pt = asked (wk_threads w)"
    using inv aw(1) by (auto simp: threads_inv_def awaited_def asked_def timeout_request_def)
  have h: "holders w = add_mset tk (holders ?u)" by (simp add: holders_def kd)
  have Lr: "ledger [] (wk_results w @ [?r]) ?u"
    using L h by (simp add: ledger_def live_def new_504_gateway_timeout_def)
  have A: "answers_due (wk_results w @ [?r]) ?u"
    using aw(2) pt(2) no_resp by (simp add: answers_due_def new_504_gateway_timeout_def)
  have N: "not_asked [] (wk_results w @ [?r]) ?u"
    using m pt(3) by (auto simp: mid_def not_asked_def new_504_gateway_timeout_def)
  have at: "poll_at ?u y = poll_at w y" for y by (rule poll_at_cong) simp_all
  have "hm_get (poll_reg (wk_poll w)) tk = None" if "tk \<noteq> UNIX_STREAM_TOKEN"
  proof -
    have "add_mset tk (mset (toks stream_tok (wk_results w)) + holders ?u) = mset_set (live w)"
      using L h by (simp add: ledger_def)
    note nin = mset_set_add(2) [OF finite_live this]
    then have "tk \<notin> set (toks reg_tok (wk_results w))"
      using toks_mono [of reg_tok stream_tok, OF reg_tok_stream] by auto
    with m that have "poll_at w tk" by (auto simp: mid_def polled_def)
    with nin show ?thesis by (auto simp: poll_at_def split: option.splits mio_interest.splits)
  qed
  then have P: "polled [] [] (wk_results w @ [?r]) ?u"
    using m at by (auto simp: mid_def polled_def new_504_gateway_timeout_def)
  have "healthy cfg (wk_results w @ [?r]) ?u"
    using m pt(1) by (simp add: mid_def healthy_def readers_ok_def new_504_gateway_timeout_def)
  with Lr A N P have "mid cfg [] [] (wk_results w @ [?r]) ?u" by (simp add: mid_def)
  then have "canned_only cfg (push_action ?r ?u)"
    using c by (simp add: canned_only_def push_action_def new_504_gateway_timeout_def)
  then show ?thesis using Some by simp
qed

lemma timeouts_step:
  assumes "regs_ok i"
  shows "canned_only cfg w \<Longrightarrow> \<exists>w'. turn_fold (handle_timeout i) ts w = Ret (Next w') \<and> canned_only cfg w'"
proof (induction ts arbitrary: w)
  case Nil
  then show ?case by simp
next
  case (Cons x ts)
  obtain tk k where x: "x = (tk, k)" by (cases x)
  have "\<exists>u. handle_timeout i x w = Ret (Next u) \<and> canned_only cfg u"
    unfolding x using timeout_read_step [OF assms Cons.prems] timeout_code_step [OF Cons.prems]
    by (cases k) auto
  with Cons.IH show ?case by auto
qed

section \<open>Between turns\<close>

definition unix_at :: "worker \<Rightarrow> bool" where
  "unix_at w \<longleftrightarrow>
     (case hm_get (poll_reg (wk_poll w)) UNIX_STREAM_TOKEN of
        Some Readable \<Rightarrow> hm_get (events_reg_read (wk_poll w)) UNIX_STREAM_TOKEN = Some UnixStreamRead
      | Some ReadableWritable \<Rightarrow>
          hm_get (events_reg_read (wk_poll w)) UNIX_STREAM_TOKEN = Some UnixStreamRead \<and>
          hm_get (events_reg_write (wk_poll w)) UNIX_STREAM_TOKEN = Some UnixStreamWrite
      | _ \<Rightarrow> False)"

definition worker_inv :: "config \<Rightarrow> worker \<Rightarrow> bool" where
  "worker_inv cfg w \<longleftrightarrow> mid cfg [] [] [] w \<and> wk_results w = [] \<and> wk_timeouts w = [] \<and> unix_at w"

text \<open>The server's tokens are new, and mio reports what is registered, once per source.\<close>

definition fresh_streams :: "worker \<Rightarrow> bool" where
  "fresh_streams w \<longleftrightarrow>
     (let tks = map fst (snd (drain_streams (wk_buf w)))
      in distinct tks \<and> set tks \<inter> (live w \<union> asked (wk_threads w)) = {})"

definition mio_one :: "worker \<Rightarrow> mio_event \<Rightarrow> bool" where
  "mio_one w m \<longleftrightarrow>
     (me_readable m \<longrightarrow> hm_get (poll_reg (wk_poll w)) (me_token m) \<in> {Some Readable, Some ReadableWritable}) \<and>
     (me_writable m \<longrightarrow> hm_get (poll_reg (wk_poll w)) (me_token m) \<in> {Some Writable, Some ReadableWritable})"

definition mio_ok :: "worker_input \<Rightarrow> worker \<Rightarrow> bool" where
  "mio_ok i w \<longleftrightarrow> distinct (map me_token (wi_mio i)) \<and> list_all (mio_one w) (wi_mio i)"

lemma mio_ok_one: "mio_ok i w \<Longrightarrow> m \<in> set (wi_mio i) \<Longrightarrow> mio_one w m"
  by (auto simp: mio_ok_def list_all_iff)

definition turn_ok :: "codec \<Rightarrow> config \<Rightarrow> worker_input \<Rightarrow> worker \<Rightarrow> bool" where
  "turn_ok cd cfg i w \<longleftrightarrow>
     regs_ok i \<and> times_ok cfg i \<and> fresh_streams w \<and> mio_ok i w \<and> reads_ok i w \<and>
     answers_ok (wi_resps i) (wk_threads w) \<and> bytes_ok cd i (wk_buf w)"

lemma drain_streams_frame:
  "hm_keys (server_fds (fst (drain_streams b))) = hm_keys (server_fds b) \<union> set (map fst (snd (drain_streams b))) \<and>
   wb_inv (fst (drain_streams b)) = wb_inv b \<and> wb_space (fst (drain_streams b)) = wb_space b \<and>
   wb_unread (fst (drain_streams b)) = wb_unread b"
proof (induction b rule: drain_streams.induct)
  case (1 b)
  show ?case
  proof (cases "snd (next_stream_fd b)")
    case None
    then obtain b' where n: "next_stream_fd b = (b', None)" by (cases "next_stream_fd b") simp
    then have "b = b'" by (auto simp: next_stream_fd_def split: list.splits)
    moreover have "drain_streams b = (b', [])" by (subst drain_streams.simps) (simp add: n)
    ultimately show ?thesis by simp
  next
    case (Some x)
    then obtain b' where n: "next_stream_fd b = (b', Some x)" by (cases "next_stream_fd b") simp
    then have b': "hm_keys (server_fds b') = insert (fst x) (hm_keys (server_fds b))" "wb_inv b' = wb_inv b"
      "wb_space b' = wb_space b" "wb_unread b' = wb_unread b"
      by (auto simp: next_stream_fd_def wb_inv_def wb_space_def wb_unread_def split: list.splits)
    have "drain_streams b = (fst (drain_streams b'), x # snd (drain_streams b'))"
      by (subst drain_streams.simps) (simp add: n split_beta)
    with "1.IH" [OF n [symmetric] refl] b' show ?thesis by auto
  qed
qed

lemma fold_use_up_idle:
  "\<forall>m \<in> set ms. me_token m = tk \<longrightarrow> \<not> me_readable m \<and> \<not> me_writable m \<Longrightarrow>
   hm_get (events_reg_read (fold use_up ms p)) tk = hm_get (events_reg_read p) tk \<and>
   hm_get (events_reg_write (fold use_up ms p)) tk = hm_get (events_reg_write p) tk"
  by (induction ms arbitrary: p) (auto simp: use_up_def)

text \<open>What fires, given what is registered.\<close>

lemma fired_unix:
  assumes "unix_at w" and "me_token m = UNIX_STREAM_TOKEN"
    and "mio_one w m"
  shows "fired (wk_poll w) m =
     (if me_readable m then [(UNIX_STREAM_TOKEN, UnixStreamRead)] else [])
     @ (if me_writable m then [(UNIX_STREAM_TOKEN, UnixStreamWrite)] else [])"
  using assms by (auto simp: fired_def unix_at_def mio_one_def split: option.splits mio_interest.splits)

lemma fired_stream:
  assumes "poll_at w (me_token m)"
    and "mio_one w m"
  shows "\<not> me_readable m \<and> \<not> me_writable m \<and> fired (wk_poll w) m = [] \<or>
     fired (wk_poll w) m = [(me_token m, ServerStreamRead)] \<and> me_token m \<in> hm_keys (wk_reading w) \<or>
     fired (wk_poll w) m = [(me_token m, ServerStreamWrite)] \<and> me_token m \<in> hm_keys (wk_writing w) \<or>
     fired (wk_poll w) m = [(me_token m, CasketResponseWrite)] \<and> me_token m \<in> hm_keys (wk_casket w)"
  using assms by (auto simp: fired_def poll_at_def mio_one_def split: option.splits mio_interest.splits)

text \<open>The three shapes of what a source fires, as one predicate.\<close>

definition fires_ok :: "worker \<Rightarrow> mio_event \<Rightarrow> bool" where
  "fires_ok w m \<longleftrightarrow>
     (me_token m = UNIX_STREAM_TOKEN \<and> fired (wk_poll w) m =
        (if me_readable m then [(UNIX_STREAM_TOKEN, UnixStreamRead)] else [])
        @ (if me_writable m then [(UNIX_STREAM_TOKEN, UnixStreamWrite)] else [])) \<or>
     (me_token m \<noteq> UNIX_STREAM_TOKEN \<and>
       (\<not> me_readable m \<and> \<not> me_writable m \<and> fired (wk_poll w) m = [] \<or>
        fired (wk_poll w) m = [(me_token m, ServerStreamRead)] \<and> me_token m \<in> hm_keys (wk_reading w) \<or>
        fired (wk_poll w) m = [(me_token m, ServerStreamWrite)] \<and> me_token m \<in> hm_keys (wk_writing w) \<or>
        fired (wk_poll w) m = [(me_token m, CasketResponseWrite)] \<and> me_token m \<in> hm_keys (wk_casket w)))"

lemma polled_at: "polled [] [] [] w \<Longrightarrow> tk \<noteq> UNIX_STREAM_TOKEN \<Longrightarrow> poll_at w tk"
  by (simp add: polled_def)

lemma mio_fires:
  assumes "worker_inv cfg w" and "mio_ok i w" and "m \<in> set (wi_mio i)"
  shows "fires_ok w m"
proof (cases "me_token m = UNIX_STREAM_TOKEN")
  case True
  with assms(1) fired_unix [of w m, OF _ True mio_ok_one [OF assms(2,3)]] show ?thesis
    by (simp add: fires_ok_def worker_inv_def)
next
  case False
  have "poll_at w (me_token m)"
    using assms(1) False by (auto simp: worker_inv_def mid_def intro: polled_at)
  from fired_stream [OF this mio_ok_one [OF assms(2,3)]] False show ?thesis by (simp add: fires_ok_def)
qed

lemma mio_expected_ok:
  assumes "worker_inv cfg w" and "mio_ok i w"
  shows "mio_expected (wk_poll w) (wi_mio i)"
proof -
  have "(me_readable m \<longrightarrow> hm_get (events_reg_read (wk_poll w)) (me_token m) \<noteq> None) \<and>
      (me_writable m \<longrightarrow> hm_get (events_reg_write (wk_poll w)) (me_token m) \<noteq> None)"
    if "m \<in> set (wi_mio i)" for m
  proof (cases "me_token m = UNIX_STREAM_TOKEN")
    case True
    with assms(1) mio_ok_one [OF assms(2) that] show ?thesis
      by (auto simp: worker_inv_def mio_one_def unix_at_def split: option.splits mio_interest.splits)
  next
    case False
    then have "poll_at w (me_token m)" using assms(1) by (auto simp: worker_inv_def mid_def intro: polled_at)
    with mio_ok_one [OF assms(2) that] show ?thesis
      by (auto simp: mio_one_def poll_at_def split: option.splits mio_interest.splits)
  qed
  then show ?thesis using assms(2) by (simp add: mio_expected_def mio_ok_def)
qed

lemma moving_fired:
  assumes "\<forall>m \<in> set ms. fires_ok w m" and "distinct (map me_token ms)"
  shows "distinct (moving (concat (map (fired (wk_poll w)) ms))) \<and>
    set (moving (concat (map (fired (wk_poll w)) ms))) \<subseteq> me_token ` set ms \<and>
    length (filter (\<lambda>x. snd x = UnixStreamRead) (concat (map (fired (wk_poll w)) ms)))
      \<le> (if UNIX_STREAM_TOKEN \<in> me_token ` set ms then 1 else 0)"
  using assms
proof (induction ms)
  case (Cons m ms)
  have f: "fires_ok w m" using Cons.prems by simp
  then have mv: "moving (fired (wk_poll w) m) = [] \<or> moving (fired (wk_poll w) m) = [me_token m]"
    by (auto simp: fires_ok_def)
  have "length (filter (\<lambda>x. snd x = UnixStreamRead) (fired (wk_poll w) m)) \<le>
        (if me_token m = UNIX_STREAM_TOKEN then 1 else 0)" using f by (auto simp: fires_ok_def)
  moreover have "distinct (map me_token ms)" "me_token m \<notin> me_token ` set ms" using Cons.prems(2) by simp_all
  ultimately show ?case using Cons.IH Cons.prems(1) mv by (cases "me_token m = UNIX_STREAM_TOKEN") auto
qed simp

section \<open>The start of a turn\<close>

text \<open>What \<open>tick\<close> adds: timers, an interruption, and what the sources fire.\<close>

definition tick_events :: "worker_input \<Rightarrow> worker \<Rightarrow> timer_entry list \<Rightarrow> (token \<times> event) list" where
  "tick_events i w due =
     map (\<lambda>e. (te_token e, te_event e)) due
     @ (if wi_poll_err i = None then [] else [(Token 0, CtrlC)])
     @ concat (map (fired (wk_poll w)) (wi_mio i))"

lemma own_events_toks:
  "news (own_events w) = map fst (snd (drain_streams (wk_buf w)))" (is ?n)
  "moving (own_events w) = []"
  "length (filter (\<lambda>x. snd x = PollPythonResponses) (own_events w)) \<le> 1"
  "length (filter (\<lambda>x. snd x = UnixStreamRead) (own_events w)) = 0"
proof -
  let ?l = "snd (drain_streams (wk_buf w))"
  have "news (map (\<lambda>(tk, fd). (tk, NewStreamFd fd)) l) = map fst l"
    "moving (map (\<lambda>(tk, fd). (tk, NewStreamFd fd)) l) = []"
    "filter (\<lambda>x. snd x = PollPythonResponses) (map (\<lambda>(tk, fd). (tk, NewStreamFd fd)) l) = []"
    "filter (\<lambda>x. snd x = UnixStreamRead) (map (\<lambda>(tk, fd). (tk, NewStreamFd fd)) l) = []"
    for l :: "(token \<times> raw_fd) list"
    by (induction l) (auto simp: split_beta)
  then show ?n "moving (own_events w) = []"
    "length (filter (\<lambda>x. snd x = PollPythonResponses) (own_events w)) \<le> 1"
    "length (filter (\<lambda>x. snd x = UnixStreamRead) (own_events w)) = 0"
    by (simp_all add: own_events_def)
qed

lemma tick_events_toks:
  assumes inv: "worker_inv cfg w" and mio: "mio_ok i w" and due: "\<forall>e \<in> set due. timer_ok e"
  shows "news (tick_events i w due) = []"
    and "distinct (moving (tick_events i w due))" "set (moving (tick_events i w due)) \<subseteq> me_token ` set (wi_mio i)"
    and "filter (\<lambda>x. snd x = PollPythonResponses) (tick_events i w due) = []"
    and "length (filter (\<lambda>x. snd x = UnixStreamRead) (tick_events i w due)) \<le> 1"
proof -
  have f: "\<forall>m \<in> set (wi_mio i). fires_ok w m" using mio_fires [OF inv mio] by blast
  have d: "distinct (map me_token (wi_mio i))" using mio by (simp add: mio_ok_def)
  note mv = moving_fired [OF f d]
  have t: "news (map (\<lambda>e. (te_token e, te_event e)) due) = []" "moving (map (\<lambda>e. (te_token e, te_event e)) due) = []"
    "filter (\<lambda>x. snd x = PollPythonResponses) (map (\<lambda>e. (te_token e, te_event e)) due) = []"
    "filter (\<lambda>x. snd x = UnixStreamRead) (map (\<lambda>e. (te_token e, te_event e)) due) = []"
    using due by (induction due) (auto simp: timer_ok_def)
  have n: "news (concat (map (fired (wk_poll w)) ms)) = []"
    "filter (\<lambda>x. snd x = PollPythonResponses) (concat (map (fired (wk_poll w)) ms)) = []"
    if "\<forall>m \<in> set ms. fires_ok w m" for ms
    using that by (induction ms) (auto simp: fires_ok_def)
  show "news (tick_events i w due) = []"
    and "distinct (moving (tick_events i w due))" "set (moving (tick_events i w due)) \<subseteq> me_token ` set (wi_mio i)"
    and "filter (\<lambda>x. snd x = PollPythonResponses) (tick_events i w due) = []"
    and "length (filter (\<lambda>x. snd x = UnixStreamRead) (tick_events i w due)) \<le> 1"
    using t n [OF f] mv by (simp_all add: tick_events_def split: if_splits)
qed

lemma tick_events_mem:
  assumes inv: "worker_inv cfg w" and mio: "mio_ok i w" and due: "\<forall>e \<in> set due. timer_ok e"
    and "(tk, ev) \<in> set (tick_events i w due)"
  shows "(ev = ServerStreamRead \<longrightarrow> tk \<in> hm_keys (wk_reading w)) \<and>
    (ev = ServerStreamWrite \<longrightarrow> tk \<in> hm_keys (wk_writing w)) \<and>
    (ev = CasketResponseWrite \<longrightarrow> tk \<in> hm_keys (wk_casket w))"
proof -
  from assms(4) consider e where "e \<in> set due" "ev = te_event e" | "ev = CtrlC"
    | m where "m \<in> set (wi_mio i)" "(tk, ev) \<in> set (fired (wk_poll w) m)"
    by (auto simp: tick_events_def split: if_splits)
  then show ?thesis
  proof cases
    case 1
    with due have "timer_ok e" by simp
    with 1 show ?thesis by (auto simp: timer_ok_def)
  next
    case 3
    with mio_fires [OF inv mio 3(1)] show ?thesis by (auto simp: fires_ok_def split: if_splits)
  qed simp
qed

lemma tick_returns:
  assumes "mio_expected p ms" and "pop_expired now (timerq p) = (due, q)"
  shows "tick now err ms evs p =
    (case err of
       None \<Rightarrow> Ret (fold use_up ms (p\<lparr>timerq := q\<rparr>),
          evs @ map (\<lambda>e. (te_token e, te_event e)) due @ concat (map (fired p) ms), Ok ())
     | Some e \<Rightarrow>
         if io_kind e = Interrupted
         then Ret (fold use_up ms (p\<lparr>timerq := q\<rparr>),
           evs @ map (\<lambda>e. (te_token e, te_event e)) due @ (Token 0, CtrlC) # concat (map (fired p) ms), Ok ())
         else Ret (p\<lparr>timerq := q\<rparr>, evs @ map (\<lambda>e. (te_token e, te_event e)) due,
           Err (fatal_io_error ''worker failed to poll'' e)))"
proof -
  have e: "mio_expected (p\<lparr>timerq := q\<rparr>) ms" using assms(1) by (simp add: mio_expected_def)
  have f: "fired (p\<lparr>timerq := q\<rparr>) = fired p" by (simp add: fired_def fun_eq_iff)
  show ?thesis
    using take_mio_events_eq [OF e] assms(2) f by (simp add: tick_def Let_def split: option.split)
qed

text \<open>The state the events are handled in.\<close>

lemma polled_tick:
  assumes inv: "worker_inv cfg w" and mio: "mio_ok i w" and fresh: "fresh_streams w"
    and due: "\<forall>e \<in> set due. timer_ok e"
  shows "polled (news (own_events w)) (moving (tick_events i w due)) []
     (w\<lparr>wk_buf := b, wk_poll := fold use_up (wi_mio i) ((wk_poll w)\<lparr>timerq := q\<rparr>)\<rparr>)"
proof -
  let ?u = "w\<lparr>wk_buf := b, wk_poll := fold use_up (wi_mio i) ((wk_poll w)\<lparr>timerq := q\<rparr>)\<rparr>"
  have P: "polled [] [] [] w" and L: "ledger [] [] w" using inv by (simp_all add: worker_inv_def mid_def)
  have "poll_at ?u tk" if tk: "tk \<notin> set (moving (tick_events i w due))" "tk \<noteq> UNIX_STREAM_TOKEN" for tk
  proof -
    have "\<not> me_readable m \<and> \<not> me_writable m" if m: "m \<in> set (wi_mio i)" "me_token m = tk" for m
    proof (rule ccontr)
      assume "\<not> (\<not> me_readable m \<and> \<not> me_writable m)"
      with mio_fires [OF inv mio m(1)] tk(2) m(2)
      have "tk \<in> set (moving (fired (wk_poll w) m))" by (auto simp: fires_ok_def)
      with m(1) have "tk \<in> set (moving (tick_events i w due))"
        by (auto simp: tick_events_def moving_def)
      with tk(1) show False by simp
    qed
    then have "hm_get (events_reg_read (wk_poll ?u)) tk = hm_get (events_reg_read (wk_poll w)) tk \<and>
        hm_get (events_reg_write (wk_poll ?u)) tk = hm_get (events_reg_write (wk_poll w)) tk"
      using fold_use_up_idle [of "wi_mio i" tk "(wk_poll w)\<lparr>timerq := q\<rparr>"] by simp
    then have "poll_at ?u tk = poll_at w tk" by (intro poll_at_cong) simp_all
    with polled_at [OF P tk(2)] show ?thesis by simp
  qed
  moreover have "hm_get (poll_reg (wk_poll w)) tk = None"
    if "tk \<in> set (news (own_events w))" "tk \<noteq> UNIX_STREAM_TOKEN" for tk
  proof -
    have "tk \<notin> live w" using fresh that(1) by (auto simp: fresh_streams_def own_events_toks Let_def)
    then have "tk \<notin># holders w" using L by (simp add: ledger_def)
    with polled_at [OF P that(2)] show ?thesis
      by (auto simp: poll_at_def split: option.splits mio_interest.splits)
  qed
  ultimately show ?thesis by (simp add: polled_def)
qed

lemma start_during:
  assumes inv: "worker_inv cfg w" and ok: "turn_ok cd cfg i w"
    and pe: "pop_expired (wi_now i) (timerq (wk_poll w)) = (due, q)"
  shows "during cd cfg i (own_events w @ tick_events i w due)
     (w\<lparr>wk_buf := fst (drain_streams (wk_buf w)),
        wk_poll := fold use_up (wi_mio i) ((wk_poll w)\<lparr>timerq := q\<rparr>)\<rparr>)" (is "during _ _ _ _ ?u")
proof -
  have m: "mid cfg [] [] [] w" and res: "wk_results w = []" using inv by (simp_all add: worker_inv_def)
  have mio: "mio_ok i w" and fresh: "fresh_streams w" using ok by (simp_all add: turn_ok_def)
  have to: "timers_ok (wk_poll w)" using mid_timers [OF m] .
  then have ps: "mset due = filter_mset (\<lambda>e. te_timeout e \<le> wi_now i) (mset (timerq (wk_poll w)))"
    "mset q = filter_mset (\<lambda>e. \<not> te_timeout e \<le> wi_now i) (mset (timerq (wk_poll w)))" "timer_inv q"
    using pop_expired_spec [OF _ pe] by (simp_all add: timers_ok_def)
  have "set_mset (mset due) \<subseteq> set (timerq (wk_poll w))" "set_mset (mset q) \<subseteq> set (timerq (wk_poll w))"
    unfolding ps(1,2) by auto
  with to ps(3) have due: "\<forall>e \<in> set due. timer_ok e" and tq: "timers_ok (wk_poll ?u)"
    by (auto simp: timers_ok_def)
  let ?tks = "map fst (snd (drain_streams (wk_buf w)))"
  note df = drain_streams_frame [of "wk_buf w"]
  note own = own_events_toks [of w]
  note tt = tick_events_toks [OF inv mio due]
  have fr: "distinct ?tks" "set ?tks \<inter> live w = {}" "set ?tks \<inter> asked (wk_threads w) = {}"
    using fresh by (auto simp: fresh_streams_def Let_def)
  have "mset_set (live w \<union> set ?tks) = mset_set (live w) + mset_set (set ?tks)"
    using fr(2) by (intro mset_set_Union) auto
  moreover have "mset ?tks = mset_set (set ?tks)" using fr(1) by (simp only: mset_set_set)
  moreover have "holders w = mset_set (live w)" using m by (simp add: mid_def ledger_def)
  moreover have "holders ?u = holders w" "live ?u = live w \<union> set ?tks"
    using df by (simp_all add: holders_def live_def)
  ultimately have "ledger ?tks [] ?u" unfolding ledger_def by (simp only: toks_simps mset.simps) (simp only: ac_simps add_0)
  moreover have "answers_due [] ?u" using m by (simp add: mid_def answers_due_def)
  moreover have "not_asked ?tks [] ?u" using m fr(3) by (auto simp: mid_def not_asked_def)
  moreover have "polled ?tks (moving (tick_events i w due)) [] ?u"
    using polled_tick [OF inv mio fresh due] own(1) by simp
  moreover have "healthy cfg [] ?u" using m df tq by (simp add: mid_def healthy_def readers_ok_def)
  ultimately have "mid cfg ?tks (moving (tick_events i w due)) [] ?u" by (simp add: mid_def)
  then have M: "mid cfg (news (own_events w @ tick_events i w due)) (moving (own_events w @ tick_events i w due))
      (wk_results ?u) ?u"
    using own tt(1) res by simp
  have no: "(tk, ServerStreamRead) \<notin> set (own_events w)" "(tk, ServerStreamWrite) \<notin> set (own_events w)"
    "(tk, CasketResponseWrite) \<notin> set (own_events w)" for tk
    by (auto simp: own_events_def)
  have "reads_ok i ?u" "bytes_ok cd i (wk_buf ?u)"
    using ok df by (simp_all add: turn_ok_def reads_ok_def bytes_ok_def)
  then have "events_ok cd i (own_events w @ tick_events i w due) ?u"
    using own tt no tick_events_mem [OF inv mio due] ok by (simp add: events_ok_def turn_ok_def)
  with M show ?thesis by (simp add: during_def)
qed

section \<open>The whole turn\<close>

lemma drain_results_mid:
  assumes cd: "codec_ok cd" and i: "regs_ok i" and t: "times_ok cfg i"
    and m: "mid cfg [] [] (wk_results w) w"
  shows "\<exists>w'. drain_results cd cfg i w = Ret w' \<and> mid cfg [] [] [] w' \<and> wk_results w' = [] \<and>
    wk_timeouts w' = wk_timeouts w"
proof -
  have "mid cfg [] [] (wk_results w) (w\<lparr>wk_results := []\<rparr>)" using m by simp
  from handle_results_mid [OF cd i t this] show ?thesis
    by (auto simp: drain_results_def locals_eq_def)
qed

lemma turn_fold_timeouts: "turn_fold (handle_timeout i) ts w = Ret (Next w') \<Longrightarrow> wk_timeouts w' = wk_timeouts w"
proof (induction ts arbitrary: w)
  case (Cons x ts)
  obtain tk k where x: "x = (tk, k)" by (cases x)
  from Cons.prems obtain u where u: "handle_timeout i x w = Ret (Next u)" "turn_fold (handle_timeout i) ts u = Ret (Next w')"
    by (auto simp: turn_bind_Ret)
  have "wk_timeouts u = wk_timeouts w"
    using u(1) x by (cases k) (auto simp: push_action_def Let_def split: option.splits prod.splits result.splits)
  with Cons.IH [OF u(2)] show ?case by simp
qed simp

lemma mid_set_poll:
  assumes "mid cfg n m rs w" and "polled n m rs (w\<lparr>wk_poll := p\<rparr>)" and "timers_ok p"
  shows "mid cfg n m rs (w\<lparr>wk_poll := p\<rparr>)"
proof -
  have "ledger n rs (w\<lparr>wk_poll := p\<rparr>) = ledger n rs w" by (simp add: ledger_def holders_def live_def)
  with assms show ?thesis by (simp add: mid_def answers_due_def not_asked_def healthy_def readers_ok_def)
qed

lemma rearm_inv:
  assumes m: "mid cfg [] [] [] w" and r: "wk_results w = []" "wk_timeouts w = []"
  shows "\<exists>t. rearm_unix i w = Ret t \<and> (\<forall>w'. t = Next w' \<longrightarrow> worker_inv cfg w')"
proof (cases "wi_reg i UNIX_STREAM_TOKEN OpReregister")
  case (Some e)
  then show ?thesis
    by (simp add: rearm_unix_def Let_def reregister_rw_def reregister_read_def reg_result_def
        leave_on_err_def fatal_result_def)
next
  case None
  let ?p = "if wb_has_data_to_send (wk_buf w)
    then fst (reregister_rw None UNIX_STREAM_TOKEN UnixStreamRead UnixStreamWrite (wk_poll w))
    else fst (reregister_read None UNIX_STREAM_TOKEN UnixStreamRead (wk_poll w))"
  let ?u = "w\<lparr>wk_poll := ?p\<rparr>"
  have "rearm_unix i w = Ret (Next ?u)"
    using None by (simp add: rearm_unix_def Let_def reregister_rw_def reregister_read_def reg_result_def
        leave_on_err_def fatal_result_def)
  moreover have "poll_at ?u x = poll_at w x" if "x \<noteq> UNIX_STREAM_TOKEN" for x
    using that by (intro poll_at_cong) (simp_all add: reregister_rw_def reregister_read_def set_reg_def)
  then have "polled [] [] [] ?u" using m by (simp add: mid_def polled_def)
  then have "mid cfg [] [] [] ?u"
    using mid_timers [OF m]
    by (intro mid_set_poll [OF m]) (simp_all add: reregister_rw_def reregister_read_def set_reg_def)
  moreover have "unix_at ?u"
    by (simp add: unix_at_def reregister_rw_def reregister_read_def set_reg_def)
  ultimately show ?thesis using r by (simp add: worker_inv_def)
qed

lemma batch_inv:
  assumes cd: "codec_ok cd" and i: "regs_ok i" and t: "times_ok cfg i" and d: "during cd cfg i evs w"
  shows "\<exists>t. handle_batch cd cfg i evs w = Ret t \<and> (\<forall>w'. t = Next w' \<longrightarrow> worker_inv cfg w')"
proof -
  from events_during [OF t d] obtain t1 where
    t1: "turn_fold (handle_worker_event cd cfg i) evs w = Ret t1" "\<forall>u. t1 = Next u \<longrightarrow> during cd cfg i [] u"
    by (auto simp: returns_def)
  show ?thesis
  proof (cases t1)
    case (Leave u r)
    with t1 show ?thesis by (simp add: handle_batch_def)
  next
    case (Next w1)
    with t1 have "mid cfg [] [] (wk_results w1) w1" by (simp add: during_def)
    from drain_results_mid [OF cd i t this] obtain w2 where
      w2: "drain_results cd cfg i w1 = Ret w2" "mid cfg [] [] [] w2" "wk_results w2 = []" by blast
    have "canned_only cfg (w2\<lparr>wk_timeouts := []\<rparr>)" using w2 by (simp add: canned_only_def)
    from timeouts_step [OF i this, of "wk_timeouts w2"] obtain w3 where
      f3: "turn_fold (handle_timeout i) (wk_timeouts w2) (w2\<lparr>wk_timeouts := []\<rparr>) = Ret (Next w3)" and
      c3: "canned_only cfg w3" by blast
    have w3: "drain_timeouts i w2 = Ret (Next w3)" "canned_only cfg w3" "wk_timeouts w3 = []"
      using f3 c3 turn_fold_timeouts [OF f3] by (simp_all add: drain_timeouts_def)
    have "mid cfg [] [] (wk_results w3) w3" using w3(2) by (simp add: canned_only_def)
    from drain_results_mid [OF cd i t this] w3(3) obtain w4 where
      w4: "drain_results cd cfg i w3 = Ret w4" "mid cfg [] [] [] w4" "wk_results w4 = []" "wk_timeouts w4 = []" by auto
    have "handle_batch cd cfg i evs w = rearm_unix i w4"
      using t1(1) Next w2(1) w3(1) w4(1) by (simp add: handle_batch_def finish_def)
    with rearm_inv [OF w4(2-4)] show ?thesis by simp
  qed
qed

lemma worker_turn_inv:
  assumes cd: "codec_ok cd" and inv: "worker_inv cfg w" and ok: "turn_ok cd cfg i w"
  shows "\<exists>t. worker_turn cd cfg i w = Ret t \<and> (\<forall>w'. t = Next w' \<longrightarrow> worker_inv cfg w')"
proof (cases "may_close w")
  case True
  then show ?thesis by (simp add: worker_turn_def)
next
  case False
  have i: "regs_ok i" and t: "times_ok cfg i" and mio: "mio_ok i w" using ok by (simp_all add: turn_ok_def)
  obtain due q where pe: "pop_expired (wi_now i) (timerq (wk_poll w)) = (due, q)"
    by (cases "pop_expired (wi_now i) (timerq (wk_poll w))")
  note tick = tick_returns [OF mio_expected_ok [OF inv mio] pe, of "wi_poll_err i" "own_events w"]
  let ?u = "w\<lparr>wk_buf := fst (drain_streams (wk_buf w)),
        wk_poll := fold use_up (wi_mio i) ((wk_poll w)\<lparr>timerq := q\<rparr>)\<rparr>"
  have "(\<exists>e r. poll_events i w = Ret (e, Leave r (Err (fatal_io_error ''worker failed to poll'' (the (wi_poll_err i)))))) \<or>
      poll_events i w = Ret (own_events w @ tick_events i w due, Next ?u)"
    using tick by (cases "wi_poll_err i") (auto simp: poll_events_def Let_def tick_events_def split: if_splits)
  then show ?thesis
  proof
    assume "\<exists>e r. poll_events i w = Ret (e, Leave r (Err (fatal_io_error ''worker failed to poll'' (the (wi_poll_err i)))))"
    with False show ?thesis by (auto simp: worker_turn_def)
  next
    assume "poll_events i w = Ret (own_events w @ tick_events i w due, Next ?u)"
    with False batch_inv [OF cd i t start_during [OF inv ok pe]] show ?thesis
      by (simp add: worker_turn_def)
  qed
qed

text \<open>Turns as a step relation.\<close>

definition worker_step :: "codec \<Rightarrow> config \<Rightarrow> worker_input \<Rightarrow> worker \<Rightarrow> worker \<Rightarrow> bool" where
  "worker_step cd cfg i w w' \<longleftrightarrow> codec_ok cd \<and> turn_ok cd cfg i w \<and> worker_turn cd cfg i w = Ret (Next w')"

interpretation wkr: step_invariant "worker_step cd cfg" "worker_inv cfg" for cd cfg
proof unfold_locales
  fix i w w'
  assume "worker_step cd cfg i w w'" "worker_inv cfg w"
  then show "worker_inv cfg w'"
    using worker_turn_inv [of cd cfg w i] by (auto simp: worker_step_def)
qed

lemma worker_start_inv:
  assumes "sender_inv sq"
  shows "worker_inv cfg (worker_start sq)"
proof -
  have p: "hm_get (poll_reg (wk_poll (worker_start sq))) tk = (if tk = UNIX_STREAM_TOKEN then Some Readable else None)" for tk
    by (simp add: worker_start_def register_read_def set_reg_def poller_new_def)
  have "polled [] [] [] (worker_start sq)" using p by (simp add: polled_def poll_at_None)
  moreover have "unix_at (worker_start sq)"
    by (simp add: unix_at_def p) (simp add: worker_start_def register_read_def set_reg_def poller_new_def)
  ultimately show ?thesis
    using assms by (simp add: worker_inv_def books_ok_def mid_def ledger_def holders_def live_def answers_due_def not_asked_def
        healthy_def readers_ok_def timers_ok_def timer_inv_def threads_inv_def awaited_def asked_def
        worker_start_def python_threads_new_def worker_buf_new_def register_read_def set_reg_def poller_new_def wb_inv_def)
qed

end
