(* ===== verification/WorkerClaims.thy ===== *)
theory WorkerClaims
  imports WorkerProps
begin

text \<open>
  The properties of a worker, read off the invariant of \<open>WorkerProps\<close>: it does not panic and
  loses no connection; which requests are refused, timed out and answered; when it ends; and
  what happens to the descriptors it was given.
\<close>

section \<open>Runs\<close>

text \<open>A worker never panics, whatever it has done before: no \<open>expect\<close> on its tables, on a
  registered event or on the server's descriptor fails and its counter does not underflow, as
  long as the server's tokens are new, the threads answer only what they were given, mio
  reports what is registered, changing a registration works, and no request announces a body
  beyond \<open>isize::MAX\<close>.\<close>

theorem worker_never_panics:
  assumes "sender_inv sq" and "run (worker_step cd cfg) (worker_start sq) is w"
    and "codec_ok cd" and "turn_ok cd cfg i w"
  shows "no_panic (worker_turn cd cfg i w)"
  using worker_turn_inv [OF assms(3) wkr.run_inv [OF assms(2) worker_start_inv [OF assms(1)]] assms(4)]
  by (auto simp: no_panic_iff)

text \<open>Between turns every connection the worker has taken and not yet given back is in
  exactly one of its four tables, and no other connection is in any; so each is given back
  once.\<close>

theorem connections_in_one_table:
  assumes "sender_inv sq" and "run (worker_step cd cfg) (worker_start sq) is w"
  shows "keysm (wk_reading w) + keysm (wk_pending w) + keysm (wk_writing w) + keysm (wk_casket w)
     = mset_set (hm_keys (server_fds (wk_buf w)))"
proof -
  have "worker_inv cfg w" using wkr.run_inv [OF assms(2) worker_start_inv [OF assms(1)]] .
  then show ?thesis by (simp add: worker_inv_def mid_def ledger_def holders_def live_def)
qed

text \<open>C10: between turns the connections waiting for a response are exactly those whose request
  is queued for or with a Python thread and has not timed out, and the worker's count of
  pending requests is the number of requests the threads still owe.\<close>

theorem pending_are_awaited:
  assumes "sender_inv sq" and "run (worker_step cd cfg) (worker_start sq) is w"
  shows "hm_wf (wk_pending w) \<and> hm_keys (wk_pending w) = awaited (wk_threads w) \<and>
     num_pending_reqs (wk_threads w) = length (pt_inflight (wk_threads w)) \<and>
     distinct (map fst (queued_reqs (wk_threads w)) @ pt_inflight (wk_threads w))"
proof -
  have inv: "worker_inv cfg w" using wkr.run_inv [OF assms(2) worker_start_inv [OF assms(1)]] .
  then have L: "ledger [] [] w" and k: "keysm (wk_pending w) = mset_set (awaited (wk_threads w))"
    and t: "threads_inv (wk_threads w)"
    by (simp_all add: worker_inv_def mid_def answers_due_def healthy_def)
  have "hm_keys (wk_pending w) = awaited (wk_threads w)"
    using k set_keysm [of "wk_pending w"] finite_awaited [of "wk_threads w"] by (metis finite_set_mset_mset_set)
  with ledger_wf(2) [OF L] t show ?thesis by (simp add: threads_inv_def)
qed

section \<open>Refusals\<close>

text \<open>A batch of new connections is refused with 503 or taken as a whole: the limit is
  compared with the requests already handed to the threads, so with one slot left any number
  of connections arriving together is taken, whatever is being read or queued.\<close>

theorem busy_check_is_per_batch:
  "turn_fold (handle_worker_event cd cfg i) (map (\<lambda>(tk, fd). (tk, NewStreamFd fd)) xs) w =
     Ret (Next (w\<lparr>wk_results := wk_results w @ map (\<lambda>(tk, fd).
       Ok (if max_requests cfg \<le> num_pending_reqs (wk_threads w)
           then new_503_service_busy tk fd else NewServerRequest tk fd)) xs\<rparr>))"
proof (induction xs arbitrary: w)
  case Nil
  then show ?case by simp
next
  case (Cons x xs)
  obtain tk fd where "x = (tk, fd)" by (cases x)
  with Cons.IH [of "push_action (Ok (if max_requests cfg \<le> num_pending_reqs (wk_threads w)
      then new_503_service_busy tk fd else NewServerRequest tk fd)) w"]
  show ?case by (simp add: push_action_def)
qed

section \<open>Canned responses\<close>

text \<open>Writing one: each entry of \<open>ns\<close> is what one \<open>write\<close> took.\<close>

fun write_canned :: "nat list \<Rightarrow> token \<Rightarrow> raw_fd \<Rightarrow> casket_response \<Rightarrow> bytes \<times> action_result" where
  "write_canned [] tk fd cr = ([], Ok (ServerCasketResponseContinue tk fd cr))"
| "write_canned (n # ns) tk fd cr =
     (let out = take n (drop (cr_bytes_sent cr) (cr_response cr))
      in case event_casket_response_write (Ok n) tk fd cr of
           Ok (ServerCasketResponseContinue tk fd cr) \<Rightarrow>
             (let (out', r) = write_canned ns tk fd cr in (out @ out', r))
         | r \<Rightarrow> (out, r))"

lemma write_canned_eq:
  assumes "cr_bytes_sent cr + sum_list ns = length (cr_response cr)" and "\<forall>n \<in> set ns. 0 < n" and "ns \<noteq> []"
  shows "write_canned ns tk fd cr =
     (drop (cr_bytes_sent cr) (cr_response cr),
      Ok (ServerCasketResponseDone tk fd (cr\<lparr>cr_bytes_sent := length (cr_response cr)\<rparr>)))"
  using assms
proof (induction ns arbitrary: cr)
  case Nil
  then show ?case by simp
next
  case (Cons n ns)
  show ?case
  proof (cases "ns = []")
    case True
    with Cons.prems show ?thesis by (simp add: event_casket_response_write_def Let_def)
  next
    case False
    then obtain m ms where ns: "ns = m # ms" by (cases ns) auto
    let ?cr = "cr\<lparr>cr_bytes_sent := cr_bytes_sent cr + n\<rparr>"
    have "write_canned ns tk fd ?cr = (drop (cr_bytes_sent cr + n) (cr_response cr),
        Ok (ServerCasketResponseDone tk fd (?cr\<lparr>cr_bytes_sent := length (cr_response cr)\<rparr>)))"
      using Cons.IH [of ?cr] Cons.prems False by simp
    moreover have "cr_bytes_sent cr + n \<noteq> length (cr_response cr)" using Cons.prems ns by auto
    moreover have "take n (drop (cr_bytes_sent cr) (cr_response cr)) @ drop (cr_bytes_sent cr + n) (cr_response cr)
        = drop (cr_bytes_sent cr) (cr_response cr)"
      by (metis add.commute append_take_drop_id drop_drop)
    ultimately show ?thesis by (simp add: event_casket_response_write_def Let_def)
  qed
qed

text \<open>However a 408, 503 or 504 response is cut into writes, the client receives exactly
  its status line, \<open>Server\<close> and \<open>Connection: Close\<close>, and the worker is then done with it.\<close>

theorem canned_response_sent:
  assumes "cr \<in> {\<lparr>cr_code = 408, cr_response = HTTP_408_RESPONSE, cr_reason = x, cr_bytes_sent = 0\<rparr>,
      \<lparr>cr_code = 503, cr_response = HTTP_503_RESPONSE, cr_reason = x, cr_bytes_sent = 0\<rparr>,
      \<lparr>cr_code = 504, cr_response = HTTP_504_RESPONSE, cr_reason = x, cr_bytes_sent = 0\<rparr>}"
    and "sum_list ns = length (cr_response cr)" and "\<forall>n \<in> set ns. 0 < n"
  shows "\<exists>out cr'. write_canned ns tk fd cr = (out, Ok (ServerCasketResponseDone tk fd cr')) \<and>
     cr_code cr' = cr_code cr \<and>
     crlf_lines out = [''HTTP/1.1 '' @ (if cr_code cr = 408 then ''408 Request Timeout''
         else if cr_code cr = 503 then ''503 Service Busy'' else ''504 Gateway Timeout''),
       ''Server: Casket'', ''Connection: Close'', [], []]"
proof -
  have "cr_response cr \<noteq> []" using assms(1) by (auto simp: HTTP_408_RESPONSE_def HTTP_503_RESPONSE_def HTTP_504_RESPONSE_def)
  with assms(2) have "ns \<noteq> []" by auto
  moreover have "cr_bytes_sent cr = 0" using assms(1) by auto
  ultimately have "write_canned ns tk fd cr = (cr_response cr,
      Ok (ServerCasketResponseDone tk fd (cr\<lparr>cr_bytes_sent := length (cr_response cr)\<rparr>)))"
    using write_canned_eq [of cr ns tk fd] assms(2,3) by simp
  with assms(1) canned_lines show ?thesis by auto
qed

section \<open>Timeouts\<close>

text \<open>When the code of a pending request times out, its connection leaves the pending table
  with a 504, and whatever the threads answer later, its response is not handed over again.\<close>

theorem timed_out_is_504:
  assumes "worker_inv cfg w" and "hm_get (wk_pending w) tk = Some fd" and "answers_ok rs (wk_threads w)"
  shows "\<exists>w' pt results. handle_timeout i (tk, PythonCode) w = Ret (Next w') \<and>
     wk_results w' = [Ok (new_504_gateway_timeout tk fd)] \<and> tk \<notin> hm_keys (wk_pending w') \<and>
     take_responses [] False rs False (wk_threads w') [] = Ret (pt, results, Ok ()) \<and>
     (\<forall>resp. Ok (ServerNewResponse tk resp) \<notin> set results)"
proof -
  have c: "canned_only cfg w" and r: "wk_results w = []"
    using assms(1) by (simp_all add: worker_inv_def canned_only_def)
  from timeout_code_step [OF c, of i tk] obtain w' where
    w': "handle_timeout i (tk, PythonCode) w = Ret (Next w')" "canned_only cfg w'" by blast
  then have e: "w' = push_action (Ok (new_504_gateway_timeout tk fd))
      (w\<lparr>wk_pending := hm_delete tk (wk_pending w), wk_threads := timeout_request tk (wk_threads w)\<rparr>)"
    using assms(2) by simp
  then have t: "wk_threads w' = timeout_request tk (wk_threads w)" "tk \<notin> hm_keys (wk_pending w')"
    "wk_results w' = [Ok (new_504_gateway_timeout tk fd)]"
    using r by (simp_all add: push_action_def)
  have inv: "threads_inv (wk_threads w')" using w'(2) by (simp add: canned_only_def mid_def healthy_def)
  have late: "tk \<in> set (timed_out_reqs (wk_threads w'))" by (simp add: t timeout_request_def)
  have "answers_ok rs (wk_threads w')" using assms(3) by (simp add: t answers_ok_def timeout_request_def)
  from take_responses_eq [OF inv this, of "[]" False "[]"] obtain pt where
    "take_responses [] False rs False (wk_threads w') [] = Ret (pt,
       map (\<lambda>x. Ok (ServerNewResponse (Token (fst x)) (snd x)))
         (filter (\<lambda>x. Token (fst x) \<notin> set (timed_out_reqs (wk_threads w'))) rs), Ok ())" by auto
  moreover have "Ok (ServerNewResponse tk resp) \<notin> set (map (\<lambda>x. Ok (ServerNewResponse (Token (fst x)) (snd x)) :: action_result)
         (filter (\<lambda>x. Token (fst x) \<notin> set (timed_out_reqs (wk_threads w'))) rs))" for resp
    using late by auto
  ultimately show ?thesis using w'(1) t by blast
qed

section \<open>Leaving the loop\<close>

definition no_ok_leave :: "worker turn exec \<Rightarrow> bool" where
  "no_ok_leave m \<longleftrightarrow> (\<forall>w. m \<noteq> Ret (Leave w (Ok ())))"

lemma no_ok_leave_simps [simp]:
  "no_ok_leave (Panic t)" "no_ok_leave (Ret (Next w))" "no_ok_leave (Ret (Leave w (Err e)))"
  "no_ok_leave (leave_on_err w r)"
  by (auto simp: no_ok_leave_def leave_on_err_def split: result.splits)

lemma no_ok_leave_bind:
  "no_ok_leave m \<Longrightarrow> (\<And>w. no_ok_leave (f w)) \<Longrightarrow> no_ok_leave (turn_bind m f)"
  by (auto simp: no_ok_leave_def turn_bind_Ret)

lemma no_ok_leave_exec: "(\<And>a. no_ok_leave (f a)) \<Longrightarrow> no_ok_leave (exec_bind m f)"
  by (cases m) simp_all

lemma no_ok_leave_fold:
  "(\<And>x w. no_ok_leave (f x w)) \<Longrightarrow> no_ok_leave (turn_fold f xs w)"
  by (induction xs arbitrary: w) (simp_all add: no_ok_leave_bind)

lemma no_ok_leave_event: "no_ok_leave (handle_worker_event cd cfg i x w)"
  by (cases "(cd, cfg, i, x, w)" rule: handle_worker_event.cases)
    (auto simp: Let_def split: prod.split option.split intro!: no_ok_leave_exec)

lemma no_ok_leave_timeout: "no_ok_leave (handle_timeout i x w)"
  by (cases "(i, x, w)" rule: handle_timeout.cases)
    (auto simp: Let_def split: prod.split option.split result.split)

lemma no_ok_leave_batch: "no_ok_leave (handle_batch cd cfg i evs w)"
  unfolding handle_batch_def
  by (intro no_ok_leave_bind no_ok_leave_fold no_ok_leave_event)
    (auto simp: finish_def drain_timeouts_def rearm_unix_def Let_def split_beta
      intro!: no_ok_leave_bind no_ok_leave_fold no_ok_leave_timeout no_ok_leave_exec)

text \<open>A worker ends normally exactly when it has been interrupted, has nothing to send to the
  server, owes and is owed no Python response and writes none; connections whose request is
  still being read and canned responses not yet sent do not keep it alive.\<close>

theorem worker_ends_iff:
  "worker_turn cd cfg i w = Ret (Leave w' (Ok ())) \<longleftrightarrow>
     w' = w \<and> wk_closing w \<and> wb_write_buffer (wk_buf w) = [] \<and> num_pending_reqs (wk_threads w) = 0 \<and>
     queued_reqs (wk_threads w) = [] \<and> wk_writing w = []"
proof (cases "may_close w")
  case True
  then show ?thesis
    by (auto simp: worker_turn_def may_close_def wb_has_data_to_send_def has_queued_reqs_def)
next
  case False
  have "no_ok_leave (worker_turn cd cfg i w)"
  proof (cases "poll_events i w")
    case (Ret x)
    obtain evs t where x: "x = (evs, t)" by (cases x)
    have "no_ok_leave (Ret t)"
      using Ret x by (auto simp: poll_events_def Let_def no_ok_leave_def split: result.splits)
        (metis old.unit.exhaust result.exhaust)
    then have "no_ok_leave (turn_bind (Ret t) (handle_batch cd cfg i evs))"
      by (rule no_ok_leave_bind) (rule no_ok_leave_batch)
    with False Ret x show ?thesis by (simp add: worker_turn_def)
  qed (use False in \<open>simp add: worker_turn_def\<close>)
  with False show ?thesis
    by (auto simp: no_ok_leave_def may_close_def wb_has_data_to_send_def has_queued_reqs_def)
qed

section \<open>Descriptors and logging\<close>

text \<open>C27: when a connection is finished, whether its response was written, it was closed by the
  client before a request, or a canned response was sent, the worker forgets its own
  descriptor of it: it is not closed, and neither a table nor the message to the server has
  it, so every served request leaves one descriptor open in the worker.\<close>

theorem finished_streams_stay_open:
  assumes "codec_ok cd" and "regs_ok i" and "tk \<in> hm_keys (server_fds (wk_buf w))"
    and "act \<in> {ServerDoneWrite tk resp fd, ServerStreamEOF tk fd, ServerCasketResponseDone tk fd cr}"
  shows "\<exists>w' logged. handle_action cd cfg i act w = Ret w' \<and> wk_log w' = wk_log w @ logged \<and>
     StreamForgotten fd \<in> set logged \<and> StreamDropped fd \<notin> set logged \<and>
     (wk_reading w', wk_pending w', wk_writing w', wk_casket w') =
       (wk_reading w, wk_pending w, wk_writing w, wk_casket w) \<and>
     server_fds (wk_buf w') = hm_delete tk (server_fds (wk_buf w))"
proof -
  from push_response_live [OF assms(1,3)] obtain wb where
    pr: "push_response cd tk k e (wk_buf w) = Ret ((wk_buf w)\<lparr>server_fds := hm_delete tk (server_fds (wk_buf w)), wb_write_buffer := wb k e\<rparr>)" for k e
    by metis
  from assms(4) show ?thesis
    using assms(2) pr
    by (auto simp: regs_ok_def with_poll_def deregister_def reg_result_def respond_def resp_stream_done_ok_def wlog_def)
qed

lemma handle_action_log: "handle_action cd (cfg\<lparr>log_response := b\<rparr>) i act = handle_action cd cfg i act"
  by (rule ext, cases act) simp_all

lemma handle_results_log:
  "handle_results cd (cfg\<lparr>log_response := b\<rparr>) i rs w = handle_results cd cfg i rs w"
proof (induction rs arbitrary: w)
  case (Cons r rs)
  have "handle_results cd (cfg\<lparr>log_response := b\<rparr>) i rs = handle_results cd cfg i rs"
    using Cons.IH by (rule ext)
  then show ?case by (cases r) (simp_all add: handle_result_def handle_action_log)
qed simp

lemma handle_event_log:
  "handle_worker_event cd (cfg\<lparr>log_response := b\<rparr>) i x w = handle_worker_event cd cfg i x w"
  by (cases "(cd, cfg, i, x, w)" rule: handle_worker_event.cases) simp_all

text \<open>\<open>CASKET_LOG_HTTP_RESPONSE\<close> has no effect: a worker does and logs the same in every
  turn with the feature on and off.\<close>

theorem log_flag_has_no_effect:
  "worker_turn cd (cfg\<lparr>log_response := b\<rparr>) i w = worker_turn cd cfg i w"
proof -
  have "handle_worker_event cd (cfg\<lparr>log_response := b\<rparr>) i = handle_worker_event cd cfg i"
    by (intro ext) (rule handle_event_log)
  moreover have "drain_results cd (cfg\<lparr>log_response := b\<rparr>) i = drain_results cd cfg i"
    by (rule ext) (simp add: drain_results_def handle_results_log)
  ultimately have "handle_batch cd (cfg\<lparr>log_response := b\<rparr>) i = handle_batch cd cfg i"
    by (intro ext) (simp add: handle_batch_def)
  then show ?thesis by (simp add: worker_turn_def)
qed

section \<open>An example run\<close>

text \<open>
  One connection arrives on the Unix socket in the first turn and is registered in the
  second; in the third its stream is readable and delivers the first bytes of a header.
\<close>

definition idle_turn :: worker_input where
  "idle_turn =
     \<lparr>wi_now = 0, wi_poll_err = None, wi_mio = [], wi_unix_read = Ok [], wi_unix_fds = [],
      wi_unix_write = Ok 0, wi_lib = (\<lambda>_. up_lib), wi_read = (\<lambda>_. Ok (take 5 up_header)),
      wi_recv = (\<lambda>_. RecvEmpty), wi_write = (\<lambda>_. Ok 0), wi_reg = (\<lambda>_ _. None),
      wi_action_now = (\<lambda>_. 0), wi_starts = [], wi_starts_gone = False, wi_resps = [],
      wi_resps_gone = False\<rparr>"

definition example_request :: request where
  "example_request = \<lparr>rq_token = 0x1000000, rq_fd = 5\<rparr>"

definition arrival_turn :: worker_input where
  "arrival_turn = idle_turn
     \<lparr>wi_mio := [\<lparr>me_token = Token 0, me_readable = True, me_writable = False\<rparr>],
      wi_unix_read := Ok (frame u8_prefix (enc_request example_request)), wi_unix_fds := [9]\<rparr>"

definition readable_turn :: worker_input where
  "readable_turn = idle_turn
     \<lparr>wi_mio := [\<lparr>me_token = Token 0x1000000, me_readable = True, me_writable = False\<rparr>]\<rparr>"

definition start_config :: config where
  "start_config = default_config (Ok ''host'')"

definition start_worker :: worker where
  "start_worker = worker_start (new_recv workq_new)"

lemma start_sender [simp]: "sender_inv (new_recv workq_new)"
  by (simp add: sender_inv_def new_recv_def workq_new_def)

lemma example_split:
  "split_frames 1 1 u8_from (frame u8_prefix (enc_request example_request)) = ([enc_request example_request], [])"
proof -
  have "codec_ok fixed_codec" by (rule fixed_codec_ok)
  then have "enc_request example_request \<noteq> []" "length (enc_request example_request) < 256"
    unfolding codec_ok_def fixed_codec_sel by auto
  from f8.split_frame [OF this, of "[]"] show ?thesis by (simp add: split8_short del: One_nat_def)
qed

lemma up_lib_sizes [simp]: "lib_sizes up_lib"
  by (simp add: up_lib_def exact_lib_sizes)

lemma idle_turn_ok:
  "regs_ok idle_turn" "times_ok start_config idle_turn" "\<And>w. wk_reading w = [] \<Longrightarrow> reads_ok idle_turn w"
  "\<And>pt. answers_ok [] pt" "\<And>w. mio_ok idle_turn w"
  by (simp_all add: regs_ok_def times_ok_def idle_turn_def systime_add_def start_config_def default_config_def from_secs_def
      reads_ok_def answers_ok_def mio_ok_def)

lemma drain_none: "stream_fds b = [] \<Longrightarrow> drain_streams b = (b, [])"
  by (subst drain_streams.simps) (simp add: next_stream_fd_def)

lemma drain_one:
  "stream_fds b = [fd] \<Longrightarrow> stream_msgs b = [m] \<Longrightarrow> drain_streams b =
    (b\<lparr>stream_fds := [], stream_msgs := [], server_fds := hm_insert (Token (rq_token m)) (rq_fd m) (server_fds b)\<rparr>,
     [(Token (rq_token m), fd)])"
  by (subst drain_streams.simps) (simp add: next_stream_fd_def drain_none)

text \<open>The first turn: the message is read, nothing else happens.\<close>

lemma arrival:
  obtains b w where "worker_turn fixed_codec start_config arrival_turn start_worker = Ret (Next w)"
    "wk_buf w = b" "stream_fds b = [9]" "stream_msgs b = [example_request]" "server_fds b = []" "wb_unread b = []"
    "wk_reading w = []" "wk_threads w = python_threads_new (new_recv workq_new)"
    "turn_ok fixed_codec start_config arrival_turn start_worker" "wk_closing w = False"
    "wk_results w = []" "wk_pending w = []" "wk_writing w = []" "wk_casket w = []" "wk_timeouts w = []"
    "timerq (wk_poll w) = []" "wb_write_buffer b = []"
    "wk_log w = [UnixGot (frame u8_prefix (enc_request example_request)) [9]]"
proof -
  have fit: "length (frame u8_prefix (enc_request example_request)) \<le> wb_space worker_buf_new"
    by (simp add: frame_def u8_prefix_def enc_request_def wb_space_def worker_buf_new_def)
  have de: "decode_all (de_request fixed_codec) [enc_request example_request] = Some [example_request]"
    by (simp add: dec_enc_request)
  have sp: "split_frames 1 1 u8_from (wb_unread worker_buf_new @ frame u8_prefix (enc_request example_request))
      = ([enc_request example_request], [])" using example_split by simp
  from wb_read_spec [OF worker_buf_new_simps(1) fit sp de, of "[9]"] obtain b where
    b: "wb_read_stream fixed_codec (Ok (frame u8_prefix (enc_request example_request))) [9] worker_buf_new = Ret (b, Ok ())"
    "wb_unread b = []" "stream_msgs b = [example_request]" "stream_fds b = [9]" "server_fds b = []" "wb_write_buffer b = []"
    by (auto simp: worker_buf_new_def)
  have nd: "drain_streams worker_buf_new = (worker_buf_new, [])" by (simp add: drain_none)
  have ok: "turn_ok fixed_codec start_config arrival_turn start_worker"
    using idle_turn_ok fit sp de
    by (simp add: turn_ok_def regs_ok_def times_ok_def reads_ok_def arrival_turn_def start_worker_def
        worker_start_def fresh_streams_def nd mio_ok_def mio_one_def register_read_def set_reg_def poller_new_def
        UNIX_STREAM_TOKEN_def bytes_ok_def Let_def idle_turn_def answers_ok_def)
  obtain w where w: "worker_turn fixed_codec start_config arrival_turn start_worker = Ret (Next w)"
    "wk_buf w = b" "wk_reading w = []" "wk_threads w = python_threads_new (new_recv workq_new)"
    "wk_closing w = False" "wk_results w = []" "wk_pending w = []" "wk_writing w = []" "wk_casket w = []"
    "wk_timeouts w = []" "timerq (wk_poll w) = []"
    "wk_log w = [UnixGot (frame u8_prefix (enc_request example_request)) [9]]"
    using b nd
    by (simp add: worker_turn_def may_close_def start_worker_def worker_start_def poll_events_def own_events_def
        python_threads_new_def has_queued_reqs_def Let_def tick_def arrival_turn_def idle_turn_def
        pop_expired.simps timer_peek_def register_read_def set_reg_def poller_new_def UNIX_STREAM_TOKEN_def
        handle_batch_def leave_on_err_def fatal_result_def finish_def drain_results_def drain_timeouts_def
        rearm_unix_def wb_has_data_to_send_def reregister_read_def reg_result_def wlog_def)
  show ?thesis using that w b ok by blast
qed

text \<open>The second turn: the connection is registered and waits for its request.\<close>

lemma start_config_simps [simp]:
  "systime_add 0 (request_read_timeout start_config) = Ret (from_secs 30)" "max_requests start_config = 64"
  by (simp_all add: start_config_def default_config_def systime_add_def from_secs_def)

lemma registration:
  obtains w1 w2 where "run (worker_step fixed_codec start_config) start_worker [arrival_turn, idle_turn] w2"
    "hm_keys (wk_reading w2) = {Token 0x1000000}" "wk_reading w2 = [(Token 0x1000000, (9, reader_new))]"
    "hm_keys (server_fds (wk_buf w2)) = {Token 0x1000000}"
    "turn_ok fixed_codec start_config readable_turn w2"
    "wk_threads w2 = python_threads_new (new_recv workq_new)" "wk_closing w2 = False" "wk_results w2 = []"
    "wk_pending w2 = []" "wk_writing w2 = []" "wk_casket w2 = []" "wk_timeouts w2 = []"
    "stream_fds (wk_buf w2) = []" "wb_unread (wk_buf w2) = []" "wb_write_buffer (wk_buf w2) = []"
    "timerq (wk_poll w2) =
       [\<lparr>te_token = Token 0x1000000, te_timeout = from_secs 30, te_event = RequestReadTimeout\<rparr>]"
    "wk_log w2 = [UnixGot (frame u8_prefix (enc_request example_request)) [9]]"
proof -
  obtain b w1 where w1: "worker_turn fixed_codec start_config arrival_turn start_worker = Ret (Next w1)"
    "wk_buf w1 = b" "stream_fds b = [9]" "stream_msgs b = [example_request]" "server_fds b = []" "wb_unread b = []"
    "wk_reading w1 = []" "wk_threads w1 = python_threads_new (new_recv workq_new)"
    "turn_ok fixed_codec start_config arrival_turn start_worker" "wk_closing w1 = False"
    "wk_results w1 = []" "wk_pending w1 = []" "wk_writing w1 = []" "wk_casket w1 = []" "wk_timeouts w1 = []"
    "timerq (wk_poll w1) = []" "wb_write_buffer b = []"
    "wk_log w1 = [UnixGot (frame u8_prefix (enc_request example_request)) [9]]"
    by (rule arrival)
  have s1: "worker_step fixed_codec start_config arrival_turn start_worker w1"
    using w1 fixed_codec_ok by (simp add: worker_step_def)
  have inv1: "worker_inv start_config w1"
    using wkr.step_inv [OF s1] worker_start_inv [OF start_sender] by (simp add: start_worker_def)
  have d: "drain_streams b = (b\<lparr>stream_fds := [], stream_msgs := [], server_fds := [(Token 0x1000000, 5)]\<rparr>,
      [(Token 0x1000000, 9)])"
    unfolding drain_one [OF w1(3,4)] using w1(5) by (simp add: hm_insert_def hm_delete_def example_request_def)
  have "fresh_streams w1"
    using w1(2,5,8) d by (simp add: fresh_streams_def live_def asked_def python_threads_new_def)
  moreover have "bytes_ok fixed_codec idle_turn (wk_buf w1)"
    using w1(2,6) by (simp add: bytes_ok_def idle_turn_def split8_short del: One_nat_def)
  moreover have "wi_resps idle_turn = []" by (simp add: idle_turn_def)
  ultimately have ok1: "turn_ok fixed_codec start_config idle_turn w1"
    using idle_turn_ok w1(7) by (simp add: turn_ok_def)
  have reg: "hm_get (poll_reg (wk_poll w1)) (Token 0x1000000) = None"
    using inv1 w1(7,13,14) polled_at [of w1 "Token 0x1000000"]
    by (auto simp: worker_inv_def mid_def poll_at_def UNIX_STREAM_TOKEN_def split: option.splits mio_interest.splits)
  obtain w2 where w2: "worker_turn fixed_codec start_config idle_turn w1 = Ret (Next w2)"
    "wk_reading w2 = [(Token 0x1000000, (9, reader_new))]" "hm_keys (server_fds (wk_buf w2)) = {Token 0x1000000}"
    "hm_get (poll_reg (wk_poll w2)) (Token 0x1000000) = Some Readable"
    "stream_fds (wk_buf w2) = []" "wb_unread (wk_buf w2) = []"
    "wk_threads w2 = python_threads_new (new_recv workq_new)" "wk_closing w2 = False" "wk_results w2 = []"
    "wk_pending w2 = []" "wk_writing w2 = []" "wk_casket w2 = []" "wk_timeouts w2 = []"
    "wb_write_buffer (wk_buf w2) = []"
    "timerq (wk_poll w2) =
       [\<lparr>te_token = Token 0x1000000, te_timeout = from_secs 30, te_event = RequestReadTimeout\<rparr>]"
    "wk_log w2 = [UnixGot (frame u8_prefix (enc_request example_request)) [9]]"
    using w1(2-8,10-18) d
    by (simp add: hm_keys_def hm_get_def worker_turn_def may_close_def poll_events_def own_events_def
        python_threads_new_def has_queued_reqs_def Let_def tick_def idle_turn_def
        pop_expired.simps timer_peek_def register_read_def set_reg_def
        handle_batch_def leave_on_err_def fatal_result_def finish_def drain_results_def drain_timeouts_def
        rearm_unix_def wb_has_data_to_send_def reregister_read_def reg_result_def push_action_def handle_result_def
        with_poll_def put_reading_def displaced_def UNIX_STREAM_TOKEN_def reregister_rw_def hm_insert_def hm_delete_def wb_unread_def split_beta timer_event_def)
  have s2: "worker_step fixed_codec start_config idle_turn w1 w2"
    using w2(1) ok1 fixed_codec_ok by (simp add: worker_step_def)
  have r: "run (worker_step fixed_codec start_config) start_worker [arrival_turn, idle_turn] w2"
    using s1 s2 by (auto intro: run.intros)
  have "fresh_streams w2" using w2(5) by (simp add: fresh_streams_def drain_none)
  moreover have "bytes_ok fixed_codec readable_turn (wk_buf w2)"
    using w2(6) by (simp add: bytes_ok_def readable_turn_def idle_turn_def split8_short del: One_nat_def)
  moreover have "parse_request up_lib (take 5 up_header) = ParsePartial"
    by (simp add: up_lib_def exact_lib_def up_header_def crlf_def)
  then have "reads_ok readable_turn w2"
    using w2(2) by (auto simp: reads_ok_def readable_turn_def idle_turn_def read_fits_def reader_new_def read_space_def
        grow_header_def huge_request_def)
  moreover have "mio_ok readable_turn w2"
    using w2(4) by (simp add: mio_ok_def mio_one_def readable_turn_def)
  moreover have "regs_ok readable_turn" "times_ok start_config readable_turn" "answers_ok (wi_resps readable_turn) (wk_threads w2)"
    using idle_turn_ok(1,2,4) by (simp_all add: regs_ok_def times_ok_def readable_turn_def idle_turn_def)
  ultimately have ok2: "turn_ok fixed_codec start_config readable_turn w2" by (simp add: turn_ok_def)
  show ?thesis by (rule that [OF r _ w2(2,3) ok2 w2(7-13,5,6,14-16)]) (simp add: w2(2) hm_keys_def)
qed


theorem worker_never_panics_witness:
  "\<exists>w. run (worker_step fixed_codec start_config) start_worker [arrival_turn, idle_turn] w \<and>
     wk_reading w = [(Token 0x1000000, (9, reader_new))] \<and>
     no_panic (worker_turn fixed_codec start_config readable_turn w)"
proof -
  obtain w1 w2 where r: "run (worker_step fixed_codec start_config) start_worker [arrival_turn, idle_turn] w2"
    and w2: "wk_reading w2 = [(Token 0x1000000, (9, reader_new))]" "turn_ok fixed_codec start_config readable_turn w2"
    by (rule registration)
  from worker_never_panics [OF start_sender r [unfolded start_worker_def] fixed_codec_ok w2(2)] r w2(1)
  show ?thesis by blast
qed

theorem connections_in_one_table_witness:
  "\<exists>w :: worker. hm_keys (server_fds (wk_buf w)) = {Token 0x1000000} \<and>
     keysm (wk_reading w) + keysm (wk_pending w) + keysm (wk_writing w) + keysm (wk_casket w) = {#Token 0x1000000#}"
proof -
  obtain w1 w2 where r: "run (worker_step fixed_codec start_config) start_worker [arrival_turn, idle_turn] w2"
    and k: "hm_keys (server_fds (wk_buf w2)) = {Token 0x1000000}"
    by (rule registration)
  from connections_in_one_table [OF start_sender r [unfolded start_worker_def]] k show ?thesis by auto
qed

theorem pending_are_awaited_witness:
  "\<exists>w :: worker. wk_reading w = [(Token 0x1000000, (9, reader_new))] \<and> hm_keys (wk_pending w) = awaited (wk_threads w)"
proof -
  obtain w1 w2 where r: "run (worker_step fixed_codec start_config) start_worker [arrival_turn, idle_turn] w2"
    and k: "wk_reading w2 = [(Token 0x1000000, (9, reader_new))]"
    by (rule registration)
  from pending_are_awaited [OF start_sender r [unfolded start_worker_def]] k show ?thesis by blast
qed

theorem canned_response_sent_witness:
  "\<exists>out cr'. write_canned [10, 57] (Token 4) 9 \<lparr>cr_code = 408, cr_response = HTTP_408_RESPONSE,
       cr_reason = [], cr_bytes_sent = 0\<rparr> = (out, Ok (ServerCasketResponseDone (Token 4) 9 cr')) \<and>
     crlf_lines out = [''HTTP/1.1 408 Request Timeout'', ''Server: Casket'', ''Connection: Close'', [], []]"
proof -
  let ?cr = "\<lparr>cr_code = 408, cr_response = HTTP_408_RESPONSE, cr_reason = [], cr_bytes_sent = 0\<rparr>"
  have "sum_list [10, 57] = length (cr_response ?cr)" by (simp add: HTTP_408_RESPONSE_def crlf_def)
  from canned_response_sent [OF _ this, of "[]" "Token 4" 9] show ?thesis by (auto simp del: write_canned.simps)
qed

text \<open>A worker that waits for one response.\<close>

definition waiting_worker :: worker where
  "waiting_worker = start_worker\<lparr>
     wk_buf := worker_buf_new\<lparr>server_fds := [(Token 4, 5)]\<rparr>,
     wk_threads := (python_threads_new (new_recv workq_new))\<lparr>num_pending_reqs := 1, pt_inflight := [Token 4],
       pt_sent := [(4, sample_request)]\<rparr>,
     wk_pending := [(Token 4, 9)]\<rparr>"

lemma waiting_worker_inv: "worker_inv cfg waiting_worker"
proof -
  have p: "hm_get (poll_reg (wk_poll waiting_worker)) tk = (if tk = UNIX_STREAM_TOKEN then Some Readable else None)" for tk
    by (simp add: waiting_worker_def start_worker_def worker_start_def register_read_def set_reg_def poller_new_def)
  have "polled [] [] [] waiting_worker" using p by (simp add: polled_def poll_at_def)
  moreover have "unix_at waiting_worker"
    by (simp add: unix_at_def p)
      (simp add: waiting_worker_def start_worker_def worker_start_def register_read_def set_reg_def poller_new_def)
  ultimately show ?thesis
    by (simp add: worker_inv_def mid_def ledger_def holders_def live_def answers_due_def not_asked_def
        healthy_def readers_ok_def timers_ok_def timer_inv_def threads_inv_def books_ok_def awaited_def asked_def keysm_def hm_keys_def
        waiting_worker_def start_worker_def worker_start_def python_threads_new_def worker_buf_new_def
        register_read_def set_reg_def poller_new_def wb_inv_def)
qed

theorem timed_out_is_504_witness:
  "\<exists>w' pt results. handle_timeout idle_turn (Token 4, PythonCode) waiting_worker = Ret (Next w') \<and>
     wk_results w' = [Ok (new_504_gateway_timeout (Token 4) 9)] \<and>
     take_responses [] False [(4, sample_response ''200'')] False (wk_threads w') [] = Ret (pt, results, Ok ()) \<and>
     Ok (ServerNewResponse (Token 4) (sample_response ''200'')) \<notin> set results"
proof -
  have "hm_get (wk_pending waiting_worker) (Token 4) = Some 9"
    and "answers_ok [(4, sample_response ''200'')] (wk_threads waiting_worker)"
    by (simp_all add: waiting_worker_def answers_ok_def resp_tokens_def hm_get_def)
  from timed_out_is_504 [OF waiting_worker_inv this] show ?thesis by blast
qed

theorem finished_streams_stay_open_witness:
  "\<exists>w' logged. handle_action fixed_codec start_config idle_turn (ServerStreamEOF (Token 4) 9) waiting_worker = Ret w' \<and>
     wk_log w' = wk_log waiting_worker @ logged \<and> StreamForgotten 9 \<in> set logged \<and> StreamDropped 9 \<notin> set logged"
proof -
  have "Token 4 \<in> hm_keys (server_fds (wk_buf waiting_worker))" by (simp add: waiting_worker_def hm_keys_def)
  moreover have "ServerStreamEOF (Token 4) 9 \<in> {ServerDoneWrite (Token 4) (sample_response ''200'') 9,
      ServerStreamEOF (Token 4) 9, ServerCasketResponseDone (Token 4) 9 \<lparr>cr_code = 408, cr_response = [], cr_reason = [], cr_bytes_sent = 0\<rparr>}"
    by simp
  ultimately show ?thesis
    using finished_streams_stay_open [OF fixed_codec_ok idle_turn_ok(1)] by metis
qed

end
