(* ===== verification/Python.thy ===== *)
theory Python
  imports Http
begin

text \<open>
  What the sources of \<open>src/pythonexec/\<close> share: Python values and exceptions as far as Rust code
  looks at them, the thread-local state of \<open>src/pythonexec/reqlocal.rs\<close>, and the log lines of
  \<open>src/pythonexec/logger.rs\<close>.
\<close>

section \<open>Values and exceptions\<close>

text \<open>
  A value is the type the code downcasts to. A Python string has a UTF-8 form unless it holds
  a lone surrogate (\<open>to_str\<close> then raises), and always a lossy one (\<open>to_string\<close>). Any other
  object has a type name and may have an integer value (\<open>__index__\<close>).
\<close>

datatype py_obj =
    PyStr "string option" string
  | PyBool bool
  | PyInt int
  | PyBytes bytes
  | PyTuple "py_obj list"
  | PyOther string "int option"

definition py_str :: "string \<Rightarrow> py_obj" where
  "py_str s = PyStr (Some s) s"

text \<open>
  An exception: its class, \<open>str()\<close> of its value, and the text of its traceback if it has one,
  \<open>Err\<close> when formatting that text fails.
\<close>

record py_err =
  pe_class :: string
  pe_value :: string
  pe_traceback :: "(unit, string) result option"

definition new_err :: "string \<Rightarrow> string \<Rightarrow> py_err" where
  "new_err cls msg = \<lparr>pe_class = cls, pe_value = msg, pe_traceback = None\<rparr>"

text \<open>
  Library code the sources call: the text of pyo3's exceptions for a failed downcast and a
  string that is not UTF-8, and \<open>httparse\<close>'s parser of a response (the code and the reason
  it found, or an error).
\<close>

record py_lib =
  downcast_text :: "string \<Rightarrow> py_obj \<Rightarrow> string"
  not_utf8_text :: "string \<Rightarrow> string"
  parse_response :: "bytes \<Rightarrow> (string, u16 option \<times> string option) result"

definition downcast_err :: "py_lib \<Rightarrow> string \<Rightarrow> py_obj \<Rightarrow> py_err" where
  "downcast_err lib target v = new_err ''TypeError'' (downcast_text lib target v)"

definition to_str :: "py_lib \<Rightarrow> string option \<Rightarrow> string \<Rightarrow> (py_err, string) result" where
  "to_str lib utf8 lossy =
     (case utf8 of Some s \<Rightarrow> Ok s | None \<Rightarrow> Err (new_err ''UnicodeEncodeError'' (not_utf8_text lib lossy)))"

section \<open>Thread-local state\<close>

record reqlocal =
  rl_context :: "trace_ctx option"
  rl_header :: "response_header option"

definition reqlocal_start :: reqlocal where
  "reqlocal_start = \<lparr>rl_context = None, rl_header = None\<rparr>"

definition set_context :: "trace_ctx \<Rightarrow> reqlocal \<Rightarrow> reqlocal" where
  "set_context ctx l = l\<lparr>rl_context := Some ctx\<rparr>"

definition get_context :: "reqlocal \<Rightarrow> trace_ctx option" where
  "get_context l = rl_context l"

definition init_req_thread :: "reqlocal \<Rightarrow> reqlocal" where
  "init_req_thread l = (l\<lparr>rl_context := None\<rparr>)\<lparr>rl_header := None\<rparr>"

definition put_response_header :: "response_header \<Rightarrow> reqlocal \<Rightarrow> reqlocal" where
  "put_response_header h l = l\<lparr>rl_header := Some h\<rparr>"

definition take_response_header :: "reqlocal \<Rightarrow> reqlocal \<times> response_header option" where
  "take_response_header l = (l\<lparr>rl_header := None\<rparr>, rl_header l)"

text \<open>Nothing of an earlier request is left once a thread starts the next one.\<close>

lemma init_req_thread_eq [simp]: "init_req_thread l = reqlocal_start"
  by (cases l) (simp add: init_req_thread_def reqlocal_start_def)

section \<open>The logger of the application\<close>

datatype log_level = LevelInfo | LevelWarn | LevelError

datatype log_value = LvString string | LvBool bool | LvInt int

record log_line =
  ll_level :: log_level
  ll_msg :: string
  ll_entries :: "(string \<times> log_value) list"

text \<open>\<open>extract::<i64>\<close>; the value of a \<open>bool\<close> is 0 or 1.\<close>

definition extract_i64 :: "py_obj \<Rightarrow> int option" where
  "extract_i64 v =
     (let fits = (\<lambda>n. if - (2 ^ 63) \<le> n \<and> n < (2 :: int) ^ 63 then Some n else None)
      in case v of
           PyInt n \<Rightarrow> fits n
         | PyBool b \<Rightarrow> Some (if b then 1 else 0)
         | PyOther _ (Some n) \<Rightarrow> fits n
         | _ \<Rightarrow> None)"

definition get_value :: "py_lib \<Rightarrow> py_obj \<Rightarrow> (py_err, log_value) result" where
  "get_value lib v =
     (case v of
        PyStr utf8 lossy \<Rightarrow> (case to_str lib utf8 lossy of Ok s \<Rightarrow> Ok (LvString s) | Err e \<Rightarrow> Err e)
      | PyBool b \<Rightarrow> Ok (LvBool b)
      | _ \<Rightarrow>
          (case extract_i64 v of
             Some n \<Rightarrow> Ok (LvInt n)
           | None \<Rightarrow> Err (new_err ''TypeError'' ''bad type in log tags value'')))"

text \<open>The loop over the tags: the key's type, the value, then the key's text.\<close>

fun log_tags ::
  "py_lib \<Rightarrow> (py_obj \<times> py_obj) list \<Rightarrow> (string \<times> log_value) list \<Rightarrow> (py_err, (string \<times> log_value) list) result" where
  "log_tags lib [] entries = Ok entries"
| "log_tags lib ((k, v) # kvs) entries =
     (case k of
        PyStr utf8 lossy \<Rightarrow>
          (case get_value lib v of
             Err e \<Rightarrow> Err e
           | Ok x \<Rightarrow>
               (case to_str lib utf8 lossy of
                  Err e \<Rightarrow> Err e
                | Ok key \<Rightarrow> log_tags lib kvs (entries @ [(key, x)])))
      | _ \<Rightarrow> Err (downcast_err lib ''PyString'' k))"

definition context_entries :: "trace_ctx option \<Rightarrow> (string \<times> log_value) list" where
  "context_entries c =
     (case c of
        None \<Rightarrow> []
      | Some ctx \<Rightarrow>
          [(''trace_id'', LvString (trace_id ctx)), (''span_id'', LvString (span_id ctx))]
          @ (case parent_id ctx of Some p \<Rightarrow> [(''parent_id'', LvString p)] | None \<Rightarrow> []))"

definition app_log ::
  "py_lib \<Rightarrow> log_level \<Rightarrow> string \<Rightarrow> (py_obj \<times> py_obj) list \<Rightarrow> reqlocal \<Rightarrow> (py_err, log_line) result" where
  "app_log lib level msg keys l =
     (case log_tags lib keys [] of
        Err e \<Rightarrow> Err e
      | Ok entries \<Rightarrow>
          Ok \<lparr>ll_level = level, ll_msg = msg, ll_entries = entries @ context_entries (get_context l)\<rparr>)"

text \<open>The three functions of the Python module; without tags the dictionary is empty.\<close>

definition log_info ::
  "py_lib \<Rightarrow> string \<Rightarrow> (py_obj \<times> py_obj) list option \<Rightarrow> reqlocal \<Rightarrow> (py_err, log_line) result" where
  "log_info lib msg tags = app_log lib LevelInfo msg (case tags of Some d \<Rightarrow> d | None \<Rightarrow> [])"

definition log_warn ::
  "py_lib \<Rightarrow> string \<Rightarrow> (py_obj \<times> py_obj) list option \<Rightarrow> reqlocal \<Rightarrow> (py_err, log_line) result" where
  "log_warn lib msg tags = app_log lib LevelWarn msg (case tags of Some d \<Rightarrow> d | None \<Rightarrow> [])"

definition log_error ::
  "py_lib \<Rightarrow> string \<Rightarrow> (py_obj \<times> py_obj) list option \<Rightarrow> reqlocal \<Rightarrow> (py_err, log_line) result" where
  "log_error lib msg tags = app_log lib LevelError msg (case tags of Some d \<Rightarrow> d | None \<Rightarrow> [])"

section \<open>What is logged\<close>

text \<open>A boolean is logged as a boolean although it is an integer too.\<close>

lemma get_value_Ok:
  "get_value lib v = Ok x \<longleftrightarrow>
     (\<exists>s l. v = PyStr (Some s) l \<and> x = LvString s) \<or> (\<exists>b. v = PyBool b \<and> x = LvBool b) \<or>
     (\<exists>n. (v = PyInt n \<or> (\<exists>ty. v = PyOther ty (Some n))) \<and> - (2 ^ 63) \<le> n \<and> n < 2 ^ 63 \<and> x = LvInt n)"
  by (cases v) (auto simp: get_value_def to_str_def extract_i64_def Let_def split: option.splits)

definition tags_logged :: "py_lib \<Rightarrow> (py_obj \<times> py_obj) list \<Rightarrow> (string \<times> log_value) list \<Rightarrow> bool" where
  "tags_logged lib = list_all2 (\<lambda>(k, v) e. (\<exists>l. k = PyStr (Some (fst e)) l) \<and> get_value lib v = Ok (snd e))"

lemma log_tags_Ok: "log_tags lib kvs es = Ok out \<longleftrightarrow> (\<exists>es'. out = es @ es' \<and> tags_logged lib kvs es')"
proof (induction kvs arbitrary: es)
  case Nil
  then show ?case by (auto simp: tags_logged_def)
next
  case (Cons kv kvs)
  obtain k v where kv: "kv = (k, v)" by (cases kv)
  show ?case
    by (cases k) (auto simp: kv Cons.IH tags_logged_def to_str_def list_all2_Cons1 split: result.splits option.splits)
qed

lemma log_tags_iff: "log_tags lib kvs [] = Ok es \<longleftrightarrow> tags_logged lib kvs es"
  by (simp add: log_tags_Ok)

text \<open>A line of the application carries the context it was logged in, after its own tags.\<close>

lemma app_log_Ok:
  "app_log lib level msg keys l = Ok line \<longleftrightarrow>
     (\<exists>es. tags_logged lib keys es \<and>
        line = \<lparr>ll_level = level, ll_msg = msg, ll_entries = es @ context_entries (rl_context l)\<rparr>)"
  by (auto simp: app_log_def get_context_def log_tags_iff [symmetric] split: result.splits)

end
