(* ===== verification/Wsgi.thy ===== *)
theory Wsgi
  imports Python Config
begin

text \<open>
  \<open>src/pythonexec/wsgi.rs\<close>: one call of the WSGI application: the environment it gets, the
  objects it may call (\<open>start_response\<close>, \<open>wsgi.input\<close>, \<open>wsgi.errors\<close>, the logger), the
  iterator it returns, and the response when it raises. The application is Python code: a
  program that calls those objects and whose every next step may depend on what they return.
\<close>

section \<open>The request body as a file\<close>

record wsgi_input =
  in_body :: bytes
  in_pos :: nat

definition wsgi_input_new :: "bytes \<Rightarrow> wsgi_input" where
  "wsgi_input_new body = \<lparr>in_body = body, in_pos = 0\<rparr>"

definition input_read :: "nat option \<Rightarrow> wsgi_input \<Rightarrow> bytes \<times> wsgi_input" where
  "input_read sz inp =
     (let bytes_remaining = length (in_body inp) - in_pos inp;
          n = (case sz of Some n \<Rightarrow> n | None \<Rightarrow> bytes_remaining);
          n = (if bytes_remaining < n then bytes_remaining else n);
          data = take n (drop (in_pos inp) (in_body inp))
      in (data, inp\<lparr>in_pos := in_pos inp + n\<rparr>))"

text \<open>The position of the first newline in the rest of the body.\<close>

fun find_newline :: "nat \<Rightarrow> bytes \<Rightarrow> nat option" where
  "find_newline n [] = None"
| "find_newline n (b # bs) = (if b = CHR 0x0A then Some n else find_newline (n + 1) bs)"

definition input_readline :: "nat option \<Rightarrow> wsgi_input \<Rightarrow> bytes \<times> wsgi_input" where
  "input_readline _ inp =
     (let remaining = drop (in_pos inp) (in_body inp)
      in case find_newline 0 remaining of
           Some n \<Rightarrow> (take n remaining, inp\<lparr>in_pos := in_pos inp + n\<rparr>)
         | None \<Rightarrow> (remaining, inp\<lparr>in_pos := length (in_body inp)\<rparr>))"

text \<open>
  \<open>for n in 1..\<close>: the loop has no other exit than the one on the size, so the value is
  \<open>None\<close> when it does not return.
\<close>

partial_function (option) readlines_loop ::
  "nat option \<Rightarrow> nat \<Rightarrow> bytes list \<Rightarrow> wsgi_input \<Rightarrow> (bytes list \<times> wsgi_input) option" where
  "readlines_loop sz n list inp =
     (let (ln, inp) = input_readline None inp;
          list = list @ [ln]
      in if sz = Some n then Some (list, inp) else readlines_loop sz (n + 1) list inp)"

definition input_readlines :: "nat option \<Rightarrow> wsgi_input \<Rightarrow> (bytes list \<times> wsgi_input) option" where
  "input_readlines sz inp = readlines_loop sz 1 [] inp"

text \<open>\<open>WsgiInputIter::__next__\<close>: the iterator shares the position of its file.\<close>

definition input_next :: "wsgi_input \<Rightarrow> char option \<times> wsgi_input" where
  "input_next inp =
     (if in_pos inp = length (in_body inp) then (None, inp)
      else (Some (in_body inp ! in_pos inp), inp\<lparr>in_pos := in_pos inp + 1\<rparr>))"

section \<open>The state of a thread during a call\<close>

text \<open>
  The log: lines of the application's logger, lines it wrote to \<open>wsgi.errors\<close>, and the line
  for an exception.
\<close>

datatype thread_log =
    AppLine log_line
  | AppError string
  | ExecFailed trace_ctx string string

record pstate =
  ps_local :: reqlocal
  ps_input :: wsgi_input
  ps_log :: "thread_log list"

definition errors_write :: "string \<Rightarrow> pstate \<Rightarrow> pstate" where
  "errors_write err ps = ps\<lparr>ps_log := ps_log ps @ [AppError err]\<rparr>"

fun writelines_loop ::
  "py_lib \<Rightarrow> (py_err, py_obj) result list \<Rightarrow> pstate \<Rightarrow> (py_err, unit) result \<times> pstate" where
  "writelines_loop lib [] ps = (Ok (), ps)"
| "writelines_loop lib (Err e # lines) ps = (Err e, ps)"
| "writelines_loop lib (Ok line # lines) ps =
     (case line of
        PyStr utf8 lossy \<Rightarrow>
          (case to_str lib utf8 lossy of
             Err e \<Rightarrow> (Err e, ps)
           | Ok s \<Rightarrow> writelines_loop lib lines (errors_write s ps))
      | _ \<Rightarrow> (Err (downcast_err lib ''PyString'' line), ps))"

text \<open>The argument is the iterator of the object given, or the exception for having none.\<close>

definition errors_writelines ::
  "py_lib \<Rightarrow> (py_err, (py_err, py_obj) result list) result \<Rightarrow> pstate \<Rightarrow> (py_err, unit) result \<times> pstate" where
  "errors_writelines lib lines ps =
     (case lines of Err e \<Rightarrow> (Err e, ps) | Ok ls \<Rightarrow> writelines_loop lib ls ps)"

section \<open>start_response\<close>

definition parse_status :: "py_lib \<Rightarrow> string \<Rightarrow> (py_err, u16 \<times> string) result" where
  "parse_status lib status =
     (let status_line = ''HTTP/1.1 '' @ status @ crlf
      in case parse_response lib status_line of
           Err _ \<Rightarrow> Err (new_err ''ValueError'' ''status string given to start_response not valid'')
         | Ok (code, reason) \<Rightarrow>
             (case code of
                None \<Rightarrow> Err (new_err ''ValueError'' ''status string given to start response missing code'')
              | Some code \<Rightarrow>
                  (case reason of
                     None \<Rightarrow> Err (new_err ''ValueError'' ''status string given to start response not valid'')
                   | Some reason \<Rightarrow> Ok (code, reason))))"

fun start_headers ::
  "py_lib \<Rightarrow> py_obj list \<Rightarrow> (string \<times> string) list \<Rightarrow> (py_err, (string \<times> string) list) result" where
  "start_headers lib [] acc = Ok acc"
| "start_headers lib (PyTuple h # hs) acc =
     (if length h \<noteq> 2 then Err (new_err ''ValueError'' ''headers should be a list of tuples'')
      else
        (case h ! 0 of
           PyStr _ key \<Rightarrow>
             (case h ! 1 of
                PyStr _ val \<Rightarrow> start_headers lib hs (acc @ [(key, val)])
              | v \<Rightarrow> Err (downcast_err lib ''PyString'' v))
         | k \<Rightarrow> Err (downcast_err lib ''PyString'' k)))"
| "start_headers lib (h # hs) acc = Err (downcast_err lib ''PyTuple'' h)"

definition start_response ::
  "py_lib \<Rightarrow> string \<Rightarrow> py_obj list \<Rightarrow> pstate \<Rightarrow> (py_err, unit) result \<times> pstate" where
  "start_response lib status headers ps =
     (case parse_status lib status of
        Err e \<Rightarrow> (Err e, ps)
      | Ok (code, reason) \<Rightarrow>
          (case start_headers lib headers [] of
             Err e \<Rightarrow> (Err e, ps)
           | Ok hs \<Rightarrow>
               (Ok (), ps\<lparr>ps_local := put_response_header
                  \<lparr>hdr_code = code, hdr_reason = reason, hdr_headers = hs\<rparr> (ps_local ps)\<rparr>)))"

section \<open>The environment\<close>

datatype env_val =
    EvStr string
  | EvNat nat
  | EvVersion nat nat
  | EvBool bool
  | EvInput
  | EvErrors
  | EvTraceCtx trace_ctx

type_synonym environ = "(string, env_val) hashmap"

definition upper :: "string \<Rightarrow> string" where
  "upper s = map ascii_upper s"

definition dashes :: "string \<Rightarrow> string" where
  "dashes s = map (\<lambda>c. if c = CHR ''-'' then CHR ''_'' else c) s"

text \<open>The names are upper-cased in the request itself.\<close>

fun environ_headers ::
  "(string \<times> string) list \<Rightarrow> environ \<Rightarrow> (string \<times> string) list \<times> environ" where
  "environ_headers [] env = ([], env)"
| "environ_headers ((name, val) # hs) env =
     (let name = upper name;
          (hs', env) = environ_headers hs (hm_insert (''HTTP_'' @ dashes name) (EvStr val) env)
      in ((name, val) # hs', env))"

definition insert_some :: "string \<Rightarrow> env_val option \<Rightarrow> environ \<Rightarrow> environ" where
  "insert_some key v env = (case v of Some x \<Rightarrow> hm_insert key x env | None \<Rightarrow> env)"

definition build_environ ::
  "string \<times> u16 \<Rightarrow> http_request \<Rightarrow> environ \<times> http_request \<times> wsgi_input" where
  "build_environ server req =
     (let env = hm_insert ''REQUEST_METHOD'' (EvStr (upper (req_method req))) [];
          env = hm_insert ''SCRIPT_NAME'' (EvStr (url_path (req_url req))) env;
          env = hm_insert ''PATH_INFO'' (EvStr (url_path (req_url req))) env;
          env = insert_some ''QUERY_STRING'' (map_option EvStr (url_query (req_url req))) env;
          env = insert_some ''CONTENT_TYPE'' (map_option EvStr (req_content_type req)) env;
          env = insert_some ''CONTENT_LENGTH'' (map_option (\<lambda>b. EvNat (length b)) (req_body req)) env;
          env = hm_insert ''SERVER_NAME'' (EvStr (fst server)) env;
          env = hm_insert ''SERVER_PORT'' (EvNat (unat (snd server))) env;
          env = hm_insert ''SERVER_PROTOCOL'' (EvStr ''HTTP/1.1'') env;
          (headers, env) = environ_headers (req_headers req) env;
          env = hm_insert ''wsgi.version'' (EvVersion 1 0) env;
          env = hm_insert ''wsgi.url_scheme'' (EvStr ''http'') env;
          body = (case req_body req of Some b \<Rightarrow> b | None \<Rightarrow> []);
          env = hm_insert ''wsgi.input'' EvInput env;
          env = hm_insert ''wsgi.errors'' EvErrors env;
          env = hm_insert ''wsgi.multithread'' (EvBool True) env;
          env = hm_insert ''wsgi.multiprocess'' (EvBool True) env;
          env = hm_insert ''wsgi.run_once'' (EvBool False) env;
          env = hm_insert ''casket.trace_ctx'' (EvTraceCtx (req_context req)) env
      in (env, req\<lparr>req_headers := headers, req_body := None\<rparr>, wsgi_input_new body))"

section \<open>Application programs\<close>

text \<open>
  What Python code does with the objects it was given, one call after the other; the rest of
  the program is a function of what the call returned. \<open>Done\<close> ends it. The arguments are
  those the Rust methods receive, after pyo3 has converted them.
\<close>

datatype 'r prog =
    Done 'r
  | StartResponse string "py_obj list" "(py_err, unit) result \<Rightarrow> 'r prog"
  | InputRead "nat option" "bytes \<Rightarrow> 'r prog"
  | InputReadline "nat option" "bytes \<Rightarrow> 'r prog"
  | InputReadlines "nat option" "bytes list \<Rightarrow> 'r prog"
  | InputNext "char option \<Rightarrow> 'r prog"
  | ErrorsWrite string "unit \<Rightarrow> 'r prog"
  | ErrorsWritelines "(py_err, (py_err, py_obj) result list) result" "(py_err, unit) result \<Rightarrow> 'r prog"
  | LogCall log_level string "(py_obj \<times> py_obj) list option" "(py_err, unit) result \<Rightarrow> 'r prog"

text \<open>A line is written when the tags are acceptable, otherwise the call raises.\<close>

definition log_call ::
  "py_lib \<Rightarrow> log_level \<Rightarrow> string \<Rightarrow> (py_obj \<times> py_obj) list option \<Rightarrow> pstate \<Rightarrow> (py_err, unit) result \<times> pstate" where
  "log_call lib level msg tags ps =
     (case (case level of
              LevelInfo \<Rightarrow> log_info lib msg tags (ps_local ps)
            | LevelWarn \<Rightarrow> log_warn lib msg tags (ps_local ps)
            | LevelError \<Rightarrow> log_error lib msg tags (ps_local ps)) of
        Err e \<Rightarrow> (Err e, ps)
      | Ok line \<Rightarrow> (Ok (), ps\<lparr>ps_log := ps_log ps @ [AppLine line]\<rparr>))"

text \<open>\<open>None\<close>: a call does not return.\<close>

primrec run_prog :: "py_lib \<Rightarrow> 'r prog \<Rightarrow> pstate \<Rightarrow> ('r \<times> pstate) option" where
  "run_prog lib (Done r) = (\<lambda>ps. Some (r, ps))"
| "run_prog lib (StartResponse status headers k) =
     (\<lambda>ps. case start_response lib status headers ps of (r, ps) \<Rightarrow> run_prog lib (k r) ps)"
| "run_prog lib (InputRead sz k) =
     (\<lambda>ps. case input_read sz (ps_input ps) of (b, inp) \<Rightarrow> run_prog lib (k b) (ps\<lparr>ps_input := inp\<rparr>))"
| "run_prog lib (InputReadline sz k) =
     (\<lambda>ps. case input_readline sz (ps_input ps) of (b, inp) \<Rightarrow> run_prog lib (k b) (ps\<lparr>ps_input := inp\<rparr>))"
| "run_prog lib (InputReadlines sz k) =
     (\<lambda>ps. case input_readlines sz (ps_input ps) of
        None \<Rightarrow> None
      | Some (bs, inp) \<Rightarrow> run_prog lib (k bs) (ps\<lparr>ps_input := inp\<rparr>))"
| "run_prog lib (InputNext k) =
     (\<lambda>ps. case input_next (ps_input ps) of (c, inp) \<Rightarrow> run_prog lib (k c) (ps\<lparr>ps_input := inp\<rparr>))"
| "run_prog lib (ErrorsWrite s k) = (\<lambda>ps. run_prog lib (k ()) (errors_write s ps))"
| "run_prog lib (ErrorsWritelines lines k) =
     (\<lambda>ps. case errors_writelines lib lines ps of (r, ps) \<Rightarrow> run_prog lib (k r) ps)"
| "run_prog lib (LogCall level msg tags k) =
     (\<lambda>ps. case log_call lib level msg tags ps of (r, ps) \<Rightarrow> run_prog lib (k r) ps)"

section \<open>The response body\<close>

text \<open>
  The application, with its own states \<open>'s\<close> of an iterator: what calling it does, and what
  \<open>next\<close> on the iterator does.
\<close>

datatype iter_step = IterEnd | IterItem py_obj | IterErr py_err

record 's wsgi_app =
  wa_call :: "environ \<Rightarrow> (py_err, 's) result prog"
  wa_next :: "'s \<Rightarrow> (iter_step \<times> 's) prog"

definition next_body_chunk ::
  "py_lib \<Rightarrow> 's wsgi_app \<Rightarrow> 's \<Rightarrow> pstate \<Rightarrow> ((py_err, bytes option) result \<times> 's \<times> pstate) option" where
  "next_body_chunk lib app s ps =
     (case run_prog lib (wa_next app s) ps of
        None \<Rightarrow> None
      | Some ((step, s), ps) \<Rightarrow>
          Some ((case step of
                   IterEnd \<Rightarrow> Ok None
                 | IterErr e \<Rightarrow> Err e
                 | IterItem (PyBytes b) \<Rightarrow> Ok (Some b)
                 | IterItem v \<Rightarrow> Err (downcast_err lib ''PyBytes'' v)), s, ps))"

text \<open>One chunk is fetched ahead.\<close>

record 's bytes_iter =
  bi_next_val :: "bytes option"
  bi_iter :: 's

definition bytes_iter_new ::
  "py_lib \<Rightarrow> 's wsgi_app \<Rightarrow> 's \<Rightarrow> pstate \<Rightarrow> ((py_err, 's bytes_iter) result \<times> pstate) option" where
  "bytes_iter_new lib app s ps =
     (case next_body_chunk lib app s ps of
        None \<Rightarrow> None
      | Some (Err e, s, ps) \<Rightarrow> Some (Err e, ps)
      | Some (Ok next_val, s, ps) \<Rightarrow> Some (Ok \<lparr>bi_next_val = next_val, bi_iter = s\<rparr>, ps))"

definition bytes_iter_next ::
  "py_lib \<Rightarrow> 's wsgi_app \<Rightarrow> 's bytes_iter \<Rightarrow> pstate \<Rightarrow>
     ((py_err, bytes option) result \<times> 's bytes_iter \<times> pstate) option" where
  "bytes_iter_next lib app bi ps =
     (case next_body_chunk lib app (bi_iter bi) ps of
        None \<Rightarrow> None
      | Some (Err e, s, ps) \<Rightarrow> Some (Err e, bi\<lparr>bi_iter := s\<rparr>, ps)
      | Some (Ok next_val, s, ps) \<Rightarrow>
          Some (Ok (bi_next_val bi), \<lparr>bi_next_val = next_val, bi_iter = s\<rparr>, ps))"

section \<open>One call of the application\<close>

record exec_error =
  ee_traceback :: string
  ee_value :: string
  ee_py_err :: py_err

definition build_exec_err :: "py_err \<Rightarrow> exec_error" where
  "build_exec_err e =
     \<lparr>ee_traceback = (case pe_traceback e of Some (Ok t) \<Rightarrow> t | _ \<Rightarrow> []),
      ee_value = pe_value e, ee_py_err = e\<rparr>"

text \<open>The request comes back changed, as \<open>execute\<close> has it by \<open>&mut\<close>.\<close>

definition execute_inner ::
  "py_lib \<Rightarrow> 's wsgi_app \<Rightarrow> string \<times> u16 \<Rightarrow> http_request \<Rightarrow> pstate \<Rightarrow>
     ((py_err, response_header \<times> 's bytes_iter) result \<times> http_request \<times> pstate) option" where
  "execute_inner lib app server req ps =
     (let (env, req, inp) = build_environ server req
      in case run_prog lib (wa_call app env) (ps\<lparr>ps_input := inp\<rparr>) of
           None \<Rightarrow> None
         | Some (Err e, ps) \<Rightarrow> Some (Err e, req, ps)
         | Some (Ok it, ps) \<Rightarrow>
             (case take_response_header (ps_local ps) of
                (l, None) \<Rightarrow>
                  Some (Err (new_err ''RuntimeError'' ''start_response not called''), req, ps\<lparr>ps_local := l\<rparr>)
              | (l, Some header) \<Rightarrow>
                  (case bytes_iter_new lib app it (ps\<lparr>ps_local := l\<rparr>) of
                     None \<Rightarrow> None
                   | Some (Err e, ps) \<Rightarrow> Some (Err e, req, ps)
                   | Some (Ok bi, ps) \<Rightarrow> Some (Ok (header, bi), req, ps))))"

definition execute ::
  "py_lib \<Rightarrow> 's wsgi_app \<Rightarrow> string \<times> u16 \<Rightarrow> http_request \<Rightarrow> pstate \<Rightarrow>
     ((exec_error, response_header \<times> 's bytes_iter) result \<times> http_request \<times> pstate) option" where
  "execute lib app server req ps =
     (case execute_inner lib app server req ps of
        None \<Rightarrow> None
      | Some (Err e, req, ps) \<Rightarrow> Some (Err (build_exec_err e), req, ps)
      | Some (Ok x, req, ps) \<Rightarrow> Some (Ok x, req, ps))"

section \<open>The response for an exception\<close>

definition handle_python_exc_body_stacktrace :: "exec_error \<Rightarrow> response_header \<times> bytes" where
  "handle_python_exc_body_stacktrace err =
     (\<lparr>hdr_code = 500, hdr_reason = ''Internal Server Error'',
       hdr_headers =
         [(''Content-Length'', show_nat (length (ee_traceback err))),
          (''Content-Type'', ''text/plain; charset=UTF-8''),
          (''X-Error'', ee_value err)]\<rparr>, ee_traceback err)"

definition handle_python_exc_empty :: "response_header \<times> bytes" where
  "handle_python_exc_empty =
     (\<lparr>hdr_code = 500, hdr_reason = ''Internal Server Error'',
       hdr_headers = [(''Content-Length'', ''0'')]\<rparr>, [])"

definition handle_wsgi_exec_err :: "config \<Rightarrow> exec_error \<Rightarrow> response_header \<times> bytes" where
  "handle_wsgi_exec_err cfg err =
     (if body_stacktrace cfg then handle_python_exc_body_stacktrace err else handle_python_exc_empty)"

end
