(* ===== verification/WsgiProps.thy ===== *)
theory WsgiProps
  imports Wsgi
begin

text \<open>
  Properties of one call of the application: reading the body, the arguments of
  \<open>start_response\<close>, the environment, and what is logged.
\<close>

section \<open>Reading the request body\<close>

definition input_inv :: "wsgi_input \<Rightarrow> bool" where
  "input_inv inp \<longleftrightarrow> in_pos inp \<le> length (in_body inp)"

definition unread :: "wsgi_input \<Rightarrow> bytes" where
  "unread inp = drop (in_pos inp) (in_body inp)"

lemma wsgi_input_new_simps [simp]: "input_inv (wsgi_input_new body)" "unread (wsgi_input_new body) = body"
  by (simp_all add: input_inv_def wsgi_input_new_def unread_def)

lemma input_read_eq:
  assumes "input_inv inp"
  shows "input_read sz inp =
     (case sz of Some n \<Rightarrow> (take n (unread inp), inp\<lparr>in_pos := in_pos inp + min n (length (unread inp))\<rparr>)
               | None \<Rightarrow> (unread inp, inp\<lparr>in_pos := length (in_body inp)\<rparr>))"
  using assms by (auto simp: input_read_def input_inv_def unread_def Let_def min_def split: option.splits)

text \<open>No operation leaves the body or moves back in it, so no slice is out of range.\<close>

lemma input_read_inv: "input_inv inp \<Longrightarrow> input_inv (snd (input_read sz inp))"
  by (auto simp: input_read_eq input_inv_def unread_def split: option.splits)

lemma find_newline_eq:
  "find_newline n bs = (if CHR 0x0A \<in> set bs then Some (n + length (takeWhile (\<lambda>c. c \<noteq> CHR 0x0A) bs)) else None)"
  by (induction bs arbitrary: n) auto

lemma input_readline_eq:
  assumes "input_inv inp"
  shows "input_readline sz inp =
     (takeWhile (\<lambda>c. c \<noteq> CHR 0x0A) (unread inp),
      inp\<lparr>in_pos := in_pos inp + length (takeWhile (\<lambda>c. c \<noteq> CHR 0x0A) (unread inp))\<rparr>)"
proof (cases "CHR 0x0A \<in> set (unread inp)")
  case True
  then show ?thesis
    by (simp add: input_readline_def find_newline_eq Let_def takeWhile_eq_take [symmetric] flip: unread_def)
next
  case False
  then have tw: "takeWhile (\<lambda>c. c \<noteq> CHR 0x0A) (unread inp) = unread inp"
    by (auto simp: takeWhile_eq_all_conv)
  have "in_pos inp + length (unread inp) = length (in_body inp)"
    using assms by (simp add: unread_def input_inv_def)
  then show ?thesis
    using False by (simp add: tw input_readline_def find_newline_eq flip: unread_def)
qed

lemma input_readline_inv: "input_inv inp \<Longrightarrow> input_inv (snd (input_readline sz inp))"
  using length_takeWhile_le [of "\<lambda>c. c \<noteq> CHR 0x0A" "unread inp"]
  by (simp add: input_readline_eq input_inv_def unread_def)

lemma input_next_inv: "input_inv inp \<Longrightarrow> input_inv (snd (input_next inp))"
  by (auto simp: input_next_def input_inv_def)

text \<open>Several reads in a row.\<close>

fun read_many :: "nat list \<Rightarrow> wsgi_input \<Rightarrow> bytes list \<times> wsgi_input" where
  "read_many [] inp = ([], inp)"
| "read_many (n # ns) inp =
     (let (b, inp) = input_read (Some n) inp; (bs, inp) = read_many ns inp in (b # bs, inp))"

lemma read_many_eq:
  assumes "input_inv inp"
  shows "\<exists>bs inp'. read_many ns inp = (bs, inp') \<and> input_inv inp' \<and>
     concat bs = take (sum_list ns) (unread inp) \<and> unread inp' = drop (sum_list ns) (unread inp)"
  using assms
proof (induction ns arbitrary: inp)
  case Nil
  then show ?case by simp
next
  case (Cons n ns)
  obtain inp1 where r: "input_read (Some n) inp = (take n (unread inp), inp1)"
    and u: "unread inp1 = drop n (unread inp)"
    using Cons.prems input_read_eq [OF Cons.prems, of "Some n"] by (fastforce simp: unread_def add.commute min_def)
  have "input_inv inp1" using input_read_inv [OF Cons.prems, of "Some n"] r by simp
  from Cons.IH [OF this] obtain bs inp' where
    "read_many ns inp1 = (bs, inp')" "input_inv inp'"
    "concat bs = take (sum_list ns) (drop n (unread inp))" "unread inp' = drop (sum_list ns) (drop n (unread inp))"
    unfolding u by blast
  with r show ?case by (auto simp: take_add add.commute)
qed

text \<open>C37: however an application cuts the request body into reads, it gets the body's bytes in
  order, each once: the first reads give its beginning, and a read of everything the rest;
  no read goes beyond its end.\<close>

theorem body_reads_in_order:
  "\<exists>bs inp. read_many ns (wsgi_input_new body) = (bs, inp) \<and> concat bs = take (sum_list ns) body \<and>
     (\<exists>inp'. input_read None inp = (drop (sum_list ns) body, inp') \<and> (\<forall>sz. fst (input_read sz inp') = []))"
proof -
  obtain bs inp where r: "read_many ns (wsgi_input_new body) = (bs, inp)" and i: "input_inv inp"
    and c: "concat bs = take (sum_list ns) body" and u: "unread inp = drop (sum_list ns) body"
    using read_many_eq [of "wsgi_input_new body" ns] by auto
  let ?inp = "inp\<lparr>in_pos := length (in_body inp)\<rparr>"
  have "input_read None inp = (drop (sum_list ns) body, ?inp)" using i u by (simp add: input_read_eq)
  moreover have "fst (input_read sz ?inp) = []" for sz
    by (simp add: input_read_def Let_def split: option.split)
  ultimately show ?thesis using r c by blast
qed

section \<open>Lines\<close>

lemma readlines_bound:
  assumes "readlines_loop sz n ls inp = Some y"
  shows "\<exists>m. sz = Some m \<and> n \<le> m"
proof (rule readlines_loop.raw_induct [OF _ assms])
  fix again sz and n :: nat and ls inp y
  assume ih: "\<And>sz n ls inp y. again sz n ls inp = Some y \<Longrightarrow> \<exists>m. sz = Some m \<and> n \<le> m"
    and eq: "(let (ln, inp) = input_readline None inp; ls = ls @ [ln]
      in if sz = Some n then Some (ls, inp) else again sz (n + 1) ls inp) = Some y"
  show "\<exists>m. sz = Some m \<and> n \<le> m"
  proof (cases "sz = Some n")
    case False
    then have "again sz (n + 1) (ls @ [fst (input_readline None inp)]) (snd (input_readline None inp)) = Some y"
      using eq by (simp add: Let_def split_beta)
    from ih [OF this] show ?thesis by auto
  qed simp
qed

lemma readlines_some:
  "\<exists>y. readlines_loop (Some (n + m)) n ls inp = Some y"
proof (induction m arbitrary: n ls inp)
  case 0
  show ?case by (subst readlines_loop.simps) (simp add: Let_def split_beta)
next
  case (Suc m)
  show ?case
    by (subst readlines_loop.simps) (use Suc [of "Suc n"] in \<open>simp add: Let_def split_beta\<close>)
qed

text \<open>C38: (a defect) \<open>wsgi.input.readlines()\<close> returns only when it is given a positive number of
  lines: without a size, or with size 0, it never returns, whatever the body, and the thread
  (which holds the interpreter lock) is lost.\<close>

theorem readlines_returns_iff:
  "input_readlines sz inp \<noteq> None \<longleftrightarrow> (\<exists>m. sz = Some (Suc m))"
proof
  assume "input_readlines sz inp \<noteq> None"
  then obtain y where "readlines_loop sz 1 [] inp = Some y" by (auto simp: input_readlines_def)
  from readlines_bound [OF this] show "\<exists>m. sz = Some (Suc m)" by (metis One_nat_def Suc_le_D)
next
  assume "\<exists>m. sz = Some (Suc m)"
  then show "input_readlines sz inp \<noteq> None"
    using readlines_some [of 1] by (auto simp: input_readlines_def)
qed

fun readline_many :: "nat \<Rightarrow> wsgi_input \<Rightarrow> bytes list \<times> wsgi_input" where
  "readline_many 0 inp = ([], inp)"
| "readline_many (Suc k) inp =
     (let (b, inp) = input_readline None inp; (bs, inp) = readline_many k inp in (b # bs, inp))"

lemma readline_stuck:
  "takeWhile (\<lambda>c. c \<noteq> CHR 0x0A) (unread inp) = [] \<Longrightarrow> input_inv inp \<Longrightarrow> readline_many k inp = (replicate k [], inp)"
  by (induction k) (simp_all add: input_readline_eq)

text \<open>(a defect) \<open>readline\<close> stops before a newline and never passes it: of a body with a
  newline the application gets the first line without its end, then only empty strings, and
  every other line is out of reach of \<open>readline\<close>.\<close>

theorem readline_stops_at_newline:
  assumes "CHR 0x0A \<notin> set ln"
  shows "\<exists>inp. readline_many (Suc k) (wsgi_input_new (ln @ CHR 0x0A # rest)) = (ln # replicate k [], inp) \<and>
     unread inp = CHR 0x0A # rest"
proof -
  let ?body = "ln @ CHR 0x0A # rest"
  have tw: "takeWhile (\<lambda>c. c \<noteq> CHR 0x0A) ?body = ln"
    using assms by (subst takeWhile_append2) auto
  let ?inp = "(wsgi_input_new ?body)\<lparr>in_pos := length ln\<rparr>"
  have r: "input_readline None (wsgi_input_new ?body) = (ln, ?inp)"
    using input_readline_eq [of "wsgi_input_new ?body" None] by (simp add: tw) (simp add: wsgi_input_new_def)
  have u: "unread ?inp = CHR 0x0A # rest" and i: "input_inv ?inp"
    by (simp_all add: unread_def wsgi_input_new_def input_inv_def)
  have "readline_many k ?inp = (replicate k [], ?inp)" by (rule readline_stuck) (use u i in simp_all)
  with r u show ?thesis by simp
qed

theorem readline_stops_at_newline_witness:
  "\<exists>inp. readline_many 3 (wsgi_input_new (''a=1'' @ CHR 0x0A # ''b=2'')) = ([''a=1'', [], []], inp) \<and>
     unread inp = CHR 0x0A # ''b=2''"
  using readline_stops_at_newline [of "''a=1''" 2 "''b=2''"] by (simp add: numeral_eq_Suc)

section \<open>start_response\<close>

definition status_of :: "py_lib \<Rightarrow> string \<Rightarrow> (u16 \<times> string) option" where
  "status_of lib status =
     (case parse_response lib (''HTTP/1.1 '' @ status @ crlf) of
        Ok (Some code, Some reason) \<Rightarrow> Some (code, reason)
      | _ \<Rightarrow> None)"

lemma parse_status_cases:
  "case status_of lib status of
     Some x \<Rightarrow> parse_status lib status = Ok x
   | None \<Rightarrow> \<exists>e. parse_status lib status = Err e"
  by (auto simp: parse_status_def status_of_def Let_def split: result.splits option.splits)

fun pair_of :: "py_obj \<Rightarrow> (string \<times> string) option" where
  "pair_of (PyTuple [PyStr _ key, PyStr _ val]) = Some (key, val)"
| "pair_of _ = None"

lemma start_headers_cases:
  "case those (map pair_of hs) of
     Some xs \<Rightarrow> start_headers lib hs acc = Ok (acc @ xs)
   | None \<Rightarrow> \<exists>e. start_headers lib hs acc = Err e"
proof (induction lib hs acc rule: start_headers.induct)
  case (2 lib h hs acc)
  show ?case
  proof (cases "length h = 2")
    case True
    then obtain k v where h: "h = [k, v]" by (auto simp: numeral_2_eq_2 length_Suc_conv)
    show ?thesis
      using "2.IH" True
      by (cases k; cases v) (auto simp: h split: option.splits)
  next
    case False
    then have "pair_of (PyTuple h) = None" by (cases "PyTuple h" rule: pair_of.cases) auto
    with False show ?thesis by simp
  qed
qed simp_all

text \<open>C36: \<open>start_response\<close> accepts exactly a status that \<open>httparse\<close> finds a code and a reason in
  together with a list of pairs of strings; it then keeps that status and those headers, in
  order, for the response, replacing those of an earlier call; otherwise it raises and keeps
  nothing.\<close>

theorem start_response_accepts:
  "case (status_of lib status, those (map pair_of headers)) of
     (Some (code, reason), Some hs) \<Rightarrow>
       start_response lib status headers ps = (Ok (), ps\<lparr>ps_local := (ps_local ps)\<lparr>rl_header :=
         Some \<lparr>hdr_code = code, hdr_reason = reason, hdr_headers = hs\<rparr>\<rparr>\<rparr>)
   | _ \<Rightarrow> \<exists>e. start_response lib status headers ps = (Err e, ps)"
  using parse_status_cases [of lib status] start_headers_cases [where hs = headers and acc = "[]" and lib = lib]
  by (auto simp: start_response_def put_response_header_def split: option.splits)

section \<open>The environment\<close>

definition env_name :: "string \<Rightarrow> string" where
  "env_name name = dashes (upper name)"

definition put_headers :: "(string \<times> string) list \<Rightarrow> environ \<Rightarrow> environ" where
  "put_headers = fold (\<lambda>(n, v). hm_insert (''HTTP_'' @ env_name n) (EvStr v))"

lemma environ_headers_eq: "environ_headers hs env = (map (\<lambda>(n, v). (upper n, v)) hs, put_headers hs env)"
  by (induction hs env rule: environ_headers.induct)
    (simp_all add: put_headers_def env_name_def split_beta Let_def)

lemma put_headers_get:
  "hm_get (put_headers hs env) (''HTTP_'' @ x) =
     (case map_of (rev (map (\<lambda>(n, v). (env_name n, v)) hs)) x of
        Some v \<Rightarrow> Some (EvStr v) | None \<Rightarrow> hm_get env (''HTTP_'' @ x))"
  unfolding put_headers_def
  by (induction hs arbitrary: env) (auto simp: map_add_def split: option.splits)

lemma put_headers_other: "take 5 k \<noteq> ''HTTP_'' \<Longrightarrow> hm_get (put_headers hs env) k = hm_get env k"
  unfolding put_headers_def
  by (induction hs arbitrary: env) auto

lemma insert_some_get [simp]:
  "hm_get (insert_some k v env) x = (if x = k \<and> v \<noteq> None then v else hm_get env x)"
  by (auto simp: insert_some_def split: option.split)

text \<open>C35: the environment of a call: the request's method in upper case, its path (as script name
  and as path), query, content type and the length of its body, the server's name and port,
  the objects and the trace context; and for each header its last value under the name in
  upper case with underscores for dashes (so \<open>X-User\<close> and \<open>X_User\<close> share one entry). The
  body moves to \<open>wsgi.input\<close>.\<close>

theorem environ_entries:
  "\<exists>env. build_environ server req =
     (env, req\<lparr>req_headers := map (\<lambda>(n, v). (upper n, v)) (req_headers req), req_body := None\<rparr>,
      wsgi_input_new (case req_body req of Some b \<Rightarrow> b | None \<Rightarrow> [])) \<and>
    map (hm_get env) [''REQUEST_METHOD'', ''SCRIPT_NAME'', ''PATH_INFO'', ''QUERY_STRING'', ''CONTENT_TYPE'',
        ''CONTENT_LENGTH'', ''SERVER_NAME'', ''SERVER_PORT'', ''SERVER_PROTOCOL'', ''wsgi.version'',
        ''wsgi.url_scheme'', ''wsgi.input'', ''wsgi.errors'', ''wsgi.multithread'', ''wsgi.multiprocess'',
        ''wsgi.run_once'', ''casket.trace_ctx''] =
      [Some (EvStr (upper (req_method req))), Some (EvStr (url_path (req_url req))),
       Some (EvStr (url_path (req_url req))), map_option EvStr (url_query (req_url req)),
       map_option EvStr (req_content_type req), map_option (\<lambda>b. EvNat (length b)) (req_body req),
       Some (EvStr (fst server)), Some (EvNat (unat (snd server))), Some (EvStr ''HTTP/1.1''),
       Some (EvVersion 1 0), Some (EvStr ''http''), Some EvInput, Some EvErrors, Some (EvBool True),
       Some (EvBool True), Some (EvBool False), Some (EvTraceCtx (req_context req))] \<and>
    (\<forall>x. hm_get env (''HTTP_'' @ x) =
       map_option EvStr (map_of (rev (map (\<lambda>(n, v). (env_name n, v)) (req_headers req))) x))"
  by (simp add: build_environ_def environ_headers_eq put_headers_other put_headers_get [simplified] Let_def split: option.split)

section \<open>What a call may change\<close>

text \<open>
  From one state to a later one of the same request: the context stays, and the log grows by
  lines that, where they are the application's, end with that context (what it writes to
  \<open>wsgi.errors\<close> has no context).
\<close>

definition line_of :: "trace_ctx option \<Rightarrow> thread_log \<Rightarrow> bool" where
  "line_of ctx l \<longleftrightarrow>
     (case l of
        AppLine ln \<Rightarrow> (\<exists>es. ll_entries ln = es @ context_entries ctx)
      | AppError _ \<Rightarrow> True
      | ExecFailed c _ _ \<Rightarrow> ctx = Some c)"

definition logs_on :: "pstate \<Rightarrow> pstate \<Rightarrow> bool" where
  "logs_on ps ps' \<longleftrightarrow>
     rl_context (ps_local ps') = rl_context (ps_local ps) \<and>
     (\<exists>more. ps_log ps' = ps_log ps @ more \<and> list_all (line_of (rl_context (ps_local ps))) more)"

lemma logs_on_refl [simp]: "logs_on ps ps"
  by (simp add: logs_on_def)

lemma logs_on_trans: "logs_on ps ps' \<Longrightarrow> logs_on ps' ps'' \<Longrightarrow> logs_on ps ps''"
  by (auto simp: logs_on_def)

lemma logs_on_input [simp]: "logs_on ps (ps\<lparr>ps_input := i\<rparr>)"
  by (simp add: logs_on_def)

lemma logs_on_errors_write [simp]: "logs_on ps (errors_write s ps)"
  by (simp add: logs_on_def errors_write_def line_of_def)

lemma logs_on_writelines: "logs_on ps (snd (writelines_loop lib ls ps))"
proof (induction lib ls ps rule: writelines_loop.induct)
  case (3 lib l ls ps)
  show ?case
  proof (cases l)
    case (PyStr utf8 lossy)
    show ?thesis
      using "3.IH" [OF PyStr] logs_on_trans [OF logs_on_errors_write]
      by (cases "to_str lib utf8 lossy") (simp_all add: PyStr)
  qed simp_all
qed simp_all

lemma logs_on_start_response: "logs_on ps (snd (start_response lib status headers ps))"
  by (auto simp: start_response_def logs_on_def put_response_header_def split: result.splits)

lemma logs_on_log_call: "logs_on ps (snd (log_call lib level msg tags ps))"
  by (auto simp: log_call_def log_info_def log_warn_def log_error_def app_log_Ok logs_on_def line_of_def
      split: result.splits log_level.splits)

lemma logs_on_errors_writelines: "logs_on ps (snd (errors_writelines lib ls ps))"
  by (cases ls) (simp_all add: errors_writelines_def logs_on_writelines)

lemma run_prog_logs: "run_prog lib p ps = Some (r, ps') \<Longrightarrow> logs_on ps ps'"
proof (induction p arbitrary: ps)
  case (Done x)
  then show ?case by simp
next
  case (StartResponse status headers k)
  then show ?case
    by (intro logs_on_trans [OF logs_on_start_response StartResponse.IH [OF rangeI]]) (simp add: split_beta)
next
  case (InputRead sz k)
  then show ?case by (intro logs_on_trans [OF logs_on_input InputRead.IH [OF rangeI]]) (simp add: split_beta)
next
  case (InputReadline sz k)
  then show ?case by (intro logs_on_trans [OF logs_on_input InputReadline.IH [OF rangeI]]) (simp add: split_beta)
next
  case (InputReadlines sz k)
  then obtain bs inp where "input_readlines sz (ps_input ps) = Some (bs, inp)"
    by (auto split: option.splits)
  with InputReadlines.prems show ?case
    by (intro logs_on_trans [OF logs_on_input InputReadlines.IH [OF rangeI]]) simp
next
  case (InputNext k)
  then show ?case by (intro logs_on_trans [OF logs_on_input InputNext.IH [OF rangeI]]) (simp add: split_beta)
next
  case (ErrorsWrite s k)
  then show ?case by (intro logs_on_trans [OF logs_on_errors_write ErrorsWrite.IH [OF rangeI]]) simp
next
  case (ErrorsWritelines ls k)
  then show ?case
    by (intro logs_on_trans [OF logs_on_errors_writelines ErrorsWritelines.IH [OF rangeI]]) (simp add: split_beta)
next
  case (LogCall level msg tags k)
  then show ?case
    by (intro logs_on_trans [OF logs_on_log_call LogCall.IH [OF rangeI]]) (simp add: split_beta)
qed

lemma next_body_chunk_logs: "next_body_chunk lib app s ps = Some (r, s', ps') \<Longrightarrow> logs_on ps ps'"
  by (auto simp: next_body_chunk_def split: option.splits prod.splits dest: run_prog_logs)

lemma bytes_iter_new_logs: "bytes_iter_new lib app s ps = Some (r, ps') \<Longrightarrow> logs_on ps ps'"
  by (auto simp: bytes_iter_new_def split: option.splits prod.splits result.splits dest: next_body_chunk_logs)

lemma bytes_iter_next_logs: "bytes_iter_next lib app bi ps = Some (r, bi', ps') \<Longrightarrow> logs_on ps ps'"
  by (auto simp: bytes_iter_next_def split: option.splits prod.splits result.splits dest: next_body_chunk_logs)

lemma logs_on_take_header [simp]: "logs_on ps (ps\<lparr>ps_local := (ps_local ps)\<lparr>rl_header := h\<rparr>\<rparr>)"
  by (simp add: logs_on_def)

lemma execute_inner_logs:
  assumes "execute_inner lib app server req ps = Some (r, req', ps')"
  shows "logs_on ps ps'"
proof -
  obtain env req1 inp where b: "build_environ server req = (env, req1, inp)" by (rule prod_cases3)
  from assms b obtain x ps1 where x: "run_prog lib (wa_call app env) (ps\<lparr>ps_input := inp\<rparr>) = Some (x, ps1)"
    by (auto simp: execute_inner_def split: option.splits)
  have l1: "logs_on ps ps1" by (rule logs_on_trans [OF logs_on_input run_prog_logs [OF x]])
  show ?thesis
  proof (cases x)
    case (Err e)
    with assms b x l1 show ?thesis by (simp add: execute_inner_def)
  next
    case (Ok it)
    let ?ps2 = "ps1\<lparr>ps_local := (ps_local ps1)\<lparr>rl_header := None\<rparr>\<rparr>"
    have l2: "logs_on ps ?ps2" by (rule logs_on_trans [OF l1 logs_on_take_header])
    show ?thesis
      using assms b x Ok l2 logs_on_trans [OF l2 bytes_iter_new_logs [of lib app it ?ps2]]
      by (auto simp: execute_inner_def take_response_header_def split: option.splits result.splits)
  qed
qed

lemma execute_logs:
  assumes "execute lib app server req ps = Some (r, req', ps')"
  shows "logs_on ps ps'"
proof -
  obtain r1 where "execute_inner lib app server req ps = Some (r1, req', ps')"
    using assms by (auto simp: execute_def split: option.splits result.splits prod.splits)
  then show ?thesis by (rule execute_inner_logs)
qed

text \<open>The call changes the request only as \<open>build_environ\<close> does.\<close>

lemma execute_req:
  "execute lib app server req ps = Some (r, req', ps') \<Longrightarrow>
     req' = req\<lparr>req_headers := map (\<lambda>(n, v). (upper n, v)) (req_headers req), req_body := None\<rparr>"
  by (auto simp: execute_def execute_inner_def build_environ_def environ_headers_eq Let_def
      split: option.splits result.splits prod.splits)

section \<open>The log is only appended to\<close>

definition after_log :: "thread_log list \<Rightarrow> pstate \<Rightarrow> pstate" where
  "after_log old ps = ps\<lparr>ps_log := old @ ps_log ps\<rparr>"

lemma after_log_simps [simp]:
  "ps_local (after_log old ps) = ps_local ps" "ps_input (after_log old ps) = ps_input ps"
  "ps_log (after_log old ps) = old @ ps_log ps"
  "(after_log old ps)\<lparr>ps_input := i\<rparr> = after_log old (ps\<lparr>ps_input := i\<rparr>)"
  "(after_log old ps)\<lparr>ps_local := l\<rparr> = after_log old (ps\<lparr>ps_local := l\<rparr>)"
  "errors_write s (after_log old ps) = after_log old (errors_write s ps)"
  "(after_log old ps)\<lparr>ps_log := (old @ ps_log ps) @ ls\<rparr> = after_log old (ps\<lparr>ps_log := ps_log ps @ ls\<rparr>)"
  by (simp_all add: after_log_def errors_write_def)

lemma after_log_start_response:
  "start_response lib status headers (after_log old ps) = apsnd (after_log old) (start_response lib status headers ps)"
  by (auto simp: start_response_def split: result.splits)

lemma after_log_writelines:
  "writelines_loop lib ls (after_log old ps) = apsnd (after_log old) (writelines_loop lib ls ps)"
proof (induction lib ls ps rule: writelines_loop.induct)
  case (3 lib l ls ps)
  show ?case
  proof (cases l)
    case (PyStr utf8 lossy)
    show ?thesis using "3.IH" [OF PyStr] by (cases "to_str lib utf8 lossy") (simp_all add: PyStr)
  qed simp_all
qed simp_all

lemma after_log_errors_writelines:
  "errors_writelines lib ls (after_log old ps) = apsnd (after_log old) (errors_writelines lib ls ps)"
  by (cases ls) (simp_all add: errors_writelines_def after_log_writelines)

lemma after_log_log_call:
  "log_call lib level msg tags (after_log old ps) = apsnd (after_log old) (log_call lib level msg tags ps)"
  by (cases level) (auto simp: log_call_def simp del: append_assoc split: result.split)

lemma after_log_run:
  "run_prog lib p (after_log old ps) = map_option (apsnd (after_log old)) (run_prog lib p ps)"
  by (induction p arbitrary: ps)
    (simp_all add: after_log_start_response after_log_errors_writelines after_log_log_call split_beta
      split: option.split)

lemma after_log_chunk:
  "next_body_chunk lib app s (after_log old ps) =
     map_option (apsnd (apsnd (after_log old))) (next_body_chunk lib app s ps)"
  by (auto simp: next_body_chunk_def after_log_run split: option.split)

lemma after_log_new:
  "bytes_iter_new lib app s (after_log old ps) = map_option (apsnd (after_log old)) (bytes_iter_new lib app s ps)"
  by (auto simp: bytes_iter_new_def after_log_chunk split: option.split result.split)

lemma after_log_next:
  "bytes_iter_next lib app bi (after_log old ps) =
     map_option (apsnd (apsnd (after_log old))) (bytes_iter_next lib app bi ps)"
  by (auto simp: bytes_iter_next_def after_log_chunk split: option.split result.split)

lemma after_log_execute:
  "execute lib app server req (after_log old ps) =
     map_option (apsnd (apsnd (after_log old))) (execute lib app server req ps)"
proof -
  have "execute_inner lib app server req (after_log old ps) =
      map_option (apsnd (apsnd (after_log old))) (execute_inner lib app server req ps)"
    by (auto simp: execute_inner_def after_log_run after_log_new take_response_header_def split_beta Let_def
        split: option.split result.split)
  then show ?thesis by (auto simp: execute_def split: option.split result.split)
qed

end
