(* ===== verification/PythonExec.thy ===== *)
theory PythonExec
  imports Wsgi Workq
begin

text \<open>
  \<open>src/pythonexec/mod.rs\<close>: loading the application, starting the threads, and the loop of a
  thread: for each request it reports the start, calls the application, sends the response
  and then its body, part by part.
\<close>

section \<open>Loading the application\<close>

text \<open>The file system and the interpreter: modules are \<open>'m\<close>, objects \<open>'o\<close>.\<close>

record ('m, 'o) py_host =
  read_file :: "string \<Rightarrow> (string, string) result"
  add_casket_modules :: "(py_err, unit) result"
  from_code :: "string \<Rightarrow> string \<Rightarrow> string \<Rightarrow> (py_err, 'm) result"
  get_attr :: "'m \<Rightarrow> string \<Rightarrow> (py_err, 'o) result"

definition load_application :: "('m, 'o) py_host \<Rightarrow> string \<Rightarrow> string \<Rightarrow> (py_err, 'o) result" where
  "load_application host mod_name func_name =
     (let fname = mod_name @ ''.py''
      in case read_file host fname of
           Err e \<Rightarrow> Err (new_err ''RuntimeError'' e)
         | Ok code \<Rightarrow>
             (case from_code host code fname mod_name of
                Err e \<Rightarrow> Err e
              | Ok m \<Rightarrow> get_attr host m func_name))"

definition application_load :: "('m, 'o) py_host \<Rightarrow> string \<Rightarrow> (py_err, 'o) result" where
  "application_load host app_str =
     (let parts = split_at_char (CHR '':'') app_str
      in if length parts \<noteq> 2 then Err (new_err ''RuntimeError'' ''invalid python app string'')
         else
           (case add_casket_modules host of
              Err e \<Rightarrow> Err e
            | Ok _ \<Rightarrow> load_application host (parts ! 0) (parts ! 1)))"

section \<open>Starting the threads\<close>

text \<open>Each thread gets a receiver of the work queue.\<close>

fun spawn_loop :: "nat \<Rightarrow> 'a sender \<Rightarrow> 'a sender" where
  "spawn_loop 0 s = s"
| "spawn_loop (Suc n) s = spawn_loop n (new_recv s)"

definition spawn :: "config \<Rightarrow> 'a sender" where
  "spawn cfg = spawn_loop (num_threads cfg) workq_new"

section \<open>Streaming a body\<close>

datatype 's resp_source = Memory bytes | PyIterator "'s bytes_iter"

text \<open>
  The loop over \<open>bytes_iter.next()\<close> for a number of rounds: the chunks sent, and whether it
  has ended, would go on, or is in a call that does not return. A failed send is ignored.
\<close>

datatype 's stream_end = StreamDone pstate | StreamMore "'s bytes_iter" pstate | StreamStuck

fun stream_body ::
  "py_lib \<Rightarrow> 's wsgi_app \<Rightarrow> nat \<Rightarrow> 's bytes_iter \<Rightarrow> pstate \<Rightarrow> bytes list \<times> 's stream_end" where
  "stream_body lib app 0 bi ps = ([], StreamMore bi ps)"
| "stream_body lib app (Suc rounds) bi ps =
     (case bytes_iter_next lib app bi ps of
        None \<Rightarrow> ([], StreamStuck)
      | Some (Ok None, bi, ps) \<Rightarrow> ([], StreamDone ps)
      | Some (Err _, bi, ps) \<Rightarrow> stream_body lib app rounds bi ps
      | Some (Ok (Some body_chunk), bi, ps) \<Rightarrow>
          (let (chunks, e) = stream_body lib app rounds bi ps in (body_chunk # chunks, e)))"

section \<open>A thread\<close>

text \<open>What a thread sends; \<open>BodyClosed\<close> is the drop of the body's sender.\<close>

datatype thread_msg =
    CodeStart usize systime
  | Response usize http_response
  | BodyPart body_rx bytes
  | BodyClosed body_rx

record thread_state =
  ts_local :: reqlocal
  ts_log :: "thread_log list"
  ts_msgs :: "thread_msg list"

text \<open>
  One request received, the application as it behaves for it, the time, and whether the worker
  still listens to the two channels.
\<close>

record 's py_call =
  pc_key :: usize
  pc_req :: http_request
  pc_app :: "'s wsgi_app"
  pc_now :: systime
  pc_start_ok :: bool
  pc_resp_ok :: bool

text \<open>
  After a request: the thread takes the next one, has returned because the worker is gone, or
  is still in the call or in the body.
\<close>

datatype served =
    Served thread_state
  | MainDied thread_state
  | InCall thread_state
  | InBody thread_state

definition send_msgs :: "thread_msg list \<Rightarrow> thread_state \<Rightarrow> thread_state" where
  "send_msgs ms ts = ts\<lparr>ts_msgs := ts_msgs ts @ ms\<rparr>"

text \<open>The header and the body of a call that has ended, and the log.\<close>

definition response_of ::
  "config \<Rightarrow> trace_ctx \<Rightarrow> (exec_error, response_header \<times> 's bytes_iter) result \<Rightarrow> thread_log list \<Rightarrow>
     response_header \<times> 's resp_source \<times> thread_log list" where
  "response_of cfg ctx r log =
     (case r of
        Ok (header, bi) \<Rightarrow> (header, PyIterator bi, log)
      | Err ee \<Rightarrow>
          (let (header, body) = handle_wsgi_exec_err cfg ee
           in (header, Memory body, log @ [ExecFailed ctx (ee_value ee) (ee_traceback ee)])))"

text \<open>\<open>ch\<close> names the body channel made for the request.\<close>

definition send_body ::
  "py_lib \<Rightarrow> 's wsgi_app \<Rightarrow> nat \<Rightarrow> body_rx \<Rightarrow> 's resp_source \<Rightarrow> pstate \<Rightarrow> thread_state \<Rightarrow> served" where
  "send_body lib app rounds ch src ps ts =
     (case src of
        Memory body \<Rightarrow> Served (send_msgs [BodyPart ch body, BodyClosed ch] ts)
      | PyIterator bi \<Rightarrow>
          (let (chunks, e) = stream_body lib app rounds bi ps;
               ts = send_msgs (map (BodyPart ch) chunks) ts
           in case e of
                StreamDone ps \<Rightarrow>
                  Served (send_msgs [BodyClosed ch] (ts\<lparr>ts_local := ps_local ps, ts_log := ps_log ps\<rparr>))
              | _ \<Rightarrow> InBody ts))"

definition serve_request ::
  "py_lib \<Rightarrow> config \<Rightarrow> string \<times> u16 \<Rightarrow> nat \<Rightarrow> body_rx \<Rightarrow> 's py_call \<Rightarrow> thread_state \<Rightarrow> served" where
  "serve_request lib cfg server rounds ch call ts =
     (let req = pc_req call;
          l = set_context (req_context req) (init_req_thread (ts_local ts));
          ts = ts\<lparr>ts_local := l\<rparr>
      in if \<not> pc_start_ok call then MainDied ts
         else
           (let ts = send_msgs [CodeStart (pc_key call) (pc_now call)] ts
            in case execute lib (pc_app call) server req
                      \<lparr>ps_local = l, ps_input = wsgi_input_new [], ps_log = ts_log ts\<rparr> of
                 None \<Rightarrow> InCall ts
               | Some (r, req, ps) \<Rightarrow>
                   (let (header, src, log) = response_of cfg (req_context req) r (ps_log ps);
                        ps = ps\<lparr>ps_log := log\<rparr>;
                        ts = ts\<lparr>ts_local := ps_local ps, ts_log := log\<rparr>;
                        http_resp = into_http_response req header ch
                    in if \<not> pc_resp_ok call then MainDied ts
                       else send_body lib (pc_app call) rounds ch src ps
                              (send_msgs [Response (pc_key call) http_resp] ts))))"

fun run_thread ::
  "py_lib \<Rightarrow> config \<Rightarrow> string \<times> u16 \<Rightarrow> nat \<Rightarrow> body_rx \<Rightarrow> 's py_call list \<Rightarrow> thread_state \<Rightarrow> served" where
  "run_thread lib cfg server rounds ch [] ts = Served ts"
| "run_thread lib cfg server rounds ch (call # calls) ts =
     (case serve_request lib cfg server rounds ch call ts of
        Served ts \<Rightarrow> run_thread lib cfg server rounds (ch + 1) calls ts
      | other \<Rightarrow> other)"

end
