(* ===== verification/PythonExecProps.thy ===== *)
theory PythonExecProps
  imports PythonExec WsgiProps PythonThreads
begin

text \<open>
  Properties of the Python threads: what a thread sends for each request it receives, how an
  iterator becomes the parts of a body, what an exception becomes, and that no request sees
  another.
\<close>

section \<open>Starting\<close>

text \<open>The queue \<open>spawn\<close> returns has one live channel per thread; the worker's start needs no more.\<close>

lemma spawn_loop_eq: "spawn_loop n s = s\<lparr>senders := senders s @ replicate n chan_new\<rparr>"
  by (induction n arbitrary: s) (simp_all add: new_recv_def)

lemma spawn_inv: "sender_inv (spawn cfg)" "length (senders (spawn cfg)) = num_threads cfg"
  by (auto simp: spawn_def sender_inv_def workq_new_def spawn_loop_eq)

text \<open>The program's argument is accepted only as \<open>file:function\<close> with exactly one colon; the
  file read is the first part with \<open>.py\<close>, and the callable is looked up in the module made of it
  under the second part, once the logger module is in place.\<close>

theorem application_loaded:
  "application_load host app_str = Ok f \<longleftrightarrow>
     (\<exists>mod_name func_name code m. app_str = mod_name @ '':'' @ func_name \<and>
        CHR '':'' \<notin> set mod_name \<and> CHR '':'' \<notin> set func_name \<and> add_casket_modules host = Ok () \<and>
        read_file host (mod_name @ ''.py'') = Ok code \<and>
        from_code host code (mod_name @ ''.py'') mod_name = Ok m \<and> get_attr host m func_name = Ok f)"
proof -
  have two: "length (split_at_char (CHR '':'') s) = 2 \<longleftrightarrow> (\<exists>a b. split_at_char (CHR '':'') s = [a, b])" for s
    by (auto simp: numeral_2_eq_2 length_Suc_conv)
  have split: "split_at_char (CHR '':'') s = [a, b] \<longleftrightarrow>
      s = a @ '':'' @ b \<and> CHR '':'' \<notin> set a \<and> CHR '':'' \<notin> set b" for s a b
  proof
    assume "split_at_char (CHR '':'') s = [a, b]"
    from split_at_char_parts [OF this] show "s = a @ '':'' @ b \<and> CHR '':'' \<notin> set a \<and> CHR '':'' \<notin> set b" by simp
  next
    assume "s = a @ '':'' @ b \<and> CHR '':'' \<notin> set a \<and> CHR '':'' \<notin> set b"
    then show "split_at_char (CHR '':'') s = [a, b]"
      using split_at_char_append [of "CHR '':''" a b] split_at_char_no_sep [of "CHR '':''" b] by simp
  qed
  have rhs: "(\<exists>mod_name func_name code m. app_str = mod_name @ '':'' @ func_name \<and>
        CHR '':'' \<notin> set mod_name \<and> CHR '':'' \<notin> set func_name \<and> P mod_name func_name code m) \<longleftrightarrow>
      (\<exists>a b. split_at_char (CHR '':'') app_str = [a, b] \<and> (\<exists>code m. P a b code m))" for P
    unfolding split by blast
  show ?thesis
    unfolding rhs
  proof (cases "\<exists>a b. split_at_char (CHR '':'') app_str = [a, b]")
    case True
    then obtain a b where "split_at_char (CHR '':'') app_str = [a, b]" by blast
    then show "application_load host app_str = Ok f \<longleftrightarrow>
      (\<exists>a b. split_at_char (CHR '':'') app_str = [a, b] \<and> (\<exists>code m. add_casket_modules host = Ok () \<and>
        read_file host (a @ ''.py'') = Ok code \<and> from_code host code (a @ ''.py'') a = Ok m \<and> get_attr host m b = Ok f))"
      by (auto simp: application_load_def load_application_def Let_def split: result.splits)
  next
    case False
    then have "application_load host app_str = Err (new_err ''RuntimeError'' ''invalid python app string'')"
      using two [of app_str] by (simp add: application_load_def)
    with False show "application_load host app_str = Ok f \<longleftrightarrow>
      (\<exists>a b. split_at_char (CHR '':'') app_str = [a, b] \<and> (\<exists>code m. add_casket_modules host = Ok () \<and>
        read_file host (a @ ''.py'') = Ok code \<and> from_code host code (a @ ''.py'') a = Ok m \<and> get_attr host m b = Ok f))"
      by simp
  qed
qed

section \<open>An iterator as a body\<close>

text \<open>The outcomes of \<open>k\<close> calls of \<open>next\<close>, each as \<open>next_body_chunk\<close> sees it.\<close>

fun iter_run ::
  "py_lib \<Rightarrow> 's wsgi_app \<Rightarrow> nat \<Rightarrow> 's \<Rightarrow> pstate \<Rightarrow>
     ((py_err, bytes option) result list \<times> 's \<times> pstate) option" where
  "iter_run lib app 0 s ps = Some ([], s, ps)"
| "iter_run lib app (Suc k) s ps =
     (case next_body_chunk lib app s ps of
        None \<Rightarrow> None
      | Some (r, s, ps) \<Rightarrow>
          (case iter_run lib app k s ps of
             None \<Rightarrow> None
           | Some (rs, s, ps) \<Rightarrow> Some (r # rs, s, ps)))"

fun chunks :: "(py_err, bytes option) result list \<Rightarrow> bytes list" where
  "chunks [] = []"
| "chunks (Ok (Some b) # rs) = b # chunks rs"
| "chunks (r # rs) = chunks rs"

lemma iter_run_Cons:
  "iter_run lib app k s ps = Some (r # rs, s', ps') \<longleftrightarrow>
     (\<exists>n s1 ps1. k = Suc n \<and> next_body_chunk lib app s ps = Some (r, s1, ps1) \<and>
        iter_run lib app n s1 ps1 = Some (rs, s', ps'))"
  by (cases k) (auto split: option.splits)

lemma iter_run_Nil: "iter_run lib app k s ps = Some ([], s', ps') \<longleftrightarrow> k = 0 \<and> s' = s \<and> ps' = ps"
  by (cases k) (auto split: option.splits)

lemma stream_held:
  assumes "iter_run lib app k s ps = Some (rs @ [Ok None, Ok None], s', ps')" and "Ok None \<notin> set rs"
  shows "stream_body lib app (length rs + 2) \<lparr>bi_next_val = Some h, bi_iter = s\<rparr> ps = (h # chunks rs, StreamDone ps')"
  using assms
proof (induction rs arbitrary: k s ps h)
  case Nil
  then show ?case by (auto simp: iter_run_Cons iter_run_Nil bytes_iter_next_def)
next
  case (Cons r rs)
  then obtain n s1 ps1 where nx: "next_body_chunk lib app s ps = Some (r, s1, ps1)"
    and rest: "iter_run lib app n s1 ps1 = Some (rs @ [Ok None, Ok None], s', ps')"
    by (auto simp: iter_run_Cons)
  have new: "Ok None \<notin> set rs" using Cons.prems by simp
  show ?case
  proof (cases r)
    case (Err e)
    with nx Cons.IH [OF rest new, of h] show ?thesis by (simp add: bytes_iter_next_def)
  next
    case (Ok v)
    then obtain b where "v = Some b" using Cons.prems by (cases v) auto
    with Ok nx Cons.IH [OF rest new, of b] show ?thesis by (simp add: bytes_iter_next_def)
  qed
qed

text \<open>C32: the parts sent for a body are the chunks the application's iterator gives, each once and
  in order, and the body ends after the iterator has ended. An exception raised after the first
  chunk, like a chunk that is not \<open>bytes\<close>, is passed over in silence: the client is sent the
  chunks around it as a complete response.\<close>

theorem body_is_iterated:
  assumes "iter_run lib app k s ps = Some (rs @ [Ok None, Ok None], s', ps')" and "Ok None \<notin> set rs"
    and "rs = [] \<or> is_ok (hd rs)"
  shows "\<exists>bi ps1. bytes_iter_new lib app s ps = Some (Ok bi, ps1) \<and>
     stream_body lib app (Suc (length rs)) bi ps1 = (chunks rs, StreamDone ps')"
proof (cases rs)
  case Nil
  with assms(1) show ?thesis by (auto simp: iter_run_Cons iter_run_Nil bytes_iter_new_def bytes_iter_next_def)
next
  case (Cons r rs1)
  then obtain b where r: "r = Ok (Some b)" using assms(2,3) by (cases r) (auto simp: neq_commute [of None])
  obtain n s1 ps1 where nx: "next_body_chunk lib app s ps = Some (r, s1, ps1)"
    and rest: "iter_run lib app n s1 ps1 = Some (rs1 @ [Ok None, Ok None], s', ps')"
    using assms(1) Cons by (auto simp: iter_run_Cons)
  have "bytes_iter_new lib app s ps = Some (Ok \<lparr>bi_next_val = Some b, bi_iter = s1\<rparr>, ps1)"
    using nx r by (simp add: bytes_iter_new_def)
  moreover have "Ok None \<notin> set rs1" using assms(2) Cons by simp
  note stream_held [OF rest this, of b]
  ultimately show ?thesis by (simp add: Cons r)
qed

text \<open>The body runs one chunk behind: when the application has produced \<open>n + 1\<close>
  chunks, only \<open>n\<close> have been sent, and the last one waits for the application to produce the
  next or to end.\<close>

theorem body_runs_one_behind:
  assumes "iter_run lib app (Suc (length cs)) s ps = Some (map (Ok \<circ> Some) cs @ [Ok (Some c)], s', ps')"
  shows "\<exists>bi ps1. bytes_iter_new lib app s ps = Some (Ok bi, ps1) \<and>
     stream_body lib app (length cs) bi ps1 = (cs, StreamMore \<lparr>bi_next_val = Some c, bi_iter = s'\<rparr> ps')"
proof -
  have held: "stream_body lib app (length cs) \<lparr>bi_next_val = Some h, bi_iter = s1\<rparr> ps1 =
      (butlast (h # cs), StreamMore \<lparr>bi_next_val = Some (last (h # cs)), bi_iter = s'\<rparr> ps')"
    if "iter_run lib app (length cs) s1 ps1 = Some (map (Ok \<circ> Some) cs, s', ps')" for h cs s1 ps1
    using that
  proof (induction cs arbitrary: h s1 ps1)
    case (Cons x cs)
    then obtain s2 ps2 where nx: "next_body_chunk lib app s1 ps1 = Some (Ok (Some x), s2, ps2)"
      and "iter_run lib app (length cs) s2 ps2 = Some (map (Ok \<circ> Some) cs, s', ps')"
      by (auto split: option.splits)
    from Cons.IH [OF this(2), of x] nx show ?case by (simp add: bytes_iter_next_def)
  qed simp
  obtain x xs where cs: "cs @ [c] = x # xs" by (cases cs) auto
  have all: "map (Ok \<circ> Some) cs @ [Ok (Some c)] = map (Ok \<circ> Some) (x # xs)" by (simp flip: cs)
  have len: "length cs = length xs" using arg_cong [OF cs, of length] by simp
  obtain s1 ps1 where nx: "next_body_chunk lib app s ps = Some (Ok (Some x), s1, ps1)"
    and rest: "iter_run lib app (length xs) s1 ps1 = Some (map (Ok \<circ> Some) xs, s', ps')"
    using assms unfolding all len by (auto split: option.splits)
  have "butlast (x # xs) = cs" "last (x # xs) = c" by (simp_all flip: cs)
  with held [OF rest, of x] nx len show ?thesis by (simp add: bytes_iter_new_def)
qed

text \<open>C39: (a defect) an iterator that keeps raising after its first chunk is never given up: the
  thread asks it again for ever, sends nothing, not even the first chunk, and does not close
  the body.\<close>

theorem failing_body_never_ends:
  assumes "bytes_iter_new lib app s ps = Some (Ok bi, ps1)"
    and "\<forall>n. \<exists>rs s' ps'. iter_run lib app n (bi_iter bi) ps1 = Some (rs, s', ps') \<and> (\<forall>r \<in> set rs. \<not> is_ok r)"
  shows "\<exists>bi' ps'. stream_body lib app rounds bi ps1 = ([], StreamMore bi' ps')"
proof -
  have "\<exists>bi' ps'. stream_body lib app n bi ps1 = ([], StreamMore bi' ps')"
    if "iter_run lib app n (bi_iter bi) ps1 = Some (rs, s', ps')" and "\<forall>r \<in> set rs. \<not> is_ok r" for n rs bi ps1 s' ps'
    using that
  proof (induction n arbitrary: rs bi ps1)
    case (Suc n)
    then obtain e s2 ps2 rs2 where nx: "next_body_chunk lib app (bi_iter bi) ps1 = Some (Err e, s2, ps2)"
      and "iter_run lib app n s2 ps2 = Some (rs2, s', ps')" "\<forall>r \<in> set rs2. \<not> is_ok r"
      by (auto split: option.splits) (metis is_ok.elims(3))
    with Suc.IH [of "bi\<lparr>bi_iter := s2\<rparr>"] nx show ?case by (simp add: bytes_iter_next_def)
  qed simp
  with assms(2) show ?thesis by blast
qed

section \<open>One request after the other\<close>

definition fresh_thread :: thread_state where
  "fresh_thread = \<lparr>ts_local = reqlocal_start, ts_log = [], ts_msgs = []\<rparr>"

fun end_state :: "served \<Rightarrow> thread_state" where
  "end_state (Served ts) = ts"
| "end_state (MainDied ts) = ts"
| "end_state (InCall ts) = ts"
| "end_state (InBody ts) = ts"

fun map_served :: "(thread_state \<Rightarrow> thread_state) \<Rightarrow> served \<Rightarrow> served" where
  "map_served f (Served ts) = Served (f ts)"
| "map_served f (MainDied ts) = MainDied (f ts)"
| "map_served f (InCall ts) = InCall (f ts)"
| "map_served f (InBody ts) = InBody (f ts)"

lemma end_map_served [simp]: "end_state (map_served f r) = f (end_state r)"
  by (cases r) simp_all

lemma thread_state_all [simp]:
  "ts\<lparr>ts_local := a, ts_log := b, ts_msgs := c\<rparr> = \<lparr>ts_local = a, ts_log = b, ts_msgs = c\<rparr>" for ts :: thread_state
  by (cases ts) simp

text \<open>What a thread has logged and sent before.\<close>

definition after_state :: "thread_state \<Rightarrow> thread_state \<Rightarrow> thread_state" where
  "after_state old ts = ts\<lparr>ts_log := ts_log old @ ts_log ts, ts_msgs := ts_msgs old @ ts_msgs ts\<rparr>"

fun end_after :: "thread_log list \<Rightarrow> 's stream_end \<Rightarrow> 's stream_end" where
  "end_after old (StreamDone ps) = StreamDone (after_log old ps)"
| "end_after old (StreamMore bi ps) = StreamMore bi (after_log old ps)"
| "end_after old StreamStuck = StreamStuck"

lemma after_log_stream:
  "stream_body lib app n bi (after_log old ps) = apsnd (end_after old) (stream_body lib app n bi ps)"
proof (induction n arbitrary: bi ps)
  case (Suc n)
  show ?case
  proof (cases "bytes_iter_next lib app bi ps")
    case (Some x)
    obtain r bi1 ps1 where x: "x = (r, bi1, ps1)" by (rule prod_cases3)
    show ?thesis
    proof (cases r)
      case (Ok v)
      with Some x Suc show ?thesis by (cases v) (simp_all add: after_log_next split_beta)
    qed (use Some x Suc in \<open>simp add: after_log_next\<close>)
  qed (simp add: after_log_next)
qed simp

lemma send_body_after:
  "send_body lib app n ch src (after_log (ts_log old) ps) (after_state old ts) =
     map_served (after_state old) (send_body lib app n ch src ps ts)"
proof (cases src)
  case (PyIterator bi)
  obtain cs e where "stream_body lib app n bi ps = (cs, e)" by fastforce
  then show ?thesis
    by (cases e) (simp_all add: PyIterator send_body_def after_log_stream send_msgs_def after_state_def)
qed (simp add: send_body_def send_msgs_def after_state_def)

lemma serve_after:
  "serve_request lib cfg server n ch call ts =
     map_served (after_state ts) (serve_request lib cfg server n ch call fresh_thread)"
proof (cases "pc_start_ok call")
  case True
  let ?ctx = "req_context (pc_req call)"
  let ?l = "set_context ?ctx reqlocal_start"
  let ?ps = "\<lparr>ps_local = ?l, ps_input = wsgi_input_new [], ps_log = []\<rparr>"
  have ps: "\<lparr>ps_local = ?l, ps_input = wsgi_input_new [], ps_log = ts_log ts\<rparr> = after_log (ts_log ts) ?ps"
    by (simp add: after_log_def)
  show ?thesis
  proof (cases "execute lib (pc_app call) server (pc_req call) ?ps")
    case None
    with True show ?thesis
      by (simp add: serve_request_def Let_def ps after_log_execute fresh_thread_def send_msgs_def after_state_def)
  next
    case (Some x)
    obtain r req ps1 where x: "x = (r, req, ps1)" by (rule prod_cases3)
    obtain header src log where ro: "response_of cfg (req_context req) r (ps_log ps1) = (header, src, log)"
      by (rule prod_cases3)
    have ro': "response_of cfg (req_context req) r (ts_log ts @ ps_log ps1) = (header, src, ts_log ts @ log)"
      using ro by (auto simp: response_of_def split_beta Let_def split: result.splits)
    let ?msgs = "[CodeStart (pc_key call) (pc_now call), Response (pc_key call) (into_http_response req header ch)]"
    let ?ts1 = "\<lparr>ts_local = ps_local ps1, ts_log = log, ts_msgs = ?msgs\<rparr>"
    have ps1: "(after_log (ts_log ts) ps1)\<lparr>ps_log := ts_log ts @ log\<rparr> = after_log (ts_log ts) (ps1\<lparr>ps_log := log\<rparr>)"
      by (simp add: after_log_def)
    show ?thesis
      using True Some x ro ro' send_body_after [of lib "pc_app call" n ch src ts "ps1\<lparr>ps_log := log\<rparr>" ?ts1]
      by (simp add: serve_request_def Let_def ps ps1 after_log_execute fresh_thread_def send_msgs_def after_state_def)
  qed
qed (simp add: serve_request_def Let_def after_state_def fresh_thread_def)

text \<open>A request that is served to its end.\<close>

lemma send_body_served:
  "send_body lib app n ch src ps ts = Served ts' \<Longrightarrow>
     \<exists>cs. ts_msgs ts' = ts_msgs ts @ map (BodyPart ch) cs @ [BodyClosed ch]"
proof (cases src)
  case (Memory b)
  assume "send_body lib app n ch src ps ts = Served ts'"
  with Memory show ?thesis by (intro exI [of _ "[b]"]) (auto simp: send_body_def send_msgs_def)
next
  case (PyIterator bi)
  assume "send_body lib app n ch src ps ts = Served ts'"
  with PyIterator show ?thesis
    by (auto simp: send_body_def send_msgs_def split_beta Let_def split: stream_end.splits)
qed

lemma serve_served:
  assumes "serve_request lib cfg server n ch call fresh_thread = Served ts"
  shows "\<exists>resp cs. ts_msgs ts =
     CodeStart (pc_key call) (pc_now call) # Response (pc_key call) resp # map (BodyPart ch) cs @ [BodyClosed ch] \<and>
     resp_context resp = req_context (pc_req call) \<and> resp_body resp = Some ch"
proof -
  let ?ps = "\<lparr>ps_local = set_context (req_context (pc_req call)) reqlocal_start, ps_input = wsgi_input_new [], ps_log = []\<rparr>"
  have ok: "pc_start_ok call" "pc_resp_ok call"
    and some: "execute lib (pc_app call) server (pc_req call) ?ps \<noteq> None"
    using assms by (auto simp: serve_request_def Let_def fresh_thread_def send_msgs_def
      split: if_splits option.splits prod.splits)
  then obtain r req ps1 where x: "execute lib (pc_app call) server (pc_req call) ?ps = Some (r, req, ps1)" by auto
  obtain header src log where ro: "response_of cfg (req_context req) r (ps_log ps1) = (header, src, log)"
    by (rule prod_cases3)
  from execute_req [OF x] have c: "req_context req = req_context (pc_req call)" by simp
  from assms ok x ro have "send_body lib (pc_app call) n ch src (ps1\<lparr>ps_log := log\<rparr>)
      \<lparr>ts_local = ps_local ps1, ts_log = log, ts_msgs = [CodeStart (pc_key call) (pc_now call),
         Response (pc_key call) (into_http_response req header ch)]\<rparr> = Served ts"
    by (simp add: serve_request_def Let_def fresh_thread_def send_msgs_def)
  from send_body_served [OF this] obtain cs where
    "ts_msgs ts = CodeStart (pc_key call) (pc_now call) # Response (pc_key call) (into_http_response req header ch)
       # map (BodyPart ch) cs @ [BodyClosed ch]" by auto
  with c show ?thesis by (auto simp: into_http_response_def)
qed

text \<open>Each request as a thread that serves only it would.\<close>

fun serve_alone ::
  "py_lib \<Rightarrow> config \<Rightarrow> string \<times> u16 \<Rightarrow> nat \<Rightarrow> body_rx \<Rightarrow> 's py_call list \<Rightarrow> served list" where
  "serve_alone lib cfg server rounds ch [] = []"
| "serve_alone lib cfg server rounds ch (call # calls) =
     serve_request lib cfg server rounds ch call fresh_thread # serve_alone lib cfg server rounds (ch + 1) calls"

text \<open>C31: no request sees another: what a thread logs and sends for a sequence of requests is,
  one request after the other, what a fresh thread logs and sends for each alone; for each it
  sends the start, one response with the request's own key and trace context, then the parts
  of its own body channel, and closes that channel.\<close>

theorem requests_isolated:
  assumes "serve_alone lib cfg server rounds ch calls = map Served us"
  shows "\<exists>l. run_thread lib cfg server rounds ch calls ts = Served \<lparr>ts_local = l,
       ts_log = ts_log ts @ concat (map ts_log us), ts_msgs = ts_msgs ts @ concat (map ts_msgs us)\<rparr> \<and>
     list_all2 (\<lambda>call u. \<exists>resp k cs. ts_msgs u = CodeStart (pc_key call) (pc_now call) #
         Response (pc_key call) resp # map (BodyPart k) cs @ [BodyClosed k] \<and>
       resp_context resp = req_context (pc_req call) \<and> resp_body resp = Some k) calls us"
  using assms
proof (induction calls arbitrary: ch ts us)
  case Nil
  then show ?case by (cases ts) simp
next
  case (Cons call calls)
  then obtain u vs where us: "us = u # vs" and u: "serve_request lib cfg server rounds ch call fresh_thread = Served u"
    and vs: "serve_alone lib cfg server rounds (ch + 1) calls = map Served vs" by auto
  from Cons.IH [OF vs, of "after_state ts u"] serve_served [OF u] show ?case
    by (auto simp: us serve_after [of lib cfg server rounds ch call ts] u after_state_def)
qed

section \<open>Keys\<close>

definition answered :: "thread_msg list \<Rightarrow> usize list" where
  "answered ms = concat (map (\<lambda>m. case m of Response k _ \<Rightarrow> [k] | _ \<Rightarrow> []) ms)"

definition started :: "thread_msg list \<Rightarrow> usize list" where
  "started ms = concat (map (\<lambda>m. case m of CodeStart k _ \<Rightarrow> [k] | _ \<Rightarrow> []) ms)"

lemma keys_simps [simp]:
  "answered [] = []" "answered (Response k r # ms) = k # answered ms" "answered (CodeStart k t # ms) = answered ms"
  "answered (BodyPart c b # ms) = answered ms" "answered (BodyClosed c # ms) = answered ms"
  "answered (ms @ ms') = answered ms @ answered ms'" "answered (map (BodyPart c) bs) = []"
  "started [] = []" "started (Response k r # ms) = started ms" "started (CodeStart k t # ms) = k # started ms"
  "started (BodyPart c b # ms) = started ms" "started (BodyClosed c # ms) = started ms"
  "started (ms @ ms') = started ms @ started ms'" "started (map (BodyPart c) bs) = []"
  by (simp_all add: answered_def started_def comp_def)

lemma send_body_keys:
  "answered (ts_msgs (end_state (send_body lib app n ch src ps ts))) = answered (ts_msgs ts)"
  "started (ts_msgs (end_state (send_body lib app n ch src ps ts))) = started (ts_msgs ts)"
  by (auto simp: send_body_def send_msgs_def split_beta Let_def split: resp_source.split stream_end.split)

text \<open>The response of a request follows its start; a request served has both.\<close>

lemma serve_keys:
  "(started (ts_msgs (end_state (serve_request lib cfg server n ch call fresh_thread))),
    answered (ts_msgs (end_state (serve_request lib cfg server n ch call fresh_thread)))) \<in>
     {([], []), ([pc_key call], []), ([pc_key call], [pc_key call])}"
  by (auto simp: serve_request_def Let_def fresh_thread_def send_msgs_def send_body_keys split: option.split prod.split)

lemma served_keys:
  "serve_request lib cfg server n ch call fresh_thread = Served ts \<Longrightarrow>
     started (ts_msgs ts) = [pc_key call] \<and> answered (ts_msgs ts) = [pc_key call]"
  using serve_served [of lib cfg server n ch call ts] by auto

lemma one_key:
  "(s, a) \<in> {([], []), ([k], []), ([k], [k])} \<Longrightarrow>
     \<exists>n m. (m = n \<or> m = Suc n) \<and> a = take n (k # ks) \<and> s = take m (k # ks)"
  by (elim insertE emptyE) (force intro: exI [of _ 0] exI [of _ "Suc 0"])+

text \<open>Whatever the application does, a thread answers only requests it has received, in the
  order it received them, each at most once, and reports the start of each before its response;
  at most the last one started is unanswered. This is what the worker relies on when it takes
  the responses.\<close>

theorem answers_are_prefix:
  "\<exists>n m. (m = n \<or> m = Suc n) \<and>
     answered (ts_msgs (end_state (run_thread lib cfg server rounds ch calls ts))) =
       answered (ts_msgs ts) @ take n (map pc_key calls) \<and>
     started (ts_msgs (end_state (run_thread lib cfg server rounds ch calls ts))) =
       started (ts_msgs ts) @ take m (map pc_key calls)"
proof (induction calls arbitrary: ch ts)
  case Nil
  then show ?case by auto
next
  case (Cons call calls)
  let ?u = "serve_request lib cfg server rounds ch call fresh_thread"
  note u = serve_after [of lib cfg server rounds ch call ts]
  show ?case
  proof (cases "\<exists>v. ?u = Served v")
    case True
    then obtain v where v: "?u = Served v" by blast
    from Cons.IH [of "ch + 1" "after_state ts v"] obtain n m where "m = n \<or> m = Suc n"
      "answered (ts_msgs (end_state (run_thread lib cfg server rounds (ch + 1) calls (after_state ts v)))) =
        answered (ts_msgs (after_state ts v)) @ take n (map pc_key calls)"
      "started (ts_msgs (end_state (run_thread lib cfg server rounds (ch + 1) calls (after_state ts v)))) =
        started (ts_msgs (after_state ts v)) @ take m (map pc_key calls)" by blast
    with served_keys [OF v] show ?thesis
      by (intro exI [of _ "Suc n"] exI [of _ "Suc m"]) (simp add: u v after_state_def)
  next
    case False
    then have "run_thread lib cfg server rounds ch (call # calls) ts = map_served (after_state ts) ?u"
      by (cases ?u) (simp_all add: u)
    with one_key [OF serve_keys [of lib cfg server rounds ch call], of "map pc_key calls"] show ?thesis
      by (simp add: after_state_def)
  qed
qed

section \<open>What is logged\<close>

lemma stream_body_logs:
  "stream_body lib app n bi ps = (cs, e) \<Longrightarrow>
     (case e of StreamDone ps' \<Rightarrow> logs_on ps ps' | StreamMore bi' ps' \<Rightarrow> logs_on ps ps' | StreamStuck \<Rightarrow> True)"
proof (induction n arbitrary: bi ps cs)
  case (Suc n)
  show ?case
  proof (cases "bytes_iter_next lib app bi ps")
    case (Some x)
    obtain r bi1 ps1 where x: "x = (r, bi1, ps1)" by (rule prod_cases3)
    note l = logs_on_trans [OF bytes_iter_next_logs [OF Some [unfolded x]]]
    show ?thesis
    proof (cases "r = Ok None")
      case True
      with Suc.prems Some x l [OF logs_on_refl] show ?thesis by auto
    next
      case False
      then obtain cs' where "stream_body lib app n bi1 ps1 = (cs', e)"
        using Suc.prems Some x by (cases r) (auto split: option.splits prod.splits)
      from Suc.IH [OF this] l show ?thesis by (auto split: stream_end.splits)
    qed
  qed (use Suc.prems in auto)
qed auto


section \<open>Exceptions\<close>

text \<open>The state in which a thread calls the application.\<close>

definition call_state :: "trace_ctx \<Rightarrow> pstate" where
  "call_state ctx = \<lparr>ps_local = \<lparr>rl_context = Some ctx, rl_header = None\<rparr>, ps_input = wsgi_input_new [], ps_log = []\<rparr>"

lemma call_state_eq:
  "\<lparr>ps_local = set_context ctx reqlocal_start, ps_input = wsgi_input_new [], ps_log = []\<rparr> = call_state ctx"
  by (simp add: call_state_def set_context_def reqlocal_start_def)

lemma failed_call_500:
  assumes "pc_start_ok call" and "pc_resp_ok call"
    and "execute lib (pc_app call) server (pc_req call) (call_state (req_context (pc_req call))) = Some (Err ee, req, ps)"
    and "length (ee_traceback ee) < usize_bound"
  shows "\<exists>resp body. serve_request lib cfg server rounds ch call fresh_thread = Served \<lparr>ts_local = ps_local ps,
       ts_log = ps_log ps @ [ExecFailed (req_context (pc_req call)) (ee_value ee) (ee_traceback ee)],
       ts_msgs = [CodeStart (pc_key call) (pc_now call), Response (pc_key call) resp, BodyPart ch body, BodyClosed ch]\<rparr> \<and>
     resp_code resp = 500 \<and> resp_keep_alive resp = req_keep_alive (pc_req call) \<and>
     body = (if body_stacktrace cfg then ee_traceback ee else []) \<and>
     map_option parse_usize (map_of (resp_headers resp) ''Content-Length'') = Some (Some (length body))"
proof -
  have n: "parse_usize (show_nat (length (ee_traceback ee))) = Some (length (ee_traceback ee))"
    using assms(4) by (simp add: parse_usize_def parse_show_nat)
  have z: "parse_usize ''0'' = Some 0" by (simp add: parse_defs)
  from execute_req [OF assms(3)] show ?thesis
    using assms(1-3) n z
    by (simp add: serve_request_def Let_def fresh_thread_def send_msgs_def call_state_eq response_of_def send_body_def
        handle_wsgi_exec_err_def handle_python_exc_body_stacktrace_def handle_python_exc_empty_def into_http_response_def)
qed

text \<open>C33: when the call of the application fails, the client is still answered: the exception is
  logged, the response is a 500 whose \<open>Content-Length\<close> is the length of the body sent, that
  body is the traceback (or empty when the configuration says so), and the thread goes on.\<close>

theorem failed_call_is_500:
  assumes "pc_start_ok call" and "pc_resp_ok call"
    and "execute lib (pc_app call) server (pc_req call) (call_state (req_context (pc_req call))) = Some (Err ee, req, ps)"
    and "length (ee_traceback ee) < usize_bound"
  shows "\<exists>resp body. serve_request lib cfg server rounds ch call fresh_thread = Served \<lparr>ts_local = ps_local ps,
       ts_log = ps_log ps @ [ExecFailed (req_context (pc_req call)) (ee_value ee) (ee_traceback ee)],
       ts_msgs = [CodeStart (pc_key call) (pc_now call), Response (pc_key call) resp, BodyPart ch body, BodyClosed ch]\<rparr> \<and>
     resp_code resp = 500 \<and> resp_keep_alive resp = req_keep_alive (pc_req call) \<and>
     body = (if body_stacktrace cfg then ee_traceback ee else []) \<and>
     map_option parse_usize (map_of (resp_headers resp) ''Content-Length'') = Some (Some (length body))"
  by (rule failed_call_500 [OF assms])

text \<open>(a defect) an application that calls \<open>start_response\<close> when its iterator is first asked,
  as generator applications do, always fails: the header is looked for before that, and the
  client gets a 500 with an empty body.\<close>

theorem lazy_start_response_is_500:
  assumes "pc_start_ok call" and "pc_resp_ok call"
    and "build_environ server (pc_req call) = (env, req, inp)"
    and "run_prog lib (wa_call (pc_app call) env) ((call_state (req_context (pc_req call)))\<lparr>ps_input := inp\<rparr>) = Some (Ok it, ps)"
    and "rl_header (ps_local ps) = None"
  shows "\<exists>ts resp. serve_request lib cfg server rounds ch call fresh_thread = Served ts \<and>
     ts_msgs ts = [CodeStart (pc_key call) (pc_now call), Response (pc_key call) resp, BodyPart ch [], BodyClosed ch] \<and>
     resp_code resp = 500 \<and>
     ts_log ts = ps_log ps @ [ExecFailed (req_context (pc_req call)) ''start_response not called'' []]"
proof -
  let ?ee = "build_exec_err (new_err ''RuntimeError'' ''start_response not called'')"
  have ee: "ee_traceback ?ee = []" "ee_value ?ee = ''start_response not called''"
    by (simp_all add: build_exec_err_def new_err_def)
  have "execute lib (pc_app call) server (pc_req call) (call_state (req_context (pc_req call))) =
      Some (Err ?ee, req, ps\<lparr>ps_local := (ps_local ps)\<lparr>rl_header := None\<rparr>\<rparr>)"
    using assms(3-5) by (simp add: execute_def execute_inner_def take_response_header_def)
  from failed_call_500 [OF assms(1,2) this, of cfg rounds ch] show ?thesis by (auto simp: ee usize_bound_def)
qed

text \<open>The response to an exception whose text has a line break.\<close>

text \<open>(a defect) the text of an exception goes into the \<open>X-Error\<close> header as it is: a line
  break in it ends the header line, and what follows is read by the client as a header of its
  own.\<close>

theorem exception_text_adds_header:
  assumes "body_stacktrace cfg" and "ee_value err = a @ crlf @ b" and "no_cr a" and "no_cr b"
    and "no_cr (trace_id (req_context req))"
  shows "crlf_lines (write_header (into_http_response req (fst (handle_wsgi_exec_err cfg err)) ch)) =
     [''HTTP/1.1 500 Internal Server Error '', ''Content-Length: '' @ show_nat (length (ee_traceback err)),
      ''Content-Type: text/plain; charset=UTF-8'', ''X-Error: '' @ a, b,
      ''X-TraceId: '' @ trace_id (req_context req),
      ''Connection: '' @ (if req_keep_alive req then ''Keep-Alive'' else ''Close''), ''Server: Casket'', [], []]"
proof -
  let ?r = "into_http_response req (fst (handle_wsgi_exec_err cfg err)) ch"
  let ?ls = "[''HTTP/1.1 500 Internal Server Error '', ''Content-Length: '' @ show_nat (length (ee_traceback err)),
      ''Content-Type: text/plain; charset=UTF-8'', ''X-Error: '' @ a, b,
      ''X-TraceId: '' @ trace_id (req_context req),
      ''Connection: '' @ (if req_keep_alive req then ''Keep-Alive'' else ''Close''), ''Server: Casket'']"
  have "show_nat 500 = ''500''" by code_simp
  then have "write_header ?r = join_crlf ?ls @ crlf"
    using assms(1,2)
    by (simp add: write_header_eq handle_wsgi_exec_err_def handle_python_exc_body_stacktrace_def
        into_http_response_def status_line_def fixed_lines_def header_line_def)
  moreover have "\<forall>l \<in> set ?ls. no_cr l" using assms(3-5) by simp
  ultimately show ?thesis
    using crlf_lines_join [of ?ls crlf] by (simp add: crlf_lines_crlf [of "[]", simplified] del: join_crlf_simps)
qed

section \<open>Examples\<close>

definition example_lib :: py_lib where
  "example_lib =
     \<lparr>downcast_text = (\<lambda>t v. ''cannot be converted to '' @ t), not_utf8_text = (\<lambda>s. ''not UTF-8''),
      parse_response = (\<lambda>b. Ok (Some 200, Some ''OK''))\<rparr>"

text \<open>Applications that start the response, or do not, and return an iterator over given steps.\<close>

fun list_next :: "iter_step list \<Rightarrow> (iter_step \<times> iter_step list) prog" where
  "list_next [] = Done (IterEnd, [])"
| "list_next (x # xs) = Done (x, xs)"

definition list_app :: "iter_step list \<Rightarrow> iter_step list wsgi_app" where
  "list_app steps =
     \<lparr>wa_call = (\<lambda>env. StartResponse ''200 OK'' [] (\<lambda>_. Done (Ok steps))), wa_next = list_next\<rparr>"

definition lazy_app :: "iter_step list \<Rightarrow> iter_step list wsgi_app" where
  "lazy_app steps = \<lparr>wa_call = (\<lambda>env. Done (Ok steps)), wa_next = list_next\<rparr>"

definition raising_app :: "iter_step list wsgi_app" where
  "raising_app = \<lparr>wa_call = (\<lambda>env. Done (Err \<lparr>pe_class = ''KeyError'', pe_value = ''user'',
     pe_traceback = Some (Ok ''File wsgi.py'')\<rparr>)), wa_next = list_next\<rparr>"

text \<open>An iterator that raises for ever once its items are used up.\<close>

fun raise_next :: "iter_step list \<Rightarrow> (iter_step \<times> iter_step list) prog" where
  "raise_next [] = Done (IterErr (new_err ''OSError'' ''gone''), [])"
| "raise_next (x # xs) = Done (x, xs)"

definition bad_file_app :: "iter_step list wsgi_app" where
  "bad_file_app = \<lparr>wa_call = (\<lambda>env. Done (Ok [])), wa_next = raise_next\<rparr>"

definition example_call :: "usize \<Rightarrow> iter_step list wsgi_app \<Rightarrow> iter_step list py_call" where
  "example_call key app =
     \<lparr>pc_key = key, pc_req = sample_request, pc_app = app, pc_now = 0, pc_start_ok = True, pc_resp_ok = True\<rparr>"

definition example_config :: config where
  "example_config = default_config (Ok ''host'')"

lemma example_run:
  "next_body_chunk example_lib (list_app st) [] ps = Some (Ok None, [], ps)"
  "next_body_chunk example_lib (list_app st) (IterItem (PyBytes b) # xs) ps = Some (Ok (Some b), xs, ps)"
  "next_body_chunk example_lib (list_app st) (IterErr e # xs) ps = Some (Err e, xs, ps)"
  by (simp_all add: next_body_chunk_def list_app_def)

definition example_state :: pstate where
  "example_state = call_state (req_context sample_request)"

theorem body_is_iterated_witness:
  "\<exists>bi ps. bytes_iter_new example_lib (list_app [])
       [IterItem (PyBytes ''ab''), IterErr (new_err ''E'' []), IterItem (PyBytes ''cd'')] example_state = Some (Ok bi, ps) \<and>
     stream_body example_lib (list_app []) 4 bi ps = ([''ab'', ''cd''], StreamDone example_state)"
proof -
  let ?rs = "[Ok (Some ''ab''), Err (new_err ''E'' []), Ok (Some ''cd'')]"
  have "iter_run example_lib (list_app []) 5
      [IterItem (PyBytes ''ab''), IterErr (new_err ''E'' []), IterItem (PyBytes ''cd'')] example_state =
      Some (?rs @ [Ok None, Ok None], [], example_state)"
    by (simp add: example_run numeral_eq_Suc)
  from body_is_iterated [OF this] show ?thesis by (simp add: numeral_eq_Suc)
qed

theorem body_runs_one_behind_witness:
  "\<exists>bi ps. bytes_iter_new example_lib (list_app []) [IterItem (PyBytes ''ab''), IterItem (PyBytes ''cd'')] example_state
       = Some (Ok bi, ps) \<and>
     stream_body example_lib (list_app []) 1 bi ps =
       ([''ab''], StreamMore \<lparr>bi_next_val = Some ''cd'', bi_iter = []\<rparr> example_state)"
proof -
  have "iter_run example_lib (list_app []) (Suc (length [''ab'']))
      [IterItem (PyBytes ''ab''), IterItem (PyBytes ''cd'')] example_state =
      Some (map (Ok \<circ> Some) [''ab''] @ [Ok (Some ''cd'')], [], example_state)"
    by (simp add: example_run)
  from body_runs_one_behind [OF this] show ?thesis by simp
qed

theorem failing_body_never_ends_witness:
  "\<exists>bi' ps'. stream_body example_lib bad_file_app 1000 \<lparr>bi_next_val = Some ''ab'', bi_iter = []\<rparr> example_state =
     ([], StreamMore bi' ps')"
proof -
  have "bytes_iter_new example_lib bad_file_app [IterItem (PyBytes ''ab'')] example_state =
      Some (Ok \<lparr>bi_next_val = Some ''ab'', bi_iter = []\<rparr>, example_state)"
    by (simp add: bytes_iter_new_def next_body_chunk_def bad_file_app_def)
  moreover have "iter_run example_lib bad_file_app n [] example_state =
      Some (replicate n (Err (new_err ''OSError'' ''gone'')), [], example_state)" for n
    by (induction n) (simp_all add: next_body_chunk_def bad_file_app_def)
  ultimately show ?thesis
    using failing_body_never_ends [of example_lib bad_file_app "[IterItem (PyBytes ''ab'')]" example_state] by simp
qed

lemma example_exec:
  "execute example_lib (list_app st) server sample_request example_state =
     (case next_body_chunk example_lib (list_app st) st
            \<lparr>ps_local = \<lparr>rl_context = Some (req_context sample_request), rl_header = None\<rparr>,
             ps_input = wsgi_input_new [], ps_log = []\<rparr> of
        Some (Ok v, s, ps) \<Rightarrow>
          Some (Ok (\<lparr>hdr_code = 200, hdr_reason = ''OK'', hdr_headers = []\<rparr>, \<lparr>bi_next_val = v, bi_iter = s\<rparr>),
            sample_request\<lparr>req_body := None\<rparr>, ps)
      | Some (Err e, s, ps) \<Rightarrow> Some (Err (build_exec_err e), sample_request\<lparr>req_body := None\<rparr>, ps)
      | None \<Rightarrow> None)"
  by (auto simp: execute_def execute_inner_def build_environ_def example_state_def call_state_def list_app_def
      start_response_def parse_status_def example_lib_def put_response_header_def take_response_header_def
      bytes_iter_new_def sample_request_def Let_def split: option.split result.split)

theorem requests_isolated_witness:
  "\<exists>(us :: thread_state list) l. run_thread example_lib example_config (''host'', 8080) 3 0
       [example_call 4 (list_app [IterItem (PyBytes ''ab'')]), example_call 5 (list_app [])] fresh_thread =
     Served \<lparr>ts_local = l, ts_log = concat (map ts_log us), ts_msgs = concat (map ts_msgs us)\<rparr> \<and> length us = 2"
proof -
  have "\<exists>us. serve_alone example_lib example_config (''host'', 8080) 3 0
       [example_call 4 (list_app [IterItem (PyBytes ''ab'')]), example_call 5 (list_app [])] = map Served us"
    by (simp add: serve_request_def fresh_thread_def send_msgs_def Let_def call_state_eq example_call_def
        example_exec [unfolded example_state_def] example_run response_of_def send_body_def
        numeral_eq_Suc bytes_iter_next_def call_state_def [symmetric] map_eq_Cons_conv Cons_eq_map_conv)
  then obtain us where us: "serve_alone example_lib example_config (''host'', 8080) 3 0
       [example_call 4 (list_app [IterItem (PyBytes ''ab'')]), example_call 5 (list_app [])] = map Served us" by blast
  from arg_cong [OF this, of length] have two: "length us = 2" by simp
  obtain l where l: "run_thread example_lib example_config (''host'', 8080) 3 0
       [example_call 4 (list_app [IterItem (PyBytes ''ab'')]), example_call 5 (list_app [])] fresh_thread =
     Served \<lparr>ts_local = l, ts_log = ts_log fresh_thread @ concat (map ts_log us),
       ts_msgs = ts_msgs fresh_thread @ concat (map ts_msgs us)\<rparr>"
    using requests_isolated [OF us, of fresh_thread] by blast
  have empty: "ts_log fresh_thread = []" "ts_msgs fresh_thread = []" by (simp_all add: fresh_thread_def)
  show ?thesis by (rule exI [of _ us], rule exI [of _ l]) (rule conjI [OF l [unfolded empty append_Nil] two])
qed

theorem failed_call_is_500_witness:
  "\<exists>resp body l. serve_request example_lib example_config (''host'', 8080) 0 0 (example_call 4 raising_app) fresh_thread =
     Served \<lparr>ts_local = l, ts_log = [ExecFailed (req_context sample_request) ''user'' ''File wsgi.py''],
       ts_msgs = [CodeStart 4 0, Response 4 resp, BodyPart 0 ''File wsgi.py'', BodyClosed 0]\<rparr> \<and> resp_code resp = 500"
proof -
  let ?ee = "\<lparr>ee_traceback = ''File wsgi.py'', ee_value = ''user'', ee_py_err =
      \<lparr>pe_class = ''KeyError'', pe_value = ''user'', pe_traceback = Some (Ok ''File wsgi.py'')\<rparr>\<rparr>"
  let ?call = "example_call 4 raising_app"
  have "execute example_lib (pc_app ?call) (''host'', 8080) (pc_req ?call) (call_state (req_context (pc_req ?call))) =
      Some (Err ?ee, sample_request\<lparr>req_body := None\<rparr>, call_state (req_context sample_request))"
    by (simp add: example_call_def execute_def execute_inner_def build_environ_def raising_app_def build_exec_err_def
        call_state_def sample_request_def Let_def)
  from failed_call_is_500 [OF _ _ this, of example_config 0 0] show ?thesis
    by (auto simp: example_call_def usize_bound_def call_state_def example_config_def default_config_def)
qed

theorem lazy_start_response_is_500_witness:
  "\<exists>ts resp. serve_request example_lib example_config (''host'', 8080) 0 0
       (example_call 4 (lazy_app [IterItem (PyBytes ''ab'')])) fresh_thread = Served ts \<and>
     ts_msgs ts = [CodeStart 4 0, Response 4 resp, BodyPart 0 [], BodyClosed 0] \<and> resp_code resp = 500"
proof -
  let ?call = "example_call 4 (lazy_app [IterItem (PyBytes ''ab'')])"
  obtain env req inp where b: "build_environ (''host'', 8080) (pc_req ?call) = (env, req, inp)" by (rule prod_cases3)
  have "run_prog example_lib (wa_call (pc_app ?call) env) ((call_state (req_context (pc_req ?call)))\<lparr>ps_input := inp\<rparr>) =
      Some (Ok [IterItem (PyBytes ''ab'')], (call_state (req_context (pc_req ?call)))\<lparr>ps_input := inp\<rparr>)"
    by (simp add: example_call_def lazy_app_def)
  from lazy_start_response_is_500 [OF _ _ b this, of example_config 0 0] show ?thesis
    by (auto simp: example_call_def call_state_def)
qed

theorem exception_text_adds_header_witness:
  "crlf_lines (write_header (into_http_response sample_request (fst (handle_wsgi_exec_err example_config
       \<lparr>ee_traceback = [], ee_value = ''bad name a'' @ crlf @ ''Set-Cookie: b'', ee_py_err = new_err [] []\<rparr>)) 0)) ! 4
     = ''Set-Cookie: b''"
  using exception_text_adds_header [of example_config "\<lparr>ee_traceback = [], ee_value = ''bad name a'' @ crlf @ ''Set-Cookie: b'',
      ee_py_err = new_err [] []\<rparr>" "''bad name a''" "''Set-Cookie: b''" sample_request 0]
  by (simp add: example_config_def default_config_def sample_request_def)

end
