(* ===== verification/Startup.thy ===== *)
theory Startup
  imports PythonExecProps ServerProps WorkerProps
begin

text \<open>
  \<open>src/main.rs\<close>: the arguments, the configuration and the application are checked, one process
  is forked per worker, and the parent becomes the server; the handler of SIGINT sets the two
  flags the server looks at.
\<close>

section \<open>Signals\<close>

record flags =
  fl_running :: bool
  fl_close_now :: bool

definition flags_new :: flags where
  "flags_new = \<lparr>fl_running = True, fl_close_now = False\<rparr>"

text \<open>The closure that is run on SIGINT.\<close>

definition ctrlc_handler :: "flags \<Rightarrow> flags" where
  "ctrlc_handler f = (if fl_running f then f\<lparr>fl_running := False\<rparr> else f\<lparr>fl_close_now := True\<rparr>)"

section \<open>The log of a process\<close>

datatype log_level = Info | Warn | Error

datatype log_value = LogStr string | LogNat nat | LogNats "nat list" | LogBool bool

record log_line =
  ll_level :: log_level
  ll_text :: string
  ll_fields :: "(string \<times> log_value) list"

definition log_info_line :: "string \<Rightarrow> log_line" where
  "log_info_line t = \<lparr>ll_level = Info, ll_text = t, ll_fields = []\<rparr>"

text \<open>A line with the field \<open>error\<close>.\<close>

definition log_error_line :: "string \<Rightarrow> string \<Rightarrow> log_line" where
  "log_error_line t e = \<lparr>ll_level = Error, ll_text = t, ll_fields = [(''error'', LogStr e)]\<rparr>"

definition casket_started :: "config \<Rightarrow> string \<Rightarrow> log_line" where
  "casket_started cfg callable =
     \<lparr>ll_level = Info, ll_text = ''casket started'', ll_fields =
       [(''callable'', LogStr callable),
        (''casket.version'', LogNats [fst (version cfg), snd (version cfg)]),
        (''cfg.num_workers'', LogNat (num_workers cfg)),
        (''cfg.num_threads'', LogNat (num_threads cfg)),
        (''cfg.max_connections'', LogNat (max_conns cfg)),
        (''cfg.max_requests'', LogNat (max_requests cfg)),
        (''cfg.return_stacktrace'', LogBool (body_stacktrace cfg))]\<rparr>"

text \<open>Setting the handler; if that fails the process goes on without one.\<close>

definition set_handler :: "string option \<Rightarrow> log_line list" where
  "set_handler ctrlc_res =
     (case ctrlc_res of
        None \<Rightarrow> []
      | Some e \<Rightarrow> [\<lparr>ll_level = Warn, ll_text = ''failed to register ctrlc handler - no graceful shutdown'',
                     ll_fields = [(''error'', LogStr e)]\<rparr>])"

section \<open>Before the loops\<close>

text \<open>What creating the poll, and registering the listener or the worker's socket, returns.\<close>

record begin_io =
  io_poll :: "(io_error, unit) result"
  io_register :: "io_error option"

text \<open>\<open>run_server\<close> and \<open>run_worker\<close> up to their loops.\<close>

definition run_server_begin :: "begin_io \<Rightarrow> nat \<Rightarrow> (runtime_error, server) result" where
  "run_server_begin io workers =
     (case io_poll io of
        Err e \<Rightarrow> Err (fatal_io_error ''server couldn't create poll instance'' e)
      | Ok _ \<Rightarrow>
          (case io_register io of
             Some e \<Rightarrow> Err (fatal_io_error ''server couldn't register tcp listener'' e)
           | None \<Rightarrow> Ok (server_start workers)))"

definition run_worker_begin :: "begin_io \<Rightarrow> (usize \<times> http_request) sender \<Rightarrow> (runtime_error, worker) result" where
  "run_worker_begin io sq =
     (case io_poll io of
        Err e \<Rightarrow> Err (fatal_io_error ''worker couldn't create poll instance'' e)
      | Ok _ \<Rightarrow>
          (case register_read (io_register io) UNIX_STREAM_TOKEN UnixStreamRead poller_new of
             (p, Err e) \<Rightarrow> Err (fatal_io_error ''worker couldn't register unix stream for reading'' e)
           | (p, Ok _) \<Rightarrow> Ok ((worker_start sq)\<lparr>wk_poll := p\<rparr>)))"

lemma run_worker_begin_eq:
  "run_worker_begin io sq = Ok w \<longleftrightarrow> io_poll io = Ok () \<and> io_register io = None \<and> w = worker_start sq"
  by (auto simp: run_worker_begin_def register_read_def reg_result_def worker_start_def
      split: result.splits option.splits)

section \<open>Forking\<close>

datatype forked = ForkParent nat | ForkChild | ForkErr

text \<open>One round of the loop: the socket pair, then the fork.\<close>

record fork_input =
  fi_pair :: "(io_error, unit) result"
  fi_fork :: forked

text \<open>
  The loop ends in the parent with the process ids of all workers, in a child, or with an
  error; \<open>inputs\<close> are the rounds, one for each worker.
\<close>

datatype fork_end = ForkedAll "nat list" | InChild nat | ForkStopped runtime_error

fun fork_loop :: "fork_input list \<Rightarrow> nat list \<Rightarrow> fork_end" where
  "fork_loop [] parent_socks = ForkedAll parent_socks"
| "fork_loop (i # is) parent_socks =
     (case fi_pair i of
        Err e \<Rightarrow> ForkStopped (fatal_io_error ''couldn't create unix socket pair'' e)
      | Ok _ \<Rightarrow>
          (case fi_fork i of
             ForkParent pid \<Rightarrow> fork_loop is (parent_socks @ [pid])
           | ForkChild \<Rightarrow> InChild (length parent_socks)
           | ForkErr \<Rightarrow> ForkStopped ForkFailed))"

text \<open>What a process becomes: a worker with its number, or the server.\<close>

datatype run_end =
    RunFailed runtime_error
  | RunWorker nat worker flags
  | RunServer server "nat list" flags

text \<open>The lines logged on the way, and the process at its loop. \<open>sig\<close> is the error of the handler, if any.\<close>

definition main_run ::
  "config \<Rightarrow> string \<Rightarrow> (io_error, unit) result \<Rightarrow> (nat \<Rightarrow> fork_input) \<Rightarrow> string option \<Rightarrow> begin_io \<Rightarrow>
     log_line list \<times> run_end" where
  "main_run cfg callable bound forks sig io =
     (case bound of
        Err e \<Rightarrow> ([], RunFailed (fatal_io_error ''couldn't bind tcp listener on port'' e))
      | Ok _ \<Rightarrow>
          (case fork_loop (map forks [0..<num_workers cfg]) [] of
             ForkStopped e \<Rightarrow> ([], RunFailed e)
           | InChild n \<Rightarrow>
               (set_handler sig,
                case run_worker_begin io (spawn cfg) of
                  Err e \<Rightarrow> RunFailed e
                | Ok w \<Rightarrow> RunWorker n w flags_new)
           | ForkedAll pids \<Rightarrow>
               (casket_started cfg callable # set_handler sig,
                case run_server_begin io (length pids) of
                  Err e \<Rightarrow> RunFailed e
                | Ok s \<Rightarrow> RunServer s pids flags_new)))"

section \<open>main\<close>

text \<open>The process exits with a code after its lines, or runs.\<close>

datatype main_end =
    Exit nat "log_line list"
  | Run config "log_line list" run_end

text \<open>The end of a process whose loop has returned: what \<open>run\<close> logs in the server, then \<open>main\<close>.\<close>

definition server_end :: "runtime_result \<Rightarrow> log_line list" where
  "server_end r = (case r of Err e \<Rightarrow> [] | Ok _ \<Rightarrow> [log_info_line ''casket closing''])"

definition exit_of :: "log_line list \<Rightarrow> runtime_result \<Rightarrow> main_end" where
  "exit_of lines r =
     (case r of
        Err e \<Rightarrow> Exit 1 (lines @ [log_error_line ''runtime error'' (rt_reason e)])
      | Ok _ \<Rightarrow> Exit 0 lines)"

definition casket_main ::
  "string list \<Rightarrow> (io_error, string) result \<Rightarrow> (string \<times> string) list \<Rightarrow> ('m, 'o) py_host \<Rightarrow>
     (io_error, unit) result \<Rightarrow> (nat \<Rightarrow> fork_input) \<Rightarrow> string option \<Rightarrow> begin_io \<Rightarrow> main_end" where
  "casket_main args hostname_file vars host bound forks sig io =
     (if length args \<noteq> 2 then Exit 0 [log_info_line ''usage casket filename:function'']
      else
        (let app_str = args ! 1
         in case from_env hostname_file vars of
              Err s \<Rightarrow> Exit 1 [log_error_line ''couldn't load config from environment'' s]
            | Ok cfg \<Rightarrow>
                (case application_load host app_str of
                   Err py_err \<Rightarrow>
                     Exit 1 [log_error_line ''couldn't load python application'' (pe_class py_err @ '': '' @ pe_value py_err)]
                 | Ok application \<Rightarrow>
                     (case main_run cfg app_str bound forks sig io of
                        (lines, RunFailed e) \<Rightarrow> exit_of lines (Err e)
                      | (lines, r) \<Rightarrow> Run cfg lines r))))"

text \<open>The whole of a process: \<open>r\<close> is what its loop has returned.\<close>

fun process_end :: "main_end \<Rightarrow> runtime_result \<Rightarrow> main_end" where
  "process_end (Exit code lines) r = Exit code lines"
| "process_end (Run cfg lines (RunServer s pids f)) r = exit_of (lines @ server_end r) r"
| "process_end (Run cfg lines p) r = exit_of lines r"

section \<open>What is started\<close>

lemma fork_loop_cases:
  "fork_loop is pids =
     (case fork_loop is [] of
        ForkedAll ps \<Rightarrow> ForkedAll (pids @ ps) | InChild n \<Rightarrow> InChild (length pids + n) | ForkStopped e \<Rightarrow> ForkStopped e)"
proof (induction "is" arbitrary: pids)
  case (Cons i "is")
  show ?case
    using Cons.IH [of "pids @ [p]" for p] Cons.IH [of "[p]" for p]
    by (auto split: result.split forked.split fork_end.split)
qed simp

lemma fork_loop_all: "fork_loop is [] = ForkedAll pids \<longleftrightarrow>
    list_all2 (\<lambda>i p. is_ok (fi_pair i) \<and> fi_fork i = ForkParent p) is pids"
proof (induction "is" arbitrary: pids)
  case (Cons i "is")
  show ?case
    using fork_loop_cases [of "is" "[p]" for p]
    by (cases "fi_pair i"; cases "fi_fork i"; cases "fork_loop is []")
      (auto simp: list_all2_Cons1 simp flip: Cons.IH)
qed auto

lemma fork_loop_child: "fork_loop is [] = InChild n \<longleftrightarrow>
    n < length is \<and> is_ok (fi_pair (is ! n)) \<and> fi_fork (is ! n) = ForkChild \<and>
    (\<forall>k < n. is_ok (fi_pair (is ! k)) \<and> (\<exists>p. fi_fork (is ! k) = ForkParent p))"
proof (induction "is" arbitrary: n)
  case (Cons i "is")
  have all: "(\<forall>k < Suc m. P k) \<longleftrightarrow> P 0 \<and> (\<forall>k < m. P (Suc k))" for P m
    by (simp only: less_Suc_eq_0_disj) blast
  show ?case
  proof (cases n)
    case 0
    then show ?thesis
      using fork_loop_cases [of "is" "[p]" for p]
      by (cases "fi_pair i"; cases "fi_fork i") (auto split: fork_end.splits)
  next
    case (Suc m)
    have "fork_loop (i # is) [] = InChild (Suc m) \<longleftrightarrow>
        is_ok (fi_pair i) \<and> (\<exists>p. fi_fork i = ForkParent p) \<and> fork_loop is [] = InChild m"
      using fork_loop_cases [of "is" "[p]" for p]
      by (cases "fi_pair i"; cases "fi_fork i"; cases "fork_loop is []") auto
    with Suc show ?thesis by (auto simp: all Cons.IH)
  qed
qed simp

lemma number_streams_length [simp]: "length (number_streams t n) = n"
  by (induction n arbitrary: t) simp_all


section \<open>Stopping\<close>

text \<open>Flags after so many interrupts, where the handler is set; without it the first one ends the process.\<close>

fun sigints :: "nat \<Rightarrow> flags" where
  "sigints 0 = flags_new"
| "sigints (Suc n) = ctrlc_handler (sigints n)"

lemma sigints_eq: "fl_running (sigints n) \<longleftrightarrow> n = 0" "fl_close_now (sigints n) \<longleftrightarrow> 2 \<le> n"
proof -
  have "fl_running (sigints n) = (n = 0) \<and> fl_close_now (sigints n) = (2 \<le> n)"
    by (induction n) (auto simp: flags_new_def ctrlc_handler_def)
  then show "fl_running (sigints n) \<longleftrightarrow> n = 0" "fl_close_now (sigints n) \<longleftrightarrow> 2 \<le> n" by simp_all
qed

text \<open>The input of a turn as the flags have it after \<open>n\<close> interrupts.\<close>

definition interrupted :: "nat \<Rightarrow> srv_input \<Rightarrow> srv_input" where
  "interrupted n i = i\<lparr>si_close_now := fl_close_now (sigints n), si_running := fl_running (sigints n)\<rparr>"

text \<open>The second interrupt stops the server at once: its next turn leaves the loop
  successfully before any answer is taken or any event handled, whatever is in processing
  (only a wait that is over makes it shut those streams down first); a third changes nothing.\<close>

theorem second_interrupt_stops:
  "\<exists>s'. server_turn cd cfg (interrupted (Suc (Suc n)) i) s = Ret (Leave s' (Ok ())) \<and>
     sv_unix s' = sv_unix s \<and> sv_reading s' = sv_reading s \<and> sv_errors s' = sv_errors s"
  by (auto simp: server_turn_def check_exit_def interrupted_def sigints_eq simp del: sigints.simps split: option.split)

text \<open>A process that ran exits with code 0 exactly when its loop returned without an error, and then
  the last line of the server says that it closes; any error is the last line of its process.\<close>

lemma process_end_code:
  "\<exists>lines'. process_end (Run cfg lines p) r = Exit (if is_ok r then 0 else 1) (lines @ lines') \<and>
     (case r of
        Ok _ \<Rightarrow> lines' = (case p of RunServer s pids f \<Rightarrow> [log_info_line ''casket closing''] | _ \<Rightarrow> [])
      | Err e \<Rightarrow> lines' = [log_error_line ''runtime error'' (rt_reason e)])"
  by (cases p; cases r) (simp_all add: exit_of_def server_end_def)

end
