(* ===== verification/WorkerFlow.thy ===== *)
theory WorkerFlow
  imports WorkerProps
begin

text \<open>
  What a turn of a worker does to its end of the Unix socket: which bytes and requests it takes
  in, which responses it frames, and for which connections. This is the worker's side of the
  composition with the server.
\<close>

section \<open>The bytes on the socket\<close>

fun got_of :: "worker_log \<Rightarrow> bytes" where
  "got_of (UnixGot bs _) = bs"
| "got_of _ = []"

fun fds_of :: "worker_log \<Rightarrow> raw_fd list" where
  "fds_of (UnixGot _ fds) = fds"
| "fds_of _ = []"

fun sent_of :: "worker_log \<Rightarrow> bytes" where
  "sent_of (UnixSent bs) = bs"
| "sent_of _ = []"

definition wk_got :: "worker \<Rightarrow> bytes" where
  "wk_got w = concat (map got_of (wk_log w))"

definition wk_fds :: "worker \<Rightarrow> raw_fd list" where
  "wk_fds w = concat (map fds_of (wk_log w))"

definition wk_sent :: "worker \<Rightarrow> bytes" where
  "wk_sent w = concat (map sent_of (wk_log w))"

lemma wire_wlog [simp]:
  "wk_got (wlog l w) = wk_got w @ got_of l" "wk_sent (wlog l w) = wk_sent w @ sent_of l"
  "wk_fds (wlog l w) = wk_fds w @ fds_of l"
  by (simp_all add: wk_got_def wk_sent_def wk_fds_def wlog_def)

lemma wire_displaced [simp]:
  "wk_got (displaced old w) = wk_got w" "wk_sent (displaced old w) = wk_sent w" "wk_fds (displaced old w) = wk_fds w"
  by (simp_all add: displaced_def split: option.split)

lemma wire_cong: "wk_log w = wk_log v \<Longrightarrow> wk_got w = wk_got v \<and> wk_sent w = wk_sent v \<and> wk_fds w = wk_fds v"
  by (simp add: wk_got_def wk_sent_def wk_fds_def)

definition response_frame :: "codec \<Rightarrow> response \<Rightarrow> bytes" where
  "response_frame cd m = frame u32_be (the (ser_response cd m))"

definition request_bytes :: "codec \<Rightarrow> request list \<Rightarrow> bytes" where
  "request_bytes cd ms = concat (map (request_frame cd) ms)"

definition response_bytes :: "codec \<Rightarrow> response list \<Rightarrow> bytes" where
  "response_bytes cd ms = concat (map (response_frame cd) ms)"

lemma wire_bytes_simps [simp]:
  "request_bytes cd [] = []" "request_bytes cd (ms @ ns) = request_bytes cd ms @ request_bytes cd ns"
  "response_bytes cd [] = []" "response_bytes cd (rs @ qs) = response_bytes cd rs @ response_bytes cd qs"
  by (simp_all add: request_bytes_def response_bytes_def)

definition response_token :: "response \<Rightarrow> token" where
  "response_token m = Token (rs_token m)"

section \<open>What a part of a turn does\<close>

text \<open>
  From \<open>w\<close> to \<open>w'\<close> the worker has read the bytes \<open>bs\<close>, which completed the requests \<open>ms\<close>, and framed
  the responses \<open>rs\<close>; the descriptors it got are kept with those it had; it no longer holds the server's descriptors of those, and its threads
  have been asked about no other connection than before or one it held.
\<close>

definition moves :: "codec \<Rightarrow> bytes \<Rightarrow> request list \<Rightarrow> response list \<Rightarrow> worker \<Rightarrow> worker \<Rightarrow> bool" where
  "moves cd bs ms rs w w' \<longleftrightarrow>
     wk_got w' = wk_got w @ bs \<and> stream_msgs (wk_buf w') = stream_msgs (wk_buf w) @ ms \<and>
     (\<exists>fds. wk_fds w' = wk_fds w @ fds \<and> stream_fds (wk_buf w') = stream_fds (wk_buf w) @ fds) \<and>
     (\<forall>rest X. wb_unread (wk_buf w) @ bs @ rest = request_bytes cd X \<longrightarrow>
        (\<exists>Y. X = ms @ Y \<and> wb_unread (wk_buf w') @ rest = request_bytes cd Y)) \<and>
     (\<exists>out. wk_sent w' = wk_sent w @ out \<and>
        out @ wb_write_buffer (wk_buf w') = wb_write_buffer (wk_buf w) @ response_bytes cd rs) \<and>
     mset_set (live w) = mset (map response_token rs) + mset_set (live w') \<and>
     asked (wk_threads w') \<subseteq> asked (wk_threads w) \<union> live w"

lemma moves_live: "moves cd bs ms rs w w' \<Longrightarrow> live w' \<subseteq> live w"
proof -
  assume "moves cd bs ms rs w w'"
  then have "mset_set (live w) = mset (map response_token rs) + mset_set (live w')" by (simp add: moves_def)
  from arg_cong [OF this, of set_mset] show ?thesis by simp
qed

lemma moves_trans:
  assumes "moves cd bs ms rs u v" and "moves cd bs' ms' rs' v w"
  shows "moves cd (bs @ bs') (ms @ ms') (rs @ rs') u w"
proof -
  have "\<exists>Y. X = (ms @ ms') @ Y \<and> wb_unread (wk_buf w) @ rest = request_bytes cd Y"
    if "wb_unread (wk_buf u) @ (bs @ bs') @ rest = request_bytes cd X" for rest X
  proof -
    have "wb_unread (wk_buf u) @ bs @ (bs' @ rest) = request_bytes cd X" using that by simp
    with assms(1) obtain Y where "X = ms @ Y" "wb_unread (wk_buf v) @ bs' @ rest = request_bytes cd Y"
      unfolding moves_def by blast
    with assms(2) show ?thesis unfolding moves_def by (metis append.assoc)
  qed
  moreover obtain o1 o2 where
    "wk_sent v = wk_sent u @ o1" "o1 @ wb_write_buffer (wk_buf v) = wb_write_buffer (wk_buf u) @ response_bytes cd rs"
    "wk_sent w = wk_sent v @ o2" "o2 @ wb_write_buffer (wk_buf w) = wb_write_buffer (wk_buf v) @ response_bytes cd rs'"
    using assms unfolding moves_def by blast
  then have "wk_sent w = wk_sent u @ (o1 @ o2) \<and> (o1 @ o2) @ wb_write_buffer (wk_buf w) =
      wb_write_buffer (wk_buf u) @ response_bytes cd (rs @ rs')"
    by simp
  then have "\<exists>out. wk_sent w = wk_sent u @ out \<and> out @ wb_write_buffer (wk_buf w) =
      wb_write_buffer (wk_buf u) @ response_bytes cd (rs @ rs')" by blast
  moreover have "asked (wk_threads w) \<subseteq> asked (wk_threads u) \<union> live u"
    using assms moves_live [OF assms(1)] unfolding moves_def by blast
  moreover have "\<exists>fds. wk_fds w = wk_fds u @ fds \<and> stream_fds (wk_buf w) = stream_fds (wk_buf u) @ fds"
    using assms unfolding moves_def by auto
  ultimately show ?thesis using assms by (simp add: moves_def)
qed

lemma moves_still:
  assumes "wk_buf w' = wk_buf w" and "wk_got w' = wk_got w" and "wk_sent w' = wk_sent w" and "wk_fds w' = wk_fds w"
    and "asked (wk_threads w') \<subseteq> asked (wk_threads w) \<union> live w"
  shows "moves cd [] [] [] w w'"
  using assms by (simp add: moves_def live_def)

lemma moves_refl: "moves cd [] [] [] w w"
  by (rule moves_still) simp_all

text \<open>A connection is given back with one response.\<close>

lemma respond_moves:
  assumes cd: "codec_ok cd" and tk: "tk \<in> live w" and r: "respond (push_response cd tk k e) v = Ret w'"
    and v: "wk_buf v = wk_buf w" "wk_got v = wk_got w" "wk_sent v = wk_sent w" "wk_threads v = wk_threads w"
      "wk_fds v = wk_fds w"
  shows "\<exists>m. response_token m = tk \<and> moves cd [] [] [m] w w'"
proof -
  obtain fd where fd: "hm_get (server_fds (wk_buf w)) tk = Some fd"
    using tk hm_mem_obtain [of tk "server_fds (wk_buf w)"] by (auto simp: live_def)
  let ?m = "\<lparr>rs_token = tok tk, rs_fd = fd, rs_keep_alive = k, rs_error = e\<rparr> :: response"
  obtain bs where bs: "ser_response cd ?m = Some bs"
    using cd unfolding codec_ok_def by blast
  have w': "w' = v\<lparr>wk_buf := (wk_buf w)\<lparr>server_fds := hm_delete tk (server_fds (wk_buf w)),
      wb_write_buffer := wb_write_buffer (wk_buf w) @ response_frame cd ?m\<rparr>\<rparr>"
    using r fd bs v(1) by (simp add: respond_def push_response_def response_frame_def frame_def)
  have wire: "wk_got w' = wk_got w" "wk_sent w' = wk_sent w" "wk_fds w' = wk_fds w"
    using v(2,3,5) by (simp_all add: w' wk_got_def wk_sent_def wk_fds_def)
  have "live w' = live w - {tk}" by (simp add: w' live_def)
  then have "mset_set (live w) = add_mset tk (mset_set (live w'))"
    using mset_set.remove [OF finite_live tk] by simp
  then show ?thesis
    using wire v(4)
    by (intro exI [of _ ?m])
      (simp add: moves_def w' response_token_def wb_unread_def response_bytes_def)
qed

lemmas resp_defs = resp_stream_reg_error_def resp_io_error_def resp_bad_client_def resp_stream_done_ok_def

lemma with_poll_moves:
  assumes "with_poll cd tk fd call k w = Ret w'" and "codec_ok cd" and "tk \<in> live w"
    and "\<And>v. wk_buf v = wk_buf w \<Longrightarrow> wk_log v = wk_log w \<Longrightarrow> wk_threads v = wk_threads w \<Longrightarrow>
      wk_pending v = wk_pending w \<Longrightarrow> k v = Ret w' \<Longrightarrow> \<exists>rs. moves cd [] [] rs w w'"
  shows "\<exists>rs. moves cd [] [] rs w w'"
proof -
  obtain p r where c: "call (wk_poll w) = (p, r)" by (cases "call (wk_poll w)")
  let ?v = "w\<lparr>wk_poll := p\<rparr>"
  show ?thesis
  proof (cases r)
    case (Err e)
    then have "respond (push_response cd tk False
        (Some (''couldn't register stream with mio'' @ ''-'' @ io_text e))) (wlog (StreamDropped fd) ?v) = Ret w'"
      using assms(1) c by (simp add: with_poll_def resp_stream_reg_error_def)
    from respond_moves [OF assms(2,3) this] show ?thesis
      by (auto simp: wk_got_def wk_sent_def wk_fds_def wlog_def)
  next
    case (Ok x)
    then have "k ?v = Ret w'" using assms(1) c by (simp add: with_poll_def)
    with assms(4) [of ?v] show ?thesis by simp
  qed
qed


section \<open>Actions\<close>

lemma stream_tok_live:
  "mid cfg [] [] (r # rs) w \<Longrightarrow> stream_tok r = [tk] \<Longrightarrow> tk \<in> live w"
  using ledger_head(1) by (auto simp: mid_def)

lemma pending_live: "mid cfg n m rs w \<Longrightarrow> tk \<in> hm_keys (wk_pending w) \<Longrightarrow> tk \<in> live w"
proof -
  assume "mid cfg n m rs w" and tk: "tk \<in> hm_keys (wk_pending w)"
  then have "mset n + mset (toks stream_tok rs) + holders w = mset_set (live w)" by (simp add: mid_def ledger_def)
  from arg_cong [OF this, of set_mset] tk show ?thesis by (auto simp: holders_def)
qed

lemma asked_queue [simp]: "asked (queue_http_req tk req pt) = insert tk (asked pt)"
  by (auto simp: asked_def queue_http_req_def)

lemma put_simps [simp]:
  "wk_buf (put_reading tk x w) = wk_buf w" "wk_threads (put_reading tk x w) = wk_threads w"
  "wk_buf (put_pending tk fd w) = wk_buf w" "wk_threads (put_pending tk fd w) = wk_threads w"
  "wk_buf (put_writing tk y w) = wk_buf w" "wk_threads (put_writing tk y w) = wk_threads w"
  "wk_buf (put_casket tk z w) = wk_buf w" "wk_threads (put_casket tk z w) = wk_threads w"
  by (simp_all add: put_defs)

lemma wire_fields [simp]:
  "wk_got (w\<lparr>wk_buf := b\<rparr>) = wk_got w" "wk_got (w\<lparr>wk_poll := p\<rparr>) = wk_got w"
  "wk_got (w\<lparr>wk_threads := pt\<rparr>) = wk_got w" "wk_got (w\<lparr>wk_reading := a\<rparr>) = wk_got w"
  "wk_got (w\<lparr>wk_pending := c\<rparr>) = wk_got w" "wk_got (w\<lparr>wk_writing := d\<rparr>) = wk_got w"
  "wk_got (w\<lparr>wk_casket := e\<rparr>) = wk_got w" "wk_got (w\<lparr>wk_results := f\<rparr>) = wk_got w"
  "wk_got (w\<lparr>wk_timeouts := g\<rparr>) = wk_got w" "wk_got (w\<lparr>wk_closing := h\<rparr>) = wk_got w"
  "wk_sent (w\<lparr>wk_buf := b\<rparr>) = wk_sent w" "wk_sent (w\<lparr>wk_poll := p\<rparr>) = wk_sent w"
  "wk_sent (w\<lparr>wk_threads := pt\<rparr>) = wk_sent w" "wk_sent (w\<lparr>wk_reading := a\<rparr>) = wk_sent w"
  "wk_sent (w\<lparr>wk_pending := c\<rparr>) = wk_sent w" "wk_sent (w\<lparr>wk_writing := d\<rparr>) = wk_sent w"
  "wk_sent (w\<lparr>wk_casket := e\<rparr>) = wk_sent w" "wk_sent (w\<lparr>wk_results := f\<rparr>) = wk_sent w"
  "wk_sent (w\<lparr>wk_timeouts := g\<rparr>) = wk_sent w" "wk_sent (w\<lparr>wk_closing := h\<rparr>) = wk_sent w"
  "wk_fds (w\<lparr>wk_buf := b\<rparr>) = wk_fds w" "wk_fds (w\<lparr>wk_poll := p\<rparr>) = wk_fds w"
  "wk_fds (w\<lparr>wk_threads := pt\<rparr>) = wk_fds w" "wk_fds (w\<lparr>wk_reading := a\<rparr>) = wk_fds w"
  "wk_fds (w\<lparr>wk_pending := c\<rparr>) = wk_fds w" "wk_fds (w\<lparr>wk_writing := d\<rparr>) = wk_fds w"
  "wk_fds (w\<lparr>wk_casket := e\<rparr>) = wk_fds w" "wk_fds (w\<lparr>wk_results := f\<rparr>) = wk_fds w"
  "wk_fds (w\<lparr>wk_timeouts := g\<rparr>) = wk_fds w" "wk_fds (w\<lparr>wk_closing := h\<rparr>) = wk_fds w"
  by (simp_all add: wk_got_def wk_sent_def wk_fds_def)

lemma wire_put [simp]:
  "wk_got (put_reading tk x w) = wk_got w" "wk_sent (put_reading tk x w) = wk_sent w"
  "wk_got (put_pending tk fd w) = wk_got w" "wk_sent (put_pending tk fd w) = wk_sent w"
  "wk_got (put_writing tk y w) = wk_got w" "wk_sent (put_writing tk y w) = wk_sent w"
  "wk_got (put_casket tk z w) = wk_got w" "wk_sent (put_casket tk z w) = wk_sent w"
  "wk_fds (put_reading tk x w) = wk_fds w" "wk_fds (put_pending tk fd w) = wk_fds w"
  "wk_fds (put_writing tk y w) = wk_fds w" "wk_fds (put_casket tk z w) = wk_fds w"
  by (simp_all add: put_defs)

text \<open>The two ways in which an action that got through the poller goes on.\<close>

lemma still_ex: "moves cd [] [] [] w w' \<Longrightarrow> \<exists>rs. moves cd [] [] rs w w'"
  by blast

lemma give_back:
  assumes "codec_ok cd" and "tk \<in> live w" and "wk_buf v = wk_buf w" and "wk_log v = wk_log w"
    and "wk_threads v = wk_threads w"
  shows "respond (push_response cd tk k e) (wlog (StreamForgotten fd) v) = Ret w' \<Longrightarrow> \<exists>rs. moves cd [] [] rs w w'"
    and "respond (push_response cd tk k e) (wlog (StreamDropped fd) v) = Ret w' \<Longrightarrow> \<exists>rs. moves cd [] [] rs w w'"
    and "respond (push_response cd tk k e) (wlog (StreamForgotten fd) (wlog (LogCasket c t) v)) = Ret w' \<Longrightarrow>
      \<exists>rs. moves cd [] [] rs w w'"
proof -
  note wc = wire_cong [OF assms(4)]
  show "\<exists>rs. moves cd [] [] rs w w'"
    if "respond (push_response cd tk k e) (wlog (StreamForgotten fd) v) = Ret w'"
    using respond_moves [OF assms(1,2) that] assms(3-5) wc by auto
  show "\<exists>rs. moves cd [] [] rs w w'"
    if "respond (push_response cd tk k e) (wlog (StreamDropped fd) v) = Ret w'"
    using respond_moves [OF assms(1,2) that] assms(3-5) wc by auto
  show "\<exists>rs. moves cd [] [] rs w w'"
    if "respond (push_response cd tk k e) (wlog (StreamForgotten fd) (wlog (LogCasket c t) v)) = Ret w'"
    using respond_moves [OF assms(1,2) that] assms(3-5) wc by auto
qed

lemma poll_still:
  assumes "with_poll cd tk fd call k w = Ret w'" and "codec_ok cd" and tk: "tk \<in> live w"
    and k: "\<And>v. k v = Ret w' \<Longrightarrow> wk_buf w' = wk_buf v \<and> wk_got w' = wk_got v \<and> wk_sent w' = wk_sent v \<and>
      wk_fds w' = wk_fds v \<and> asked (wk_threads w') \<subseteq> insert tk (asked (wk_threads v))"
  shows "\<exists>rs. moves cd [] [] rs w w'"
  using assms(1)
proof (rule with_poll_moves [OF _ assms(2) tk])
  fix v assume v: "wk_buf v = wk_buf w" "wk_log v = wk_log w" "wk_threads v = wk_threads w" "k v = Ret w'"
  with k [OF v(4)] wire_cong [OF v(2)] tk show "\<exists>rs. moves cd [] [] rs w w'"
    by (intro still_ex moves_still) auto
qed

lemma still_moves:
  assumes "\<exists>rs. moves cd [] [] rs v w'" and "moves cd [] [] [] w v"
  shows "\<exists>rs. moves cd [] [] rs w w'"
proof -
  from assms(1) obtain rs where "moves cd [] [] rs v w'" by blast
  from moves_trans [OF assms(2) this] show ?thesis by auto
qed

text \<open>The action about a response; its connection is pending.\<close>

lemma new_response_moves:
  assumes cd: "codec_ok cd" and m: "mid cfg [] [] (Ok (ServerNewResponse tk resp) # rs) w"
    and a: "handle_action cd cfg i (ServerNewResponse tk resp) w = Ret w'"
  shows "\<exists>rs. moves cd [] [] rs w w'"
proof -
  from a obtain fd where fd: "hm_get (wk_pending w) tk = Some fd" by (auto split: option.splits)
  then have "tk \<in> live w" using pending_live [OF m] hm_get_SomeD by fastforce
  let ?w = "w\<lparr>wk_pending := hm_delete tk (wk_pending w)\<rparr>"
  have "tk \<in> live ?w" using \<open>tk \<in> live w\<close> by (simp add: live_def)
  then have "\<exists>rs. moves cd [] [] rs ?w w'"
    using a unfolding handle_action.simps fd option.case by (elim poll_still [OF _ cd]) auto
  then show ?thesis by (rule still_moves) (simp add: moves_still)
qed

lemma handle_action_moves:
  assumes cd: "codec_ok cd" and m: "mid cfg [] [] (Ok act # rs) w" and a: "handle_action cd cfg i act w = Ret w'"
  shows "\<exists>rs. moves cd [] [] rs w w'"
proof -
  have tk: "tk \<in> live w" if "stream_tok (Ok act) = [tk]" for tk using stream_tok_live [OF m that] .
  show ?thesis
  proof (cases act)
    case (ServerNewResponse tk resp)
    with m a show ?thesis by (auto intro: new_response_moves [OF cd])
  next
    case (ServerStreamEOF tk fd)
    with a tk show ?thesis unfolding ServerStreamEOF handle_action.simps resp_stream_done_ok_def
      by (elim with_poll_moves [OF _ cd]) (simp_all, rule give_back(1) [OF cd], simp_all)
  next
    case (ServerDoneWrite tk resp fd)
    let ?w = "wlog (LogResponse resp) w"
    have "tk \<in> live ?w" using tk ServerDoneWrite by (simp add: live_def)
    with a have "\<exists>rs. moves cd [] [] rs ?w w'" unfolding ServerDoneWrite handle_action.simps resp_stream_done_ok_def
      by (elim with_poll_moves [OF _ cd]) (assumption, rule give_back(1) [OF cd], simp_all)
    then show ?thesis by (rule still_moves) (simp add: moves_still)
  next
    case (ServerCasketResponseDone tk fd cr)
    with a tk show ?thesis unfolding ServerCasketResponseDone handle_action.simps resp_stream_done_ok_def
      by (elim with_poll_moves [OF _ cd]) (simp_all, rule give_back(3) [OF cd], simp_all)
  next
    case (ServerPythonCodeTimeoutNew tk st)
    then show ?thesis using a by (auto intro!: still_ex moves_still)
  qed (use a tk in \<open>auto elim!: poll_still [OF _ cd]\<close>)
qed

lemma handle_error_moves:
  assumes cd: "codec_ok cd" and m: "mid cfg [] [] (Err e # rs) w" and a: "handle_error cd i e w = Ret w'"
  shows "\<exists>rs. moves cd [] [] rs w w'"
proof -
  have tk: "ae_token e \<in> live w" using m by (simp add: stream_tok_live)
  let ?w = "wlog (error_log (ae_error e)) w"
  have tkw: "ae_token e \<in> live ?w" using tk by (simp add: live_def)
  obtain k t where r: "(case ae_error e of HttpIo _ err \<Rightarrow> resp_io_error cd (ae_token e) err
      | HeaderParse _ \<Rightarrow> resp_bad_client cd (ae_token e) | BadValue _ \<Rightarrow> resp_bad_client cd (ae_token e)) =
      push_response cd (ae_token e) k t"
    by (cases "ae_error e") (auto simp: resp_io_error_def resp_bad_client_def)
  have "\<exists>rs. moves cd [] [] rs ?w w'"
    using a unfolding handle_error_def Let_def r
    by (rule with_poll_moves [OF _ cd tkw]) (erule (3) give_back(2) [OF cd tkw])
  moreover have "moves cd [] [] [] w ?w" by (rule moves_still) (simp_all add: error_log_def split: http_error.split)
  ultimately show ?thesis using moves_trans [of cd "[]" "[]" "[]" w ?w "[]" "[]"] by auto
qed

lemma handle_results_moves:
  assumes cd: "codec_ok cd" and i: "regs_ok i" and t: "times_ok cfg i"
  shows "mid cfg [] [] rs w \<Longrightarrow> handle_results cd cfg i rs w = Ret w' \<Longrightarrow> \<exists>qs. moves cd [] [] qs w w'"
proof (induction rs arbitrary: w)
  case Nil
  then show ?case by (auto intro: still_ex moves_refl)
next
  case (Cons r rs)
  from handle_result_mid [OF cd i t Cons.prems(1)] obtain u where
    u: "handle_result cd cfg i r w = Ret u" "mid cfg [] [] rs u" by blast
  have "\<exists>qs. moves cd [] [] qs w u"
    using u(1) Cons.prems(1) handle_action_moves [OF cd] handle_error_moves [OF cd]
    by (cases r) (auto simp: handle_result_def)
  moreover have "\<exists>qs. moves cd [] [] qs u w'" using Cons.IH [OF u(2)] Cons.prems(2) u(1) by simp
  ultimately show ?case using moves_trans [of cd "[]" "[]" _ w u "[]" "[]" _ w'] by auto
qed

section \<open>Events\<close>

lemma take_write_shift: "take n wb @ write_shift wb n = wb"
proof (cases "n \<le> length wb")
  case False
  then have "length (write_shift wb n) = 0" by (simp add: write_shift_def)
  with False show ?thesis by simp
qed simp

definition event_reads :: "worker_input \<Rightarrow> token \<times> event \<Rightarrow> bytes" where
  "event_reads i x = (if snd x = UnixStreamRead then read_bytes (wi_unix_read i) else [])"

lemma request_bytes_frames:
  "request_bytes cd X = concat (map (frame u8_prefix) (map (\<lambda>m. the (ser_request cd m)) X))"
  by (simp add: request_bytes_def request_frame_def [abs_def] o_def)

lemma ser_request_ok:
  assumes "codec_ok cd"
  shows "the (ser_request cd m) \<noteq> []" "length (the (ser_request cd m)) < 256"
    "de_request cd (the (ser_request cd m)) = Some m"
  using assms unfolding codec_ok_def by (metis option.sel)+

lemma decode_all_map: "(\<And>m. de (ser m) = Some m) \<Longrightarrow> decode_all de (map ser ms) = Some ms"
  by (induction ms) simp_all

lemma unix_read_moves:
  assumes cd: "codec_ok cd" and b: "wb_inv (wk_buf w)" "bytes_ok cd i (wk_buf w)"
    and e: "handle_worker_event cd cfg i (tk, UnixStreamRead) w = Ret (Next w')"
  shows "\<exists>ms. moves cd (read_bytes (wi_unix_read i)) ms [] w w'"
proof (cases "wi_unix_read i")
  case (Err e)
  then show ?thesis using assms(4) by (simp add: wb_read_stream_def leave_on_err_def fatal_result_def)
next
  case (Ok bs)
  let ?b = "wk_buf w"
  obtain ps r where sp: "split_frames 1 1 u8_from (wb_unread ?b @ bs) = (ps, r)"
    by (cases "split_frames 1 1 u8_from (wb_unread ?b @ bs)")
  obtain ms where de: "decode_all (de_request cd) ps = Some ms" and fit: "length bs \<le> wb_space ?b"
    using b(2) Ok sp by (auto simp: bytes_ok_def)
  from wb_read_spec [OF b(1) fit sp de, of "wi_unix_fds i"] obtain b' where
    b': "wb_read_stream cd (Ok bs) (wi_unix_fds i) ?b = Ret (b', Ok ())" "wb_unread b' = r"
    "stream_msgs b' = stream_msgs ?b @ ms" "server_fds b' = server_fds ?b" "wb_write_buffer b' = wb_write_buffer ?b"
    "stream_fds b' = stream_fds ?b @ wi_unix_fds i"
    by blast
  have w': "w' = wlog (UnixGot bs (wi_unix_fds i)) (w\<lparr>wk_buf := b'\<rparr>)"
    using e Ok b'(1) by (simp add: leave_on_err_def fatal_result_def)
  have "\<exists>Y. X = ms @ Y \<and> r @ rest = request_bytes cd Y"
    if X: "wb_unread ?b @ bs @ rest = request_bytes cd X" for rest X
  proof -
    let ?ser = "\<lambda>m. the (ser_request cd m)"
    have ne: "\<forall>p \<in> set (map ?ser X). p \<noteq> [] \<and> length p < 256" using ser_request_ok [OF cd] by simp
    have eq: "(wb_unread ?b @ bs) @ rest = concat (map (frame u8_prefix) (map ?ser X))"
      using X by (simp add: request_bytes_frames)
    from f8.split_prefix [OF ne eq] sp obtain ps2 where
      ps: "map ?ser X = ps @ ps2" "r @ rest = concat (map (frame u8_prefix) ps2)" by auto
    then obtain X1 X2 where X12: "X = X1 @ X2" "ps = map ?ser X1" "ps2 = map ?ser X2"
      by (auto simp: map_eq_append_conv)
    with de decode_all_map [of "de_request cd" ?ser X1] ser_request_ok(3) [OF cd] have "ms = X1" by simp
    with X12 ps(2) show ?thesis by (auto simp: request_bytes_frames)
  qed
  then have "moves cd bs ms [] w w'" using b' by (simp add: moves_def w' live_def)
  then show ?thesis using Ok by auto
qed

lemma event_moves:
  assumes cd: "codec_ok cd" and t: "times_ok cfg i" and d: "during cd cfg i (x # evs) w"
    and e: "handle_worker_event cd cfg i x w = Ret (Next w')"
  shows "\<exists>ms. moves cd (event_reads i x) ms [] w w'"
proof -
  obtain tk ev where x: "x = (tk, ev)" by (cases x)
  have m: "mid cfg (news (x # evs)) (moving (x # evs)) (wk_results w) w" and ok: "events_ok cd i (x # evs) w"
    using d by (simp_all add: during_def)
  have inv: "threads_inv (wk_threads w)" and wb: "wb_inv (wk_buf w)" using m by (simp_all add: mid_def healthy_def)
  show ?thesis
  proof (cases ev)
    case UnixStreamRead
    then have "bytes_ok cd i (wk_buf w)" using ok x by (simp add: events_ok_def)
    from unix_read_moves [OF cd wb this] e show ?thesis by (auto simp: x UnixStreamRead event_reads_def)
  next
    case UnixStreamWrite
    obtain b out r where wr: "wb_write_stream (wi_unix_write i) (wk_buf w) = (b, out, r)"
      by (cases "wb_write_stream (wi_unix_write i) (wk_buf w)")
    then have "out @ wb_write_buffer b = wb_write_buffer (wk_buf w)" "server_fds b = server_fds (wk_buf w)"
      "wb_unread b = wb_unread (wk_buf w)" "stream_msgs b = stream_msgs (wk_buf w)" "stream_fds b = stream_fds (wk_buf w)"
      by (auto simp: wb_write_stream_def wb_unread_def take_write_shift split: result.splits)
    moreover have "w' = wlog (UnixSent out) (w\<lparr>wk_buf := b\<rparr>)"
      using e wr by (auto simp: x UnixStreamWrite leave_on_err_def split: result.splits)
    ultimately show ?thesis
      by (intro exI [of _ "[]"]) (simp add: moves_def x UnixStreamWrite event_reads_def live_def)
  next
    case QueuedRequests
    from send_queued_cases [OF inv] obtain pt r where
      s: "send_queued_requests (wk_threads w) = Ret (pt, r)" and o: "r = Ok () \<Longrightarrow> asked pt = asked (wk_threads w)"
      unfolding asked_def by blast
    have "r = Ok ()" "w' = w\<lparr>wk_threads := pt\<rparr>"
      using e s by (auto simp: x QueuedRequests leave_on_err_def split: result.splits)
    with o show ?thesis
      by (intro exI [of _ "[]"]) (simp add: x QueuedRequests event_reads_def moves_still)
  next
    case PollPythonResponses
    have a: "answers_ok (wi_resps i) (wk_threads w)" using ok by (simp add: x PollPythonResponses events_ok_def)
    have "\<not> wi_starts_gone i"
      using e by (auto simp: x PollPythonResponses take_responses_def leave_on_err_def)
    with take_responses_eq [OF inv a, of "wi_starts i" "wi_resps_gone i" "wk_results w"] e show ?thesis
      by (auto simp: x PollPythonResponses event_reads_def leave_on_err_def asked_def split: if_splits
          intro!: exI [of _ "[]"] moves_still)
  next
    case ServerStreamRead
    with e show ?thesis
      by (auto simp: x event_reads_def push_action_def split: option.splits intro!: exI [of _ "[]"] moves_still)
  next
    case ServerStreamWrite
    with e show ?thesis
      by (auto simp: x event_reads_def push_action_def split: option.splits intro!: exI [of _ "[]"] moves_still)
  next
    case CasketResponseWrite
    with e show ?thesis
      by (auto simp: x event_reads_def push_action_def split: option.splits intro!: exI [of _ "[]"] moves_still)
  qed (use e in \<open>auto simp: x event_reads_def push_action_def intro!: exI [of _ "[]"] moves_still\<close>)
qed


lemma events_moves:
  assumes cd: "codec_ok cd" and t: "times_ok cfg i"
  shows "during cd cfg i evs w \<Longrightarrow> turn_fold (handle_worker_event cd cfg i) evs w = Ret (Next w') \<Longrightarrow>
    \<exists>ms. moves cd (concat (map (event_reads i) evs)) ms [] w w'"
proof (induction evs arbitrary: w)
  case Nil
  then show ?case using moves_refl by auto
next
  case (Cons x evs)
  from Cons.prems(2) obtain u where u: "handle_worker_event cd cfg i x w = Ret (Next u)"
    "turn_fold (handle_worker_event cd cfg i) evs u = Ret (Next w')" by (auto simp: turn_bind_Ret)
  have "during cd cfg i evs u" using event_step [OF t Cons.prems(1)] u(1) by (simp add: returns_def)
  from Cons.IH [OF this u(2)] obtain ms' where
    "moves cd (concat (map (event_reads i) evs)) ms' [] u w'" by blast
  moreover from event_moves [OF cd t Cons.prems(1) u(1)] obtain ms where
    "moves cd (event_reads i x) ms [] w u" by blast
  ultimately show ?case using moves_trans by fastforce
qed

text \<open>The Unix stream is read at most once in a turn.\<close>

lemma event_reads_once:
  "length (filter (\<lambda>x. snd x = UnixStreamRead) evs) \<le> 1 \<Longrightarrow>
   concat (map (event_reads i) evs) = [] \<or> concat (map (event_reads i) evs) = read_bytes (wi_unix_read i)"
proof (induction evs)
  case (Cons x evs)
  show ?case
  proof (cases "snd x = UnixStreamRead")
    case True
    with Cons.prems have "\<forall>y \<in> set evs. snd y \<noteq> UnixStreamRead" by (simp add: filter_empty_conv)
    then have "concat (map (event_reads i) evs) = []" by (induction evs) (simp_all add: event_reads_def)
    with True show ?thesis by (simp add: event_reads_def)
  next
    case False
    with Cons show ?thesis by (simp add: event_reads_def)
  qed
qed simp

section \<open>Timeouts and whole turns\<close>

lemma timeout_moves: "handle_timeout i x w = Ret (Next w') \<Longrightarrow> moves cd [] [] [] w w'"
proof -
  assume e: "handle_timeout i x w = Ret (Next w')"
  obtain tk k where x: "x = (tk, k)" by (cases x)
  have "wk_buf w' = wk_buf w \<and> wk_got w' = wk_got w \<and> wk_sent w' = wk_sent w \<and> wk_fds w' = wk_fds w \<and>
      asked (wk_threads w') = asked (wk_threads w)"
    using e by (cases k) (auto simp: x push_action_def Let_def asked_def timeout_request_def
        split: option.splits prod.splits result.splits)
  then show ?thesis by (intro moves_still) auto
qed

lemma timeouts_moves:
  "turn_fold (handle_timeout i) ts w = Ret (Next w') \<Longrightarrow> moves cd [] [] [] w w'"
proof (induction ts arbitrary: w)
  case Nil
  then show ?case by (simp add: moves_refl)
next
  case (Cons x ts)
  then obtain u where u: "handle_timeout i x w = Ret (Next u)" "turn_fold (handle_timeout i) ts u = Ret (Next w')"
    by (auto simp: turn_bind_Ret)
  from moves_trans [OF timeout_moves [OF u(1)] Cons.IH [OF u(2)]] show ?case by simp
qed

lemma drain_results_moves:
  assumes "codec_ok cd" and "regs_ok i" and "times_ok cfg i" and "mid cfg [] [] (wk_results w) w"
    and d: "drain_results cd cfg i w = Ret w'"
  shows "\<exists>qs. moves cd [] [] qs w w'"
proof -
  have "moves cd [] [] [] w (w\<lparr>wk_results := []\<rparr>)" by (rule moves_still) simp_all
  moreover have "\<exists>qs. moves cd [] [] qs (w\<lparr>wk_results := []\<rparr>) w'"
    using assms(4) d by (intro handle_results_moves [OF assms(1-3)]) (simp_all add: drain_results_def)
  ultimately show ?thesis using moves_trans by fastforce
qed

lemma rearm_moves: "rearm_unix i w = Ret (Next w') \<Longrightarrow> moves cd [] [] [] w w'"
proof (rule moves_still)
  assume "rearm_unix i w = Ret (Next w')"
  then obtain p where "w' = w\<lparr>wk_poll := p\<rparr>"
    by (auto simp: rearm_unix_def Let_def leave_on_err_def split: prod.splits result.splits if_splits)
  then show "wk_buf w' = wk_buf w" "wk_got w' = wk_got w" "wk_sent w' = wk_sent w" "wk_fds w' = wk_fds w"
    "asked (wk_threads w') \<subseteq> asked (wk_threads w) \<union> live w" by auto
qed

text \<open>The parts of a batch, and of a whole turn, that goes on.\<close>

lemma batch_phases:
  assumes cd: "codec_ok cd" and i: "regs_ok i" and t: "times_ok cfg i" and d: "during cd cfg i evs w"
    and b: "handle_batch cd cfg i evs w = Ret (Next w')"
  obtains w1 w2 w3 w4 where
    "turn_fold (handle_worker_event cd cfg i) evs w = Ret (Next w1)" "mid cfg [] [] (wk_results w1) w1"
    "drain_results cd cfg i w1 = Ret w2" "wk_results w2 = []" "wk_timeouts w2 = wk_timeouts w1"
    "turn_fold (handle_timeout i) (wk_timeouts w2) (w2\<lparr>wk_timeouts := []\<rparr>) = Ret (Next w3)"
    "mid cfg [] [] (wk_results w3) w3" "drain_results cd cfg i w3 = Ret w4" "rearm_unix i w4 = Ret (Next w')"
    "canned_only cfg (w2\<lparr>wk_timeouts := []\<rparr>)"
proof -
  from b obtain w1 w2 w3 w4 where
    w1: "turn_fold (handle_worker_event cd cfg i) evs w = Ret (Next w1)" and
    w2: "drain_results cd cfg i w1 = Ret w2" and w3: "drain_timeouts i w2 = Ret (Next w3)" and
    w4: "drain_results cd cfg i w3 = Ret w4" "rearm_unix i w4 = Ret (Next w')"
    by (auto simp: handle_batch_def finish_def turn_bind_Ret)
  have m1: "mid cfg [] [] (wk_results w1) w1"
    using events_during [OF t d] w1 by (simp add: returns_def during_def)
  from drain_results_mid [OF cd i t m1] w2 have
    m2: "mid cfg [] [] [] w2" "wk_results w2 = []" "wk_timeouts w2 = wk_timeouts w1" by auto
  have c2: "canned_only cfg (w2\<lparr>wk_timeouts := []\<rparr>)" using m2 by (simp add: canned_only_def)
  from timeouts_step [OF i this, of "wk_timeouts w2"] w3 have "mid cfg [] [] (wk_results w3) w3"
    by (auto simp: drain_timeouts_def canned_only_def)
  with that [OF w1 m1 w2 m2(2,3)] w3 w4 c2 show thesis by (simp add: drain_timeouts_def)
qed

lemma turn_phases:
  assumes inv: "worker_inv cfg w" and ok: "turn_ok cd cfg i w" and w': "worker_turn cd cfg i w = Ret (Next w')"
  obtains due q u where "pop_expired (wi_now i) (timerq (wk_poll w)) = (due, q)"
    "u = w\<lparr>wk_buf := fst (drain_streams (wk_buf w)), wk_poll := fold use_up (wi_mio i) ((wk_poll w)\<lparr>timerq := q\<rparr>)\<rparr>"
    "during cd cfg i (own_events w @ tick_events i w due) u"
    "handle_batch cd cfg i (own_events w @ tick_events i w due) u = Ret (Next w')"
proof -
  have mio: "mio_ok i w" using ok by (simp add: turn_ok_def)
  obtain due q where pe: "pop_expired (wi_now i) (timerq (wk_poll w)) = (due, q)"
    by (cases "pop_expired (wi_now i) (timerq (wk_poll w))")
  note tick = tick_returns [OF mio_expected_ok [OF inv mio] pe, of "wi_poll_err i" "own_events w"]
  have "handle_batch cd cfg i (own_events w @ tick_events i w due)
      (w\<lparr>wk_buf := fst (drain_streams (wk_buf w)), wk_poll := fold use_up (wi_mio i) ((wk_poll w)\<lparr>timerq := q\<rparr>)\<rparr>) = Ret (Next w')"
    using w' tick by (cases "wi_poll_err i")
      (auto simp: worker_turn_def poll_events_def Let_def tick_events_def split: if_splits)
  from that [OF pe refl start_during [OF inv ok pe] this] show thesis .
qed

lemma batch_moves:
  assumes cd: "codec_ok cd" and i: "regs_ok i" and t: "times_ok cfg i" and d: "during cd cfg i evs w"
    and b: "handle_batch cd cfg i evs w = Ret (Next w')"
  shows "\<exists>bs ms qs. moves cd bs ms qs w w' \<and> (bs = [] \<or> bs = read_bytes (wi_unix_read i))"
proof -
  obtain w1 w2 w3 w4 where
    w1: "turn_fold (handle_worker_event cd cfg i) evs w = Ret (Next w1)" "mid cfg [] [] (wk_results w1) w1" and
    w2: "drain_results cd cfg i w1 = Ret w2" and
    w3: "turn_fold (handle_timeout i) (wk_timeouts w2) (w2\<lparr>wk_timeouts := []\<rparr>) = Ret (Next w3)"
      "mid cfg [] [] (wk_results w3) w3" and
    w4: "drain_results cd cfg i w3 = Ret w4" and w5: "rearm_unix i w4 = Ret (Next w')"
    by (rule batch_phases [OF cd i t d b])
  have s: "moves cd [] [] [] w2 (w2\<lparr>wk_timeouts := []\<rparr>)" by (rule moves_still) simp_all
  obtain ms where e1: "moves cd (concat (map (event_reads i) evs)) ms [] w w1"
    using events_moves [OF cd t d w1(1)] by blast
  obtain q1 where e2: "moves cd [] [] q1 w1 w2" using drain_results_moves [OF cd i t w1(2) w2] by blast
  have e3: "moves cd [] [] [] w2 w3" using moves_trans [OF s timeouts_moves [OF w3(1)]] by simp
  obtain q2 where e4: "moves cd [] [] q2 w3 w4" using drain_results_moves [OF cd i t w3(2) w4] by blast
  note all = moves_trans [OF e1 moves_trans [OF e2 moves_trans [OF e3 moves_trans [OF e4 rearm_moves [OF w5]]]]]
  have "length (filter (\<lambda>x. snd x = UnixStreamRead) evs) \<le> 1" using d by (simp add: during_def events_ok_def)
  note reads = event_reads_once [OF this, of i]
  have "moves cd (concat (map (event_reads i) evs)) ms (q1 @ q2) w w'" using all by simp
  with reads show ?thesis by blast
qed

lemma worker_turn_moves:
  assumes cd: "codec_ok cd" and inv: "worker_inv cfg w" and ok: "turn_ok cd cfg i w"
    and w': "worker_turn cd cfg i w = Ret (Next w')"
  shows "\<exists>bs ms qs. moves cd bs ms qs (w\<lparr>wk_buf := fst (drain_streams (wk_buf w))\<rparr>) w' \<and>
     (bs = [] \<or> bs = read_bytes (wi_unix_read i))"
proof -
  have i: "regs_ok i" and t: "times_ok cfg i" using ok by (simp_all add: turn_ok_def)
  let ?d = "w\<lparr>wk_buf := fst (drain_streams (wk_buf w))\<rparr>"
  obtain due q u where
    u: "u = w\<lparr>wk_buf := fst (drain_streams (wk_buf w)), wk_poll := fold use_up (wi_mio i) ((wk_poll w)\<lparr>timerq := q\<rparr>)\<rparr>" and
    b: "during cd cfg i (own_events w @ tick_events i w due) u"
      "handle_batch cd cfg i (own_events w @ tick_events i w due) u = Ret (Next w')"
    by (rule turn_phases [OF inv ok w'])
  from batch_moves [OF cd i t b] obtain bs ms qs where
    "moves cd bs ms qs u w'" "bs = [] \<or> bs = read_bytes (wi_unix_read i)" by blast
  moreover have "moves cd [] [] [] ?d u" by (rule moves_still) (simp_all add: u)
  ultimately show ?thesis using moves_trans [of cd "[]" "[]" "[]" ?d u] by fastforce
qed

end
