(* ===== verification/WorkerTimers.thy ===== *)
theory WorkerTimers
  imports WorkerFlow WorkerClaims
begin

text \<open>
  The two deadlines of a worker. A connection is taken on together with a timer for reading its
  request, and a timer for its Python code is set when a thread reports that it has started. A
  timer leaves the queue only when a turn polls at or after its time, and by the end of that turn
  the connection has left the table the timer guards.
\<close>

section \<open>Timers stay until they are due\<close>

abbreviation read_timer :: "token \<Rightarrow> systime \<Rightarrow> timer_entry" where
  "read_timer tk d \<equiv> \<lparr>te_token = tk, te_timeout = d, te_event = RequestReadTimeout\<rparr>"

abbreviation code_timer :: "token \<Rightarrow> systime \<Rightarrow> timer_entry" where
  "code_timer tk d \<equiv> \<lparr>te_token = tk, te_timeout = d, te_event = PythonCodeTimeout\<rparr>"

definition timers :: "worker \<Rightarrow> timer_entry set" where
  "timers w = set (timerq (wk_poll w))"

text \<open>The timer of a connection that is taken on in the turn \<open>i\<close>.\<close>

definition armed_now :: "config \<Rightarrow> worker_input \<Rightarrow> worker \<Rightarrow> token \<Rightarrow> bool" where
  "armed_now cfg i w tk \<longleftrightarrow>
     (\<exists>d. systime_add (wi_action_now i tk) (request_read_timeout cfg) = Ret d \<and> read_timer tk d \<in> timers w)"

lemma timers_simps [simp]:
  "timers (w\<lparr>wk_buf := b\<rparr>) = timers w" "timers (w\<lparr>wk_results := f\<rparr>) = timers w"
  "timers (w\<lparr>wk_threads := pt\<rparr>) = timers w" "timers (w\<lparr>wk_reading := a\<rparr>) = timers w"
  "timers (w\<lparr>wk_pending := c\<rparr>) = timers w" "timers (w\<lparr>wk_writing := d\<rparr>) = timers w"
  "timers (w\<lparr>wk_casket := e\<rparr>) = timers w" "timers (w\<lparr>wk_timeouts := g\<rparr>) = timers w"
  "timers (w\<lparr>wk_closing := h\<rparr>) = timers w" "timers (wlog l w) = timers w" "timers (displaced old w) = timers w"
  "timers (w\<lparr>wk_poll := p\<rparr>) = set (timerq p)"
  by (simp_all add: timers_def)

lemma armed_now_mono: "armed_now cfg i v tk \<Longrightarrow> timers v \<subseteq> timers w \<Longrightarrow> armed_now cfg i w tk"
  by (auto simp: armed_now_def)

section \<open>Events\<close>

text \<open>The results that keep a connection in the table of requests being read, bring one in, or
  bring one into the table of pending requests.\<close>

fun reads_on :: "action_result \<Rightarrow> token list" where
  "reads_on (Ok (ServerContinueRead tk _ _)) = [tk]"
| "reads_on _ = []"

fun takes_on :: "action_result \<Rightarrow> token list" where
  "takes_on (Ok (NewServerRequest tk _)) = [tk]"
| "takes_on _ = []"

fun queues_on :: "action_result \<Rightarrow> token list" where
  "queues_on (Ok (ServerReadDone tk _ _)) = [tk]"
| "queues_on _ = []"

fun timeout_of :: "token \<times> event \<Rightarrow> (token \<times> timeout) list" where
  "timeout_of (tk, RequestReadTimeout) = [(tk, RequestRead)]"
| "timeout_of (tk, PythonCodeTimeout) = [(tk, PythonCode)]"
| "timeout_of _ = []"

lemma leave_on_err_Next [simp]: "leave_on_err w r = Ret (Next w') \<longleftrightarrow> r = Ok () \<and> w' = w"
  by (cases r) (auto simp: leave_on_err_def)

lemma take_resps_effect:
  "take_resps_loop rs pt results = Ret (pt', results') \<Longrightarrow>
   toks reads_on results' = toks reads_on results \<and> set results \<subseteq> set results' \<and> asked pt' = asked pt"
  by (induction rs pt results rule: take_resps_loop.induct) (auto simp: Let_def asked_def split: if_splits)

lemma take_responses_effect:
  "take_responses starts sg rs rg pt results = Ret (pt', results', r) \<Longrightarrow>
   toks reads_on results' = toks reads_on results \<and> set results \<union> start_action ` set starts \<subseteq> set results' \<and>
   asked pt' = asked pt"
proof -
  have "toks reads_on (map start_action starts) = []" by (rule toks_empty) (auto simp: start_action_def)
  then show "take_responses starts sg rs rg pt results = Ret (pt', results', r) \<Longrightarrow> ?thesis"
    by (auto simp: take_responses_def Let_def dest!: take_resps_effect split: if_splits)
qed

lemma not_Ok_unit: "(r :: ('e, unit) result) \<noteq> Ok () \<longleftrightarrow> (\<exists>e. r = Err e)"
  by (cases r) auto

lemma send_queued_sent:
  "send_queued_loop q pt = Ret (pt', Ok ()) \<Longrightarrow>
   queued_reqs pt' = queued_reqs pt \<and> resp_tokens (pt_sent pt') = resp_tokens (pt_sent pt) @ map fst q"
  by (induction q pt rule: send_queued_loop.induct) (auto simp: not_Ok_unit split: result.split_asm)

lemma send_queued_asked: "send_queued_requests pt = Ret (pt', Ok ()) \<Longrightarrow> asked pt' = asked pt"
  by (force simp: send_queued_requests_def asked_def dest!: send_queued_sent)

lemma reads_on_read:
  assumes "event_server_stream_read lib res tk fd rd = Ret r"
  shows "set (reads_on r) \<subseteq> {tk}"
proof -
  obtain a where r: "r = (case a of
          Err e \<Rightarrow> stream_error tk fd e
        | Ok (ReadPartial rd) \<Rightarrow> Ok (ServerContinueRead tk rd fd)
        | Ok (ReadComplete req) \<Rightarrow> Ok (ServerReadDone tk req fd)
        | Ok StreamEOF \<Rightarrow> Ok (ServerStreamEOF tk fd))"
    using assms unfolding event_server_stream_read_def exec_bind_Ret_iff by blast
  show ?thesis by (simp add: r stream_error_def split: result.split read_state.split)
qed

definition starts_of :: "worker_input \<Rightarrow> token \<times> event \<Rightarrow> action_result set" where
  "starts_of i x = (if snd x = PollPythonResponses then start_action ` set (wi_starts i) else {})"

lemma starts_of_simps [simp]: "snd x \<noteq> PollPythonResponses \<Longrightarrow> starts_of i x = {}"
  by (simp add: starts_of_def)

text \<open>What the events \<open>evs\<close> do: they set no timer, note the timeouts, and leave a connection whose
  request is being read in its table or in a result.\<close>

definition events_effect :: "worker_input \<Rightarrow> (token \<times> event) list \<Rightarrow> worker \<Rightarrow> worker \<Rightarrow> bool" where
  "events_effect i evs w w' \<longleftrightarrow>
     wk_poll w' = wk_poll w \<and> wk_timeouts w' = wk_timeouts w @ concat (map timeout_of evs) \<and>
     set (toks reads_on (wk_results w')) \<union> hm_keys (wk_reading w') \<subseteq>
       set (toks reads_on (wk_results w)) \<union> hm_keys (wk_reading w) \<and>
     hm_keys (wk_pending w') \<subseteq> hm_keys (wk_pending w) \<and> asked (wk_threads w) \<subseteq> asked (wk_threads w') \<and>
     set (wk_results w) \<union> (\<Union>x \<in> set evs. starts_of i x) \<subseteq> set (wk_results w')"

lemma event_timers:
  assumes "handle_worker_event cd cfg i x w = Ret (Next w')"
  shows "events_effect i [x] w w'"
proof -
  obtain tk ev where x: "x = (tk, ev)" by (cases x)
  show ?thesis
  proof (cases ev)
    case UnixStreamRead
    with assms show ?thesis by (auto simp: events_effect_def x)
  next
    case UnixStreamWrite
    with assms show ?thesis by (auto simp: events_effect_def x Let_def split: prod.splits)
  next
    case ServerStreamRead
    with assms obtain fd rd r where g: "hm_get (wk_reading w) tk = Some (fd, rd)"
      "event_server_stream_read (wi_lib i tk) (wi_read i tk) tk fd rd = Ret r"
      "w' = push_action r (w\<lparr>wk_reading := hm_delete tk (wk_reading w)\<rparr>)"
      by (auto simp: events_effect_def x split: option.splits)
    with reads_on_read [OF g(2)] hm_get_SomeD [OF g(1)] show ?thesis by (auto simp: events_effect_def x ServerStreamRead push_action_def)
  next
    case QueuedRequests
    with assms show ?thesis by (auto simp: events_effect_def x dest: send_queued_asked)
  next
    case PollPythonResponses
    with assms show ?thesis
      by (auto simp: events_effect_def x starts_of_def dest!: take_responses_effect)
  next
    case ServerStreamWrite
    with assms show ?thesis
      by (auto simp: events_effect_def x push_action_def event_server_stream_write_def stream_error_def
          split: option.splits result.splits write_state.splits)
  next
    case CasketResponseWrite
    with assms show ?thesis
      by (auto simp: events_effect_def x push_action_def event_casket_response_write_def stream_error_def Let_def
          split: option.splits result.splits if_splits)
  qed (use assms in \<open>auto simp: events_effect_def x push_action_def new_503_service_busy_def split: if_splits\<close>)
qed

lemma events_timers:
  "turn_fold (handle_worker_event cd cfg i) evs w = Ret (Next w') \<Longrightarrow> events_effect i evs w w'"
proof (induction evs arbitrary: w)
  case Nil
  then show ?case by (simp add: events_effect_def)
next
  case (Cons x evs)
  then obtain u where u: "handle_worker_event cd cfg i x w = Ret (Next u)"
    "turn_fold (handle_worker_event cd cfg i) evs u = Ret (Next w')" by (auto simp: turn_bind_Ret)
  from event_timers [OF u(1)] Cons.IH [OF u(2)] show ?case
    unfolding events_effect_def by (auto 0 3)
qed

section \<open>Results\<close>

text \<open>From \<open>w\<close> to \<open>w'\<close> no timer goes, and no connection comes into the tables of the two deadlines.\<close>

definition quiet :: "worker \<Rightarrow> worker \<Rightarrow> bool" where
  "quiet w w' \<longleftrightarrow>
     timers w \<subseteq> timers w' \<and> hm_keys (wk_reading w') \<subseteq> hm_keys (wk_reading w) \<and>
     hm_keys (wk_pending w') \<subseteq> hm_keys (wk_pending w) \<and> asked (wk_threads w) \<subseteq> asked (wk_threads w')"

lemma quiet_refl [simp]: "quiet w w"
  by (simp add: quiet_def)

lemma quiet_trans: "quiet u v \<Longrightarrow> quiet v w \<Longrightarrow> quiet u w"
  by (auto simp: quiet_def)

lemma quiet_wlog [simp]: "quiet w (wlog l v) = quiet w v" "quiet (wlog l w) v = quiet w v"
  by (simp_all add: quiet_def)

lemma quiet_put [simp]:
  "quiet w (put_writing tk y v) = quiet w v" "quiet w (put_casket tk z v) = quiet w v"
  by (simp_all add: quiet_def put_defs)

lemma respond_quiet: "respond f v = Ret w' \<Longrightarrow> quiet w v \<Longrightarrow> quiet w w'"
  by (auto simp: respond_def quiet_def)

lemma with_poll_quiet:
  assumes "with_poll cd tk fd call k w = Ret w'" and "\<And>p. timerq (fst (call p)) = timerq p"
  obtains "quiet w w'" | p where "k (w\<lparr>wk_poll := p\<rparr>) = Ret w'" "timerq p = timerq (wk_poll w)"
proof -
  obtain p r where c: "call (wk_poll w) = (p, r)" by (cases "call (wk_poll w)")
  have p: "timerq p = timerq (wk_poll w)" using assms(2) [of "wk_poll w"] c by simp
  show thesis
  proof (cases r)
    case (Err e)
    with assms(1) c have "respond (resp_stream_reg_error cd tk e) (wlog (StreamDropped fd) (w\<lparr>wk_poll := p\<rparr>)) = Ret w'"
      by (simp add: with_poll_def)
    then have "quiet w w'" by (rule respond_quiet) (simp add: quiet_def timers_def p)
    then show thesis by (rule that(1))
  next
    case (Ok x)
    with assms(1) c p that(2) show thesis by (simp add: with_poll_def)
  qed
qed

lemma call_timerq [simp]:
  "timerq (fst (register_read r tk ev p)) = timerq p" "timerq (fst (reregister_read r tk ev p)) = timerq p"
  "timerq (fst (register_write r tk ev p)) = timerq p" "timerq (fst (reregister_write r tk ev p)) = timerq p"
  "timerq (fst (deregister r tk p)) = timerq p"
  by (simp_all add: poll_call_defs deregister_def set_reg_def)

lemma quiet_set_poll: "timerq p = timerq (wk_poll v) \<Longrightarrow> quiet w v \<Longrightarrow> quiet w (v\<lparr>wk_poll := p\<rparr>)"
  by (simp add: quiet_def timers_def)

lemmas quiet_poll = quiet_set_poll [OF _ quiet_refl]

text \<open>The two ways in which an action ends that leaves the tables alone.\<close>

lemma give_back_quiet:
  "respond f (wlog l (v\<lparr>wk_poll := p\<rparr>)) = Ret w' \<Longrightarrow> timerq p = timerq (wk_poll v) \<Longrightarrow> quiet w v \<Longrightarrow> quiet w w'"
  "respond f (wlog l (wlog m (v\<lparr>wk_poll := p\<rparr>))) = Ret w' \<Longrightarrow> timerq p = timerq (wk_poll v) \<Longrightarrow> quiet w v \<Longrightarrow> quiet w w'"
  by (erule respond_quiet, simp add: quiet_set_poll)+

text \<open>What handling a result can bring into the two tables, and which timers it sets.\<close>

definition result_effect :: "config \<Rightarrow> worker_input \<Rightarrow> action_result \<Rightarrow> worker \<Rightarrow> worker \<Rightarrow> bool" where
  "result_effect cfg i r w w' \<longleftrightarrow>
     timers w \<subseteq> timers w' \<and> asked (wk_threads w) \<subseteq> asked (wk_threads w') \<and>
     hm_keys (wk_reading w') \<subseteq> hm_keys (wk_reading w) \<union> set (reads_on r) \<union> {tk \<in> set (takes_on r). armed_now cfg i w' tk} \<and>
     hm_keys (wk_pending w') \<subseteq> hm_keys (wk_pending w) \<union> set (queues_on r) \<and>
     (\<forall>tk st. r = Ok (ServerPythonCodeTimeoutNew tk st) \<longrightarrow>
        (\<exists>d. systime_add st (python_code_timeout cfg) = Ret d \<and> code_timer tk d \<in> timers w'))"

lemma quiet_effect: "quiet w w' \<Longrightarrow> (\<And>tk st. r \<noteq> Ok (ServerPythonCodeTimeoutNew tk st)) \<Longrightarrow> result_effect cfg i r w w'"
  by (auto simp: quiet_def result_effect_def)

lemma with_poll_effect:
  assumes "with_poll cd tk fd call k w = Ret w'" and "\<And>p. timerq (fst (call p)) = timerq p"
    and "\<And>tk st. r \<noteq> Ok (ServerPythonCodeTimeoutNew tk st)"
    and "\<And>p. k (w\<lparr>wk_poll := p\<rparr>) = Ret w' \<Longrightarrow> timerq p = timerq (wk_poll w) \<Longrightarrow> result_effect cfg i r w w'"
  shows "result_effect cfg i r w w'"
  using assms(1,2) by (rule with_poll_quiet) (use assms(3,4) in \<open>blast intro: quiet_effect\<close>)+

lemma handle_action_effect:
  assumes a: "handle_action cd cfg i act w = Ret w'"
  shows "result_effect cfg i (Ok act) w w'"
proof (cases act)
  case (NewServerRequest tk fd)
  from a show ?thesis unfolding NewServerRequest handle_action.simps
  proof (rule with_poll_effect)
    fix p
    assume p: "timerq p = timerq (wk_poll w)"
      and k: "exec_bind (systime_add (wi_action_now i tk) (request_read_timeout cfg))
        (\<lambda>tmo. Ret (put_reading tk (fd, reader_new)
           (w\<lparr>wk_poll := p, wk_poll := timer_event tk tmo RequestReadTimeout (wk_poll (w\<lparr>wk_poll := p\<rparr>))\<rparr>))) = Ret w'"
    then show "result_effect cfg i (Ok (NewServerRequest tk fd)) w w'"
      by (auto simp: result_effect_def put_defs timer_event_def timer_push_set armed_now_def timers_def)
  qed simp_all
next
  case (ServerContinueRead tk rd fd)
  from a show ?thesis unfolding ServerContinueRead handle_action.simps
    by (rule with_poll_effect) (auto simp: result_effect_def put_defs timers_def)
next
  case (ServerReadDone tk req fd)
  from a show ?thesis unfolding ServerReadDone handle_action.simps
    by (rule with_poll_effect) (auto simp: result_effect_def put_defs timers_def)
next
  case (ServerNewResponse tk resp)
  then obtain fd where "hm_get (wk_pending w) tk = Some fd"
    using a by (auto split: option.splits)
  with a have "with_poll cd tk fd (register_write (wi_reg i tk OpRegister) tk ServerStreamWrite)
      (\<lambda>w. Ret (put_writing tk (fd, writer_new resp) w)) (w\<lparr>wk_pending := hm_delete tk (wk_pending w)\<rparr>) = Ret w'"
    by (simp add: ServerNewResponse)
  then have "quiet (w\<lparr>wk_pending := hm_delete tk (wk_pending w)\<rparr>) w'"
    by (rule with_poll_quiet) (auto intro!: quiet_poll)
  then show ?thesis by (auto simp: ServerNewResponse quiet_def result_effect_def)
next
  case (ServerPythonCodeTimeoutNew tk st)
  with a show ?thesis by (auto simp: result_effect_def timer_event_def timer_push_set timers_def)
next
  case (ServerStreamEOF tk fd)
  from a show ?thesis unfolding ServerStreamEOF handle_action.simps
    by (rule with_poll_effect) (simp_all, intro quiet_effect, erule give_back_quiet, simp_all)
next
  case (ServerDoneWrite tk resp fd)
  have "quiet (wlog (LogResponse resp) w) w'"
    using a unfolding ServerDoneWrite handle_action.simps
    by (rule with_poll_quiet) (simp, assumption, erule give_back_quiet, simp_all)
  then show ?thesis by (intro quiet_effect) (simp_all add: ServerDoneWrite)
next
  case (ServerCasketResponseDone tk fd cr)
  from a show ?thesis unfolding ServerCasketResponseDone handle_action.simps
    by (rule with_poll_effect) (simp_all, intro quiet_effect, erule give_back_quiet, simp_all)
qed (use a in \<open>simp only: handle_action.simps; elim with_poll_quiet; auto intro!: quiet_effect quiet_poll\<close>)+

lemma handle_result_effect:
  assumes "handle_result cd cfg i r w = Ret w'"
  shows "result_effect cfg i r w w'"
proof (cases r)
  case (Ok act)
  with assms handle_action_effect show ?thesis by (simp add: handle_result_def)
next
  case (Err e)
  have "quiet (wlog (error_log (ae_error e)) w) w'"
    using assms unfolding Err handle_result_def handle_error_def Let_def result.case
    by (rule with_poll_quiet) (simp, assumption, erule give_back_quiet, simp_all)
  then show ?thesis by (intro quiet_effect) (simp_all add: Err)
qed

definition results_effect ::
  "config \<Rightarrow> worker_input \<Rightarrow> action_result list \<Rightarrow> worker \<Rightarrow> worker \<Rightarrow> bool" where
  "results_effect cfg i rs w w' \<longleftrightarrow>
     timers w \<subseteq> timers w' \<and> asked (wk_threads w) \<subseteq> asked (wk_threads w') \<and>
     hm_keys (wk_reading w') \<subseteq>
       hm_keys (wk_reading w) \<union> set (toks reads_on rs) \<union> {tk \<in> set (toks takes_on rs). armed_now cfg i w' tk} \<and>
     hm_keys (wk_pending w') \<subseteq> hm_keys (wk_pending w) \<union> set (toks queues_on rs) \<and>
     (\<forall>tk st. Ok (ServerPythonCodeTimeoutNew tk st) \<in> set rs \<longrightarrow>
        (\<exists>d. systime_add st (python_code_timeout cfg) = Ret d \<and> code_timer tk d \<in> timers w'))"

lemma handle_results_effect: "handle_results cd cfg i rs w = Ret w' \<Longrightarrow> results_effect cfg i rs w w'"
proof (induction rs arbitrary: w)
  case Nil
  then show ?case by (simp add: results_effect_def)
next
  case (Cons r rs)
  from Cons.prems obtain u where u: "handle_result cd cfg i r w = Ret u" "handle_results cd cfg i rs u = Ret w'"
    by auto
  note e = handle_result_effect [OF u(1), unfolded result_effect_def] Cons.IH [OF u(2), unfolded results_effect_def]
  have armed: "armed_now cfg i u tk \<Longrightarrow> armed_now cfg i w' tk" for tk
    using e by (auto intro: armed_now_mono)
  show ?case unfolding results_effect_def
  proof (intro conjI allI impI)
    fix tk st assume "Ok (ServerPythonCodeTimeoutNew tk st) \<in> set (r # rs)"
    then show "\<exists>d. systime_add st (python_code_timeout cfg) = Ret d \<and> code_timer tk d \<in> timers w'"
      using e by fastforce
  qed (use e armed in auto)
qed

section \<open>Timeouts\<close>

text \<open>The connection of a timeout has left the table the timeout is about.\<close>

fun let_go :: "token \<times> timeout \<Rightarrow> worker \<Rightarrow> bool" where
  "let_go (tk, RequestRead) w \<longleftrightarrow> tk \<notin> hm_keys (wk_reading w)"
| "let_go (tk, PythonCode) w \<longleftrightarrow> tk \<notin> hm_keys (wk_pending w)"

lemma let_go_quiet: "let_go x w \<Longrightarrow> quiet w w' \<Longrightarrow> let_go x w'"
  by (cases "(x, w)" rule: let_go.cases) (auto simp: quiet_def)

text \<open>A result that brings nothing into the two tables.\<close>

definition idle_result :: "action_result \<Rightarrow> bool" where
  "idle_result r \<longleftrightarrow> reads_on r = [] \<and> takes_on r = [] \<and> queues_on r = []"

lemma timeout_effect:
  assumes "handle_timeout i x w = Ret (Next w')" and "list_all idle_result (wk_results w)"
  shows "quiet w w' \<and> let_go x w' \<and> list_all idle_result (wk_results w')"
proof -
  obtain tk k where x: "x = (tk, k)" by (cases x)
  have [simp]: "asked (timeout_request tk pt) = asked pt" for pt by (simp add: timeout_request_def)
  show ?thesis
  proof (cases k)
    case RequestRead
    with assms show ?thesis
      by (auto simp: x quiet_def push_action_def deregister_def timers_def Let_def hm_get_None_iff idle_result_def
          new_408_timeout_def split: option.splits result.splits if_splits)
  next
    case PythonCode
    with assms show ?thesis
      by (auto simp: x quiet_def push_action_def timers_def hm_get_None_iff idle_result_def
          new_504_gateway_timeout_def split: option.splits)
  qed
qed

lemma timeouts_effect:
  "turn_fold (handle_timeout i) ts w = Ret (Next w') \<Longrightarrow> list_all idle_result (wk_results w) \<Longrightarrow>
   quiet w w' \<and> (\<forall>x \<in> set ts. let_go x w') \<and> list_all idle_result (wk_results w')"
proof (induction ts arbitrary: w)
  case (Cons x ts)
  then obtain u where u: "handle_timeout i x w = Ret (Next u)" "turn_fold (handle_timeout i) ts u = Ret (Next w')"
    by (auto simp: turn_bind_Ret)
  from timeout_effect [OF u(1) Cons.prems(2)] Cons.IH [OF u(2)] show ?case
    by (auto intro: quiet_trans let_go_quiet)
qed simp

lemma idle_results_quiet:
  assumes "results_effect cfg i rs w w'" and "list_all idle_result rs"
  shows "quiet w w'"
proof -
  have "toks reads_on rs = []" "toks takes_on rs = []" "toks queues_on rs = []"
    using assms(2) by (auto intro!: toks_empty simp: idle_result_def list_all_iff)
  with assms(1) show ?thesis by (simp add: results_effect_def quiet_def)
qed

lemma rearm_quiet: "rearm_unix i w = Ret (Next w') \<Longrightarrow> quiet w w'"
  by (auto simp: rearm_unix_def Let_def reregister_rw_def reregister_read_def set_reg_def
      intro!: quiet_poll split: if_splits)

section \<open>Whole turns\<close>

text \<open>
  From \<open>w\<close> to \<open>w'\<close> by the turn \<open>i\<close>: a timer that is not due stays; what a due timer guards is let
  go; a connection whose request is being read was read before or has its timer; a pending one
  was pending before or not yet asked about; and a start that is reported sets its timer.
\<close>

definition turn_effect :: "config \<Rightarrow> worker_input \<Rightarrow> worker \<Rightarrow> worker \<Rightarrow> bool" where
  "turn_effect cfg i w w' \<longleftrightarrow>
     {e \<in> timers w. wi_now i < te_timeout e} \<subseteq> timers w' \<and>
     (\<forall>e \<in> timers w. te_timeout e \<le> wi_now i \<longrightarrow>
        (\<forall>x \<in> set (timeout_of (te_token e, te_event e)). let_go x w')) \<and>
     (\<forall>tk \<in> hm_keys (wk_reading w'). tk \<in> hm_keys (wk_reading w) \<or> armed_now cfg i w' tk) \<and>
     hm_keys (wk_pending w') \<inter> asked (wk_threads w) \<subseteq> hm_keys (wk_pending w) \<and>
     asked (wk_threads w) \<subseteq> asked (wk_threads w') \<and>
     (0 < num_pending_reqs (wk_threads w) \<longrightarrow>
        (\<forall>(n, st) \<in> set (wi_starts i).
           \<exists>d. systime_add st (python_code_timeout cfg) = Ret d \<and> code_timer (Token n) d \<in> timers w'))"

lemma queues_on_read: "set (queues_on r) \<subseteq> set (read_tok r)"
  by (cases r rule: queues_on.cases) auto

lemma batch_effect:
  assumes cd: "codec_ok cd" and i: "regs_ok i" and t: "times_ok cfg i" and d: "during cd cfg i evs w"
    and w: "wk_results w = []" "wk_timeouts w = []"
    and b: "handle_batch cd cfg i evs w = Ret (Next w')"
  shows "timers w \<subseteq> timers w' \<and> (\<forall>x \<in> set (concat (map timeout_of evs)). let_go x w') \<and>
     (\<forall>tk \<in> hm_keys (wk_reading w'). tk \<in> hm_keys (wk_reading w) \<or> armed_now cfg i w' tk) \<and>
     hm_keys (wk_pending w') \<inter> asked (wk_threads w) \<subseteq> hm_keys (wk_pending w) \<and>
     asked (wk_threads w) \<subseteq> asked (wk_threads w') \<and>
     (\<forall>x \<in> set evs. \<forall>tk st. Ok (ServerPythonCodeTimeoutNew tk st) \<in> starts_of i x \<longrightarrow>
        (\<exists>d. systime_add st (python_code_timeout cfg) = Ret d \<and> code_timer tk d \<in> timers w'))"
proof -
  obtain w1 w2 w3 w4 where
    w1: "turn_fold (handle_worker_event cd cfg i) evs w = Ret (Next w1)" and m1: "mid cfg [] [] (wk_results w1) w1" and
    w2: "drain_results cd cfg i w1 = Ret w2" and r2: "wk_results w2 = []" "wk_timeouts w2 = wk_timeouts w1" and
    w3: "turn_fold (handle_timeout i) (wk_timeouts w2) (w2\<lparr>wk_timeouts := []\<rparr>) = Ret (Next w3)" and
    w4: "drain_results cd cfg i w3 = Ret w4" and w5: "rearm_unix i w4 = Ret (Next w')"
    by (rule batch_phases [OF cd i t d b])
  note e1 = events_timers [OF w1, unfolded events_effect_def]
  have e2: "results_effect cfg i (wk_results w1) (w1\<lparr>wk_results := []\<rparr>) w2"
    using w2 by (auto simp: drain_results_def intro: handle_results_effect)
  have e3: "quiet w2 w3" "\<forall>x \<in> set (wk_timeouts w2). let_go x w3" "list_all idle_result (wk_results w3)"
    using timeouts_effect [OF w3] r2(1) by (simp_all add: quiet_def)
  have "quiet (w3\<lparr>wk_results := []\<rparr>) w4"
    using w4 e3(3) by (intro idle_results_quiet) (auto simp: drain_results_def intro: handle_results_effect)
  then have q4: "quiet w3 w'" using rearm_quiet [OF w5] by (auto simp: quiet_def)
  then have q: "quiet w2 w'" using e3(1) by (rule quiet_trans [rotated])
  have new: "set (toks queues_on (wk_results w1)) \<inter> asked (wk_threads w1) = {}"
    using m1 toks_mono [of queues_on read_tok, OF queues_on_read] by (auto simp: mid_def not_asked_def)
  have armed: "armed_now cfg i w2 tk \<Longrightarrow> armed_now cfg i w' tk" for tk
    using q by (auto simp: quiet_def intro: armed_now_mono)
  have t1: "timers w1 = timers w" using e1 by (simp add: timers_def)
  show ?thesis
  proof (intro conjI ballI allI impI)
    fix tk assume tk: "tk \<in> hm_keys (wk_reading w')"
    have "set (toks reads_on (wk_results w1)) \<union> hm_keys (wk_reading w1) \<subseteq> hm_keys (wk_reading w)"
      using e1 w(1) by simp
    moreover have "tk \<in> hm_keys (wk_reading w1) \<union> set (toks reads_on (wk_results w1)) \<or> armed_now cfg i w2 tk"
      using tk q e2 by (auto simp: results_effect_def quiet_def)
    ultimately show "tk \<in> hm_keys (wk_reading w) \<or> armed_now cfg i w' tk" using armed by blast
  next
    fix x tk st assume "x \<in> set evs" and s: "Ok (ServerPythonCodeTimeoutNew tk st) \<in> starts_of i x"
    then have "Ok (ServerPythonCodeTimeoutNew tk st) \<in> set (wk_results w1)" using e1 by blast
    then show "\<exists>d. systime_add st (python_code_timeout cfg) = Ret d \<and> code_timer tk d \<in> timers w'"
      using e2 q by (fastforce simp: results_effect_def quiet_def)
  next
    show "timers w \<subseteq> timers w'" using e2 q t1 by (auto simp: results_effect_def quiet_def)
    show "asked (wk_threads w) \<subseteq> asked (wk_threads w')"
      using e1 e2 q by (auto simp: results_effect_def quiet_def)
    have "hm_keys (wk_pending w') \<subseteq> hm_keys (wk_pending w1) \<union> set (toks queues_on (wk_results w1))"
      using e2 q by (auto simp: results_effect_def quiet_def)
    moreover have "hm_keys (wk_pending w1) \<subseteq> hm_keys (wk_pending w)" "asked (wk_threads w) \<subseteq> asked (wk_threads w1)"
      using e1 by simp_all
    ultimately show "hm_keys (wk_pending w') \<inter> asked (wk_threads w) \<subseteq> hm_keys (wk_pending w)"
      using new by blast
    fix x assume "x \<in> set (concat (map timeout_of evs))"
    then have "x \<in> set (wk_timeouts w2)" using r2(2) e1 w(2) by simp
    then show "let_go x w'" using e3(2) let_go_quiet [OF _ q4] by blast
  qed
qed

lemma worker_turn_effect:
  assumes cd: "codec_ok cd" and inv: "worker_inv cfg w" and ok: "turn_ok cd cfg i w"
    and w': "worker_turn cd cfg i w = Ret (Next w')"
  shows "turn_effect cfg i w w'"
proof -
  have i: "regs_ok i" and t: "times_ok cfg i" using ok by (simp_all add: turn_ok_def)
  obtain due q u where pe: "pop_expired (wi_now i) (timerq (wk_poll w)) = (due, q)" and
    u: "u = w\<lparr>wk_buf := fst (drain_streams (wk_buf w)), wk_poll := fold use_up (wi_mio i) ((wk_poll w)\<lparr>timerq := q\<rparr>)\<rparr>" and
    b: "during cd cfg i (own_events w @ tick_events i w due) u"
      "handle_batch cd cfg i (own_events w @ tick_events i w due) u = Ret (Next w')"
    by (rule turn_phases [OF inv ok w'])
  let ?evs = "own_events w @ tick_events i w due"
  have "wk_results u = []" "wk_timeouts u = []" using inv by (simp_all add: u worker_inv_def)
  note e = batch_effect [OF cd i t b(1) this b(2)]
  have "timer_inv (timerq (wk_poll w))" using inv by (simp add: worker_inv_def mid_def healthy_def timers_ok_def)
  from pop_expired_spec [OF this pe] have
    "set_mset (mset due) = {e \<in> timers w. te_timeout e \<le> wi_now i}"
    "set_mset (mset q) = {e \<in> timers w. \<not> te_timeout e \<le> wi_now i}"
    by (auto simp: timers_def)
  then have split: "set due = {e \<in> timers w. te_timeout e \<le> wi_now i}"
    "timers u = {e \<in> timers w. \<not> te_timeout e \<le> wi_now i}" by (simp_all add: u timers_def)
  have due: "(te_token e, te_event e) \<in> set ?evs" if "e \<in> timers w" "te_timeout e \<le> wi_now i" for e
    using that split(1) by (auto simp: tick_events_def)
  have "\<exists>d. systime_add st (python_code_timeout cfg) = Ret d \<and> code_timer (Token n) d \<in> timers w'"
    if "0 < num_pending_reqs (wk_threads w)" "(n, st) \<in> set (wi_starts i)" for n st
  proof -
    have "(NO_TOKEN, PollPythonResponses) \<in> set ?evs" using that(1) by (simp add: own_events_def)
    moreover have "Ok (ServerPythonCodeTimeoutNew (Token n) st) \<in> starts_of i (NO_TOKEN, PollPythonResponses)"
      using that(2) by (force simp: starts_of_def start_action_def)
    ultimately show ?thesis using e by blast
  qed
  moreover have "let_go x w'" if "e \<in> timers w" "te_timeout e \<le> wi_now i" "x \<in> set (timeout_of (te_token e, te_event e))" for e x
    using e due [OF that(1,2)] that(3) by (simp only: set_concat set_map) blast
  ultimately show ?thesis using e split(2) unfolding turn_effect_def by (simp add: u) auto
qed

lemma worker_step_effect: "worker_step cd cfg i w w' \<Longrightarrow> worker_inv cfg w \<Longrightarrow> turn_effect cfg i w w'"
  by (auto simp: worker_step_def intro: worker_turn_effect)

section \<open>Deadlines are kept\<close>

text \<open>A timer of a run is there, or a turn has polled at or after its time.\<close>

lemma read_deadline_kept:
  "run (worker_step cd cfg) w is w' \<Longrightarrow> worker_inv cfg w \<Longrightarrow> tk \<in> hm_keys (wk_reading w') \<Longrightarrow>
   tk \<in> hm_keys (wk_reading w) \<and> (\<forall>d. read_timer tk d \<in> timers w \<longrightarrow> (\<forall>k \<in> set is. wi_now k < d)) \<or>
   (\<exists>js i ks v d. is = js @ i # ks \<and> run (worker_step cd cfg) w js v \<and> tk \<notin> hm_keys (wk_reading v) \<and>
      systime_add (wi_action_now i tk) (request_read_timeout cfg) = Ret d \<and> (\<forall>k \<in> set ks. wi_now k < d))"
proof (induction rule: run.induct)
  case (run_nil w)
  then show ?case by simp
next
  case (run_cons i w u ks w')
  note e = worker_step_effect [OF run_cons.hyps(1) run_cons.prems(1), unfolded turn_effect_def]
  have inv: "worker_inv cfg u" using run_cons.hyps(1) run_cons.prems(1) by (rule wkr.step_inv)
  from run_cons.IH [OF inv run_cons.prems(2)] show ?case
  proof (elim disjE)
    assume later: "\<exists>js j ls v d. ks = js @ j # ls \<and> run (worker_step cd cfg) u js v \<and> tk \<notin> hm_keys (wk_reading v) \<and>
      systime_add (wi_action_now j tk) (request_read_timeout cfg) = Ret d \<and> (\<forall>k \<in> set ls. wi_now k < d)"
    then obtain js j ls v d where l: "ks = js @ j # ls" "run (worker_step cd cfg) u js v" "tk \<notin> hm_keys (wk_reading v)"
      "systime_add (wi_action_now j tk) (request_read_timeout cfg) = Ret d" "\<forall>k \<in> set ls. wi_now k < d" by blast
    then have "i # ks = (i # js) @ j # ls" "run (worker_step cd cfg) w (i # js) v" using run_cons.hyps(1) by auto
    with l(3-5) show ?thesis by (intro disjI2) blast
  next
    assume here: "tk \<in> hm_keys (wk_reading u) \<and> (\<forall>d. read_timer tk d \<in> timers u \<longrightarrow> (\<forall>k \<in> set ks. wi_now k < d))"
    show ?thesis
    proof (cases "tk \<in> hm_keys (wk_reading w)")
      case True
      have "\<forall>k \<in> set (i # ks). wi_now k < d" if "read_timer tk d \<in> timers w" for d
      proof -
        have now: "wi_now i < d"
          using bspec [OF conjunct1 [OF conjunct2 [OF e]] that] here by fastforce
        with conjunct1 [OF e] that have "read_timer tk d \<in> timers u" by auto
        with here now show ?thesis by simp
      qed
      with True show ?thesis by blast
    next
      case False
      with e here have "armed_now cfg i u tk" by blast
      then obtain d where d: "systime_add (wi_action_now i tk) (request_read_timeout cfg) = Ret d"
        "read_timer tk d \<in> timers u" unfolding armed_now_def by blast
      with here have "\<forall>k \<in> set ks. wi_now k < d" by blast
      with False d(1) show ?thesis
        by (intro disjI2 exI [of _ "[]"] exI [of _ i] exI [of _ ks] exI [of _ w] exI [of _ d]) simp
    qed
  qed
qed

lemma code_deadline_kept:
  "run (worker_step cd cfg) w ks w' \<Longrightarrow> worker_inv cfg w \<Longrightarrow> tk \<in> asked (wk_threads w) \<Longrightarrow>
   tk \<in> hm_keys (wk_pending w') \<Longrightarrow>
   tk \<in> hm_keys (wk_pending w) \<and> (\<forall>d. code_timer tk d \<in> timers w \<longrightarrow> (\<forall>k \<in> set ks. wi_now k < d))"
proof (induction rule: run.induct)
  case (run_nil w)
  then show ?case by simp
next
  case (run_cons i w u ks w')
  note e = worker_step_effect [OF run_cons.hyps(1) run_cons.prems(1), unfolded turn_effect_def]
  have inv: "worker_inv cfg u" using run_cons.hyps(1) run_cons.prems(1) by (rule wkr.step_inv)
  have "tk \<in> asked (wk_threads u)" using e run_cons.prems(2) by blast
  note ih = run_cons.IH [OF inv this run_cons.prems(3)]
  have "\<forall>k \<in> set (i # ks). wi_now k < d" if "code_timer tk d \<in> timers w" for d
  proof -
    have now: "wi_now i < d" using bspec [OF conjunct1 [OF conjunct2 [OF e]] that] ih by fastforce
    with conjunct1 [OF e] that have "code_timer tk d \<in> timers u" by auto
    with ih now show ?thesis by simp
  qed
  moreover have "tk \<in> hm_keys (wk_pending w)" using e ih run_cons.prems(2) by blast
  ultimately show ?case by blast
qed

text \<open>C11: no request is read for longer than \<open>CASKET_REQUEST_READ_TIMEOUT\<close>, however slowly its bytes
  arrive. In any run of a worker, a connection whose request is still being read was taken on in
  some turn of the run, and every turn since has polled before the deadline set then; so the
  first turn that polls at or after the deadline lets the connection go.\<close>

theorem read_timeout_enforced:
  assumes "sender_inv sq" and "run (worker_step cd cfg) (worker_start sq) is w"
    and "tk \<in> hm_keys (wk_reading w)"
  shows "\<exists>js i ks v d. is = js @ i # ks \<and>
     run (worker_step cd cfg) (worker_start sq) js v \<and> tk \<notin> hm_keys (wk_reading v) \<and>
     systime_add (wi_action_now i tk) (request_read_timeout cfg) = Ret d \<and> (\<forall>k \<in> set ks. wi_now k < d)"
proof -
  have "tk \<notin> hm_keys (wk_reading (worker_start sq))" by (simp add: worker_start_def)
  with read_deadline_kept [OF assms(2) worker_start_inv [OF assms(1)] assms(3)] show ?thesis by blast
qed

text \<open>C12: no connection waits for Python code beyond \<open>CASKET_PYTHON_CODE_GATEWAY_TIMEOUT\<close> from the
  start its thread has reported: once a later turn polls at or after that deadline, the
  connection is not waiting, and it never waits again.\<close>

theorem code_timeout_enforced:
  assumes "worker_inv cfg v" and "run (worker_step cd cfg) v (i # ks) w"
    and "0 < num_pending_reqs (wk_threads v)" and "(n, st) \<in> set (wi_starts i)" and "Token n \<in> asked (wk_threads v)"
    and "systime_add st (python_code_timeout cfg) = Ret d" and "k \<in> set ks" and "d \<le> wi_now k"
  shows "Token n \<notin> hm_keys (wk_pending w)"
proof
  assume tk: "Token n \<in> hm_keys (wk_pending w)"
  obtain u where u: "worker_step cd cfg i v u" "run (worker_step cd cfg) u ks w" using assms(2) by auto
  note e = worker_step_effect [OF u(1) assms(1), unfolded turn_effect_def]
  have inv: "worker_inv cfg u" using u(1) assms(1) by (rule wkr.step_inv)
  have asked: "Token n \<in> asked (wk_threads u)" using e assms(5) by blast
  have "code_timer (Token n) d \<in> timers u" using e assms(3,4,6) by fastforce
  with code_deadline_kept [OF u(2) inv asked tk] assms(7,8) show False by fastforce
qed

section \<open>Examples\<close>

text \<open>The connection of \<open>registration\<close> has until 30 seconds after it was taken on.\<close>

theorem read_timeout_enforced_witness:
  "\<exists>(w :: worker) js i ks. wk_reading w = [(Token 0x1000000, (9, reader_new))] \<and>
     [arrival_turn, idle_turn] = js @ i # ks \<and> (\<forall>k \<in> set ks. wi_now k < from_secs 30)"
proof -
  obtain w1 w2 where r: "run (worker_step fixed_codec start_config) start_worker [arrival_turn, idle_turn] w2"
    and k: "wk_reading w2 = [(Token 0x1000000, (9, reader_new))]"
    by (rule registration)
  have "Token 0x1000000 \<in> hm_keys (wk_reading w2)" by (simp add: k hm_keys_def)
  from read_timeout_enforced [OF start_sender r [unfolded start_worker_def] this] obtain js i ks d where
    e: "[arrival_turn, idle_turn] = js @ i # ks" "\<forall>k \<in> set ks. wi_now k < d"
    "systime_add (wi_action_now i (Token 0x1000000)) (request_read_timeout start_config) = Ret d" by blast
  have "i \<in> {arrival_turn, idle_turn}" using arg_cong [OF e(1), of set] by auto
  then have "wi_action_now i (Token 0x1000000) = 0" by (auto simp: arrival_turn_def idle_turn_def)
  with e k show ?thesis by auto
qed

text \<open>A thread reports at time 0 that it has started on the request of \<open>waiting_worker\<close>; eleven
  seconds later the worker polls again.\<close>

definition start_turn :: worker_input where
  "start_turn = idle_turn\<lparr>wi_starts := [(4, 0)]\<rparr>"

definition late_turn :: worker_input where
  "late_turn = idle_turn\<lparr>wi_now := from_secs 11\<rparr>"

lemmas quiet_turn_defs =
  worker_turn_def may_close_def poll_events_def own_events_def has_queued_reqs_def Let_def tick_def
  pop_expired.simps timer_peek_def timer_pop_def handle_batch_def leave_on_err_def fatal_result_def finish_def
  drain_results_def drain_timeouts_def rearm_unix_def wb_has_data_to_send_def reregister_read_def reg_result_def
  take_responses_def start_action_def handle_result_def timer_event_def set_reg_def

lemma start_turn_run:
  obtains w1 where "worker_turn fixed_codec start_config start_turn waiting_worker = Ret (Next w1)"
    "timerq (wk_poll w1) = [code_timer (Token 4) (from_secs 10)]" "wk_pending w1 = [(Token 4, 9)]"
    "wk_threads w1 = wk_threads waiting_worker" "wk_reading w1 = []" "wk_writing w1 = []" "wk_casket w1 = []"
    "wk_results w1 = []" "wk_timeouts w1 = []" "wk_closing w1 = False" "wk_buf w1 = wk_buf waiting_worker"
  by (simp add: quiet_turn_defs waiting_worker_def start_turn_def idle_turn_def start_worker_def worker_start_def
      worker_buf_new_def drain_none python_threads_new_def start_config_def default_config_def from_secs_def
      systime_add_def register_read_def poller_new_def UNIX_STREAM_TOKEN_def)

lemma late_turn_run:
  assumes "timerq (wk_poll w) = [code_timer (Token 4) (from_secs 10)]" and "wk_pending w = [(Token 4, 9)]"
    and "wk_threads w = wk_threads waiting_worker" and "wk_reading w = []" and "wk_writing w = []" and "wk_casket w = []"
    and "wk_results w = []" and "wk_timeouts w = []" and "wk_closing w = False" and "wk_buf w = wk_buf waiting_worker"
  obtains w2 where "worker_turn fixed_codec start_config late_turn w = Ret (Next w2)"
    "wk_casket w2 = [(Token 4, (9, \<lparr>cr_code = 504, cr_response = HTTP_504_RESPONSE,
        cr_reason = ''gateway timeout'', cr_bytes_sent = 0\<rparr>))]"
  using assms
  by (simp add: quiet_turn_defs waiting_worker_def late_turn_def idle_turn_def start_worker_def worker_start_def
      worker_buf_new_def drain_none python_threads_new_def from_secs_def turn_bind.simps hm_get_def
      push_action_def new_504_gateway_timeout_def with_poll_def register_write_def put_casket_def displaced_def
      hm_insert_def hm_delete_def)

lemma waiting_turn_ok:
  assumes "wk_reading w = []" and "wk_buf w = wk_buf waiting_worker" and "i \<in> {start_turn, late_turn}"
  shows "turn_ok fixed_codec start_config i w"
proof -
  have "regs_ok i" "reads_ok i w" "mio_ok i w" "wi_resps i = []"
    using assms(1,3) idle_turn_ok(1,3) by (auto simp: regs_ok_def reads_ok_def mio_ok_def start_turn_def late_turn_def idle_turn_def)
  moreover have "times_ok start_config i"
    using assms(3) idle_turn_ok(2)
    by (auto simp: times_ok_def start_turn_def late_turn_def idle_turn_def systime_add_def start_config_def
        default_config_def from_secs_def)
  moreover have "fresh_streams w"
    using assms(2) by (simp add: fresh_streams_def waiting_worker_def worker_buf_new_def drain_none)
  moreover have "bytes_ok fixed_codec i (wk_buf w)"
    using assms(2,3) by (auto simp: bytes_ok_def start_turn_def late_turn_def idle_turn_def waiting_worker_def
        worker_buf_new_def wb_unread_def split8_short simp del: One_nat_def)
  ultimately show ?thesis by (simp add: turn_ok_def answers_ok_def)
qed

theorem code_timeout_enforced_witness:
  "\<exists>w :: worker. run (worker_step fixed_codec start_config) waiting_worker [start_turn, late_turn] w \<and>
     Token 4 \<in> hm_keys (wk_pending waiting_worker) \<and> Token 4 \<notin> hm_keys (wk_pending w) \<and>
     Token 4 \<in> hm_keys (wk_casket w)"
proof -
  obtain w1 where w1: "worker_turn fixed_codec start_config start_turn waiting_worker = Ret (Next w1)"
    "timerq (wk_poll w1) = [code_timer (Token 4) (from_secs 10)]" "wk_pending w1 = [(Token 4, 9)]"
    "wk_threads w1 = wk_threads waiting_worker" "wk_reading w1 = []" "wk_writing w1 = []" "wk_casket w1 = []"
    "wk_results w1 = []" "wk_timeouts w1 = []" "wk_closing w1 = False" "wk_buf w1 = wk_buf waiting_worker"
    by (rule start_turn_run)
  obtain w2 where w2: "worker_turn fixed_codec start_config late_turn w1 = Ret (Next w2)"
    "wk_casket w2 = [(Token 4, (9, \<lparr>cr_code = 504, cr_response = HTTP_504_RESPONSE,
        cr_reason = ''gateway timeout'', cr_bytes_sent = 0\<rparr>))]"
    by (rule late_turn_run [OF w1(2-11)])
  have r0: "wk_reading waiting_worker = []" by (simp add: waiting_worker_def start_worker_def worker_start_def)
  have r: "run (worker_step fixed_codec start_config) waiting_worker [start_turn, late_turn] w2"
    using w1(1,5,11) w2(1) r0 waiting_turn_ok fixed_codec_ok by (auto simp: worker_step_def)
  have p: "0 < num_pending_reqs (wk_threads waiting_worker)" "(4, 0) \<in> set (wi_starts start_turn)"
    "Token 4 \<in> asked (wk_threads waiting_worker)" "Token 4 \<in> hm_keys (wk_pending waiting_worker)"
    by (simp_all add: waiting_worker_def start_turn_def asked_def hm_keys_def)
  have d: "systime_add 0 (python_code_timeout start_config) = Ret (from_secs 10)"
    by (simp add: start_config_def default_config_def systime_add_def from_secs_def)
  have k: "late_turn \<in> set [late_turn]" "from_secs 10 \<le> wi_now late_turn"
    by (simp_all add: late_turn_def from_secs_def)
  from code_timeout_enforced [OF waiting_worker_inv r p(1-3) d k] r p(4) w2(2) show ?thesis
    by (auto simp: hm_keys_def)
qed

end
