(* ===== verification/WorkerThreads.thy ===== *)
theory WorkerThreads
  imports PythonExecProps
begin

text \<open>
  A worker and its Python threads together: \<open>PythonThreads\<close> at one end of the channels and the
  threads of \<open>PythonExec\<close> at the other. No code is modelled here.
\<close>

section \<open>The answer to a request\<close>

text \<open>The response to a call, when the call returns: that of the application, or of its failure.\<close>

definition answer_to :: "py_lib \<Rightarrow> config \<Rightarrow> string \<times> u16 \<Rightarrow> body_rx \<Rightarrow> 's py_call \<Rightarrow> http_response option" where
  "answer_to lib cfg server ch call =
     (let l = set_context (req_context (pc_req call)) reqlocal_start
      in map_option (\<lambda>(r, req, ps). into_http_response req (fst (response_of cfg (req_context req) r (ps_log ps))) ch)
           (execute lib (pc_app call) server (pc_req call)
              \<lparr>ps_local = l, ps_input = wsgi_input_new [], ps_log = []\<rparr>))"

definition responses :: "thread_msg list \<Rightarrow> (usize \<times> http_response) list" where
  "responses ms = concat (map (\<lambda>m. case m of Response k r \<Rightarrow> [(k, r)] | _ \<Rightarrow> []) ms)"

lemma responses_simps [simp]:
  "responses [] = []" "responses (Response k r # ms) = (k, r) # responses ms"
  "responses (CodeStart k t # ms) = responses ms" "responses (BodyPart c b # ms) = responses ms"
  "responses (BodyClosed c # ms) = responses ms" "responses (ms @ ms') = responses ms @ responses ms'"
  "responses (map (BodyPart c) bs) = []"
  by (simp_all add: responses_def comp_def)

lemma responses_keys: "map fst (responses ms) = answered ms"
  by (induction ms) (simp_all add: responses_def answered_def split: thread_msg.split)

lemma send_body_responses:
  "responses (ts_msgs (end_state (send_body lib app n ch src ps ts))) = responses (ts_msgs ts)"
  by (auto simp: send_body_def send_msgs_def split_beta Let_def split: resp_source.split stream_end.split)

lemma serve_responses:
  "(k, r) \<in> set (responses (ts_msgs (end_state (serve_request lib cfg server n ch call fresh_thread)))) \<Longrightarrow>
     k = pc_key call \<and> answer_to lib cfg server ch call = Some r"
  by (auto simp: serve_request_def Let_def fresh_thread_def send_msgs_def send_body_responses answer_to_def
      split: option.splits prod.splits if_splits)

lemma run_responses:
  "(k, r) \<in> set (responses (ts_msgs (end_state (run_thread lib cfg server n ch calls ts)))) \<Longrightarrow>
     (k, r) \<in> set (responses (ts_msgs ts)) \<or>
     (\<exists>call \<in> set calls. \<exists>c. pc_key call = k \<and> answer_to lib cfg server c call = Some r)"
proof (induction calls arbitrary: ch ts)
  case (Cons call calls)
  let ?u = "serve_request lib cfg server n ch call fresh_thread"
  note u = serve_after [of lib cfg server n ch call ts]
  have here: "\<exists>c. pc_key call = k \<and> answer_to lib cfg server c call = Some r"
    if "(k, r) \<in> set (responses (ts_msgs (end_state ?u)))" using serve_responses [OF that] by blast
  show ?case
  proof (cases "\<exists>v. ?u = Served v")
    case True
    then obtain v where v: "?u = Served v" by blast
    have "(k, r) \<in> set (responses (ts_msgs (end_state (run_thread lib cfg server n (ch + 1) calls (after_state ts v)))))"
      using Cons.prems by (simp add: u v)
    from Cons.IH [OF this] here show ?thesis by (auto simp: v after_state_def)
  next
    case False
    then have "run_thread lib cfg server n ch (call # calls) ts = map_served (after_state ts) ?u"
      by (cases ?u) (simp_all add: u)
    with Cons.prems here show ?thesis by (auto simp: after_state_def)
  qed
qed simp

section \<open>The threads' side of the channels\<close>

text \<open>A thread so far: what it was started with, and the requests it has received.\<close>

record 's thread_run =
  tr_lib :: py_lib
  tr_cfg :: config
  tr_server :: "string \<times> u16"
  tr_rounds :: nat
  tr_calls :: "'s py_call list"

definition sent_back :: "'s thread_run \<Rightarrow> (usize \<times> http_response) list" where
  "sent_back tr = responses (ts_msgs (end_state
     (run_thread (tr_lib tr) (tr_cfg tr) (tr_server tr) (tr_rounds tr) 0 (tr_calls tr) fresh_thread)))"

definition received :: "'s thread_run \<Rightarrow> (usize \<times> http_request) list" where
  "received tr = map (\<lambda>call. (pc_key call, pc_req call)) (tr_calls tr)"

text \<open>
  The channels: a request is received by one thread, once, after the worker has sent it; and a
  response the worker takes is one that a thread has sent, and is taken once.
\<close>

definition threads_give :: "'s thread_run list \<Rightarrow> (usize \<times> http_response) list \<Rightarrow> python_threads \<Rightarrow> bool" where
  "threads_give ths rs pt \<longleftrightarrow>
     mset (concat (map received ths)) \<subseteq># mset (pt_sent pt) \<and>
     mset (pt_taken pt @ rs) \<subseteq># mset (concat (map sent_back ths))"

lemma sent_back_tokens: "mset (resp_tokens (sent_back tr)) \<subseteq># mset (resp_tokens (received tr))"
proof -
  obtain n where n: "map fst (sent_back tr) = take n (map pc_key (tr_calls tr))"
    using answers_are_prefix [of "tr_lib tr" "tr_cfg tr" "tr_server tr" "tr_rounds tr" 0 "tr_calls tr" fresh_thread]
    by (auto simp: sent_back_def responses_keys fresh_thread_def)
  have "resp_tokens (sent_back tr) = map Token (take n (map pc_key (tr_calls tr)))"
    unfolding n [symmetric] by (simp add: resp_tokens_def)
  moreover have "resp_tokens (received tr) = map Token (map pc_key (tr_calls tr))"
    by (simp add: resp_tokens_def received_def)
  moreover have "mset (map Token (take n ks)) \<subseteq># mset (map Token ks)" for ks
    by (metis append_take_drop_id map_append mset_append mset_subset_eq_add_left)
  ultimately show ?thesis by (simp only:)
qed

text \<open>Part of a list, as multisets.\<close>

lemma part_of:
  assumes "mset xs \<subseteq># mset ys"
  shows "set xs \<subseteq> set ys" "distinct ys \<Longrightarrow> distinct xs"
proof -
  obtain zs where "mset ys = mset (xs @ zs)"
    using assms by (metis ex_mset mset_append mset_subset_eq_exists_conv)
  then have "set ys = set (xs @ zs)" "distinct ys = distinct (xs @ zs)"
    by (metis set_mset_mset, rule mset_eq_imp_distinct_iff)
  then show "set xs \<subseteq> set ys" "distinct ys \<Longrightarrow> distinct xs" by auto
qed

lemma resp_tokens_mset: "mset xs \<subseteq># mset ys \<Longrightarrow> mset (resp_tokens xs) \<subseteq># mset (resp_tokens ys)"
  by (simp add: resp_tokens_def image_mset_subseteq_mono)

lemma sent_back_all:
  "mset (resp_tokens (concat (map sent_back ths))) \<subseteq># mset (resp_tokens (concat (map received ths)))"
  by (induction ths) (auto intro: subset_mset.add_mono sent_back_tokens)

lemma threads_give_owed:
  assumes "threads_inv pt" and g: "threads_give ths rs pt"
  shows "answers_ok rs pt"
proof -
  have b: "mset (pt_inflight pt) + mset (resp_tokens (pt_taken pt)) = mset (resp_tokens (pt_sent pt))"
    and d: "distinct (pt_inflight pt)" using assms(1) by (simp_all add: threads_inv_def books_ok_def)
  have "mset (resp_tokens (pt_taken pt @ rs)) \<subseteq># mset (resp_tokens (concat (map sent_back ths)))"
    using g by (intro resp_tokens_mset) (simp add: threads_give_def)
  also note sent_back_all
  also have "mset (resp_tokens (concat (map received ths))) \<subseteq># mset (resp_tokens (pt_sent pt))"
    using g by (intro resp_tokens_mset) (simp add: threads_give_def)
  finally have "mset (resp_tokens rs) \<subseteq># mset (pt_inflight pt)" unfolding b [symmetric] by (simp add: add.commute)
  from part_of [OF this] d show ?thesis by (simp add: answers_ok_def)
qed

lemma threads_give_answers:
  assumes inv: "threads_inv pt" and g: "threads_give ths rs pt" and r: "(k, resp) \<in> set (pt_taken pt @ rs)"
  shows "\<exists>req. (\<forall>x. (k, x) \<in> set (pt_sent pt) \<longleftrightarrow> x = req) \<and>
     (\<exists>tr \<in> set ths. \<exists>call \<in> set (tr_calls tr). \<exists>c. pc_key call = k \<and> pc_req call = req \<and>
        answer_to (tr_lib tr) (tr_cfg tr) (tr_server tr) c call = Some resp)"
proof -
  have "set (pt_taken pt @ rs) \<subseteq> set (concat (map sent_back ths))"
    using g by (intro part_of(1)) (simp add: threads_give_def)
  with r obtain tr where tr: "tr \<in> set ths" "(k, resp) \<in> set (sent_back tr)" by auto
  from run_responses [OF tr(2) [unfolded sent_back_def]] obtain call c where
    call: "call \<in> set (tr_calls tr)" "pc_key call = k" "answer_to (tr_lib tr) (tr_cfg tr) (tr_server tr) c call = Some resp"
    by (auto simp: fresh_thread_def)
  have "set (concat (map received ths)) \<subseteq> set (pt_sent pt)"
    using g by (intro part_of(1)) (simp add: threads_give_def)
  with call(1,2) tr(1) have sent: "(k, pc_req call) \<in> set (pt_sent pt)" by (force simp: received_def)
  have "distinct (map (\<lambda>x. Token (fst x)) (pt_sent pt))"
    using inv by (simp add: threads_inv_def books_ok_def resp_tokens_def)
  then have "inj_on (\<lambda>x. Token (fst x)) (set (pt_sent pt))" by (simp add: distinct_map)
  then have u: "(k, x) = (k, pc_req call)" if "(k, x) \<in> set (pt_sent pt)" for x
    by (rule inj_onD) (simp, rule that, rule sent)
  have "(k, x) \<in> set (pt_sent pt) \<longleftrightarrow> x = pc_req call" for x using u [of x] sent by blast
  then show ?thesis
    using call tr(1) by (intro exI [of _ "pc_req call"]) blast
qed

section \<open>The answers of a thread are those of its requests\<close>

text \<open>C5: what comes back from the Python threads is what the worker relies on, whatever the
  application does: each response names a request that was sent and not answered before, none
  twice, and it is the application's answer (or the error response) to that very request.\<close>

theorem responses_are_own:
  assumes "threads_inv pt" and "threads_give ths rs pt"
  shows "answers_ok rs pt \<and>
     (\<forall>(k, resp) \<in> set rs. \<exists>req. (\<forall>x. (k, x) \<in> set (pt_sent pt) \<longleftrightarrow> x = req) \<and>
        (\<exists>tr \<in> set ths. \<exists>call \<in> set (tr_calls tr). \<exists>c. pc_key call = k \<and> pc_req call = req \<and>
           answer_to (tr_lib tr) (tr_cfg tr) (tr_server tr) c call = Some resp))"
  using threads_give_owed [OF assms] threads_give_answers [OF assms] by auto

definition example_thread :: "iter_step list thread_run" where
  "example_thread = \<lparr>tr_lib = example_lib, tr_cfg = example_config, tr_server = (''host'', 8080), tr_rounds = 3,
     tr_calls = [example_call 4 (list_app [IterItem (PyBytes ''ab'')])]\<rparr>"

lemma responses_sent: "\<exists>resp. sent_back example_thread = [(4, resp)]"
  by (simp add: sent_back_def example_thread_def serve_request_def fresh_thread_def send_msgs_def Let_def call_state_eq
      example_call_def example_exec [unfolded example_state_def] example_run response_of_def send_body_def
      numeral_eq_Suc bytes_iter_next_def call_state_def [symmetric])

theorem responses_are_own_witness:
  "\<exists>resp. sent_back example_thread = [(4, resp)] \<and> answers_ok [(4, resp)] busy_threads"
proof -
  obtain resp where r: "sent_back example_thread = [(4, resp)]" using responses_sent by blast
  have "received example_thread = [(4, sample_request)]"
    by (simp add: received_def example_thread_def example_call_def)
  then have "threads_give [example_thread] [(4, resp)] busy_threads"
    using r by (simp add: threads_give_def busy_threads_def)
  from responses_are_own [OF busy_threads_inv this] r show ?thesis by auto
qed

end
