(* ===== verification/WorkerLife.thy ===== *)
theory WorkerLife
  imports WorkerTimers WorkerThreads
begin

text \<open>
  The life of one connection in a worker, as a machine of its own, and the proof that a worker
  with any number of connections is these machines side by side: what a connection goes through,
  and what is written to it, depends on no other connection. No code is modelled here.
\<close>

section \<open>One connection\<close>

text \<open>
  A connection that the server has handed over and that is not taken on yet; one whose request is
  being read, or has been; one that waits for its response; one it is written to; one that gets a
  canned response; and one that is about to be given back.
\<close>

datatype conn =
    Arrived raw_fd
  | Reading raw_fd reader
  | Received raw_fd http_request
  | Waiting raw_fd http_request
  | Answering raw_fd writer
  | Refusing raw_fd casket_response
  | Leaving raw_fd

text \<open>
  The steps of the connection \<open>tk\<close>. It shares with others only the threads: \<open>Q\<close> are the requests
  given to them and \<open>A\<close> the responses taken from them, with their tokens.
\<close>

inductive life :: "(token \<times> http_request) set \<Rightarrow> (token \<times> http_response) set \<Rightarrow> token \<Rightarrow> conn \<Rightarrow> conn \<Rightarrow> bool"
  for Q A tk where
  taken_on: "life Q A tk (Arrived fd) (Reading fd reader_new)"
| busy: "new_503_service_busy tk fd = ServerCasketResponseNew tk fd cr \<Longrightarrow> life Q A tk (Arrived fd) (Refusing fd cr)"
| read_part: "read_tcp_stream lib res rd = Ret (Ok (ReadPartial rd')) \<Longrightarrow> life Q A tk (Reading fd rd) (Reading fd rd')"
| read_all: "read_tcp_stream lib res rd = Ret (Ok (ReadComplete req)) \<Longrightarrow> life Q A tk (Reading fd rd) (Received fd req)"
| read_end: "read_tcp_stream lib res rd = Ret (Ok StreamEOF) \<Longrightarrow> life Q A tk (Reading fd rd) (Leaving fd)"
| read_fails: "read_tcp_stream lib res rd = Ret (Err e) \<Longrightarrow> life Q A tk (Reading fd rd) (Leaving fd)"
| read_late: "new_408_timeout tk fd = ServerCasketResponseNew tk fd cr \<Longrightarrow> life Q A tk (Reading fd rd) (Refusing fd cr)"
| asked_for: "(tk, req) \<in> Q \<Longrightarrow> life Q A tk (Received fd req) (Waiting fd req)"
| answered_by: "(tk, resp) \<in> A \<Longrightarrow> life Q A tk (Waiting fd req) (Answering fd (writer_new resp))"
| code_late: "new_504_gateway_timeout tk fd = ServerCasketResponseNew tk fd cr \<Longrightarrow>
    life Q A tk (Waiting fd req) (Refusing fd cr)"
| write_part: "write_tcp_stream rv res wr = (out, Ok (WritePartial wr')) \<Longrightarrow> life Q A tk (Answering fd wr) (Answering fd wr')"
| write_all: "write_tcp_stream rv res wr = (out, Ok (WriteDone resp)) \<Longrightarrow> life Q A tk (Answering fd wr) (Leaving fd)"
| write_fails: "write_tcp_stream rv res wr = (out, Err e) \<Longrightarrow> life Q A tk (Answering fd wr) (Leaving fd)"
| refuse_part: "event_casket_response_write res tk fd cr = Ok (ServerCasketResponseContinue tk fd cr') \<Longrightarrow>
    life Q A tk (Refusing fd cr) (Refusing fd cr')"
| refuse_all: "event_casket_response_write res tk fd cr = Ok (ServerCasketResponseDone tk fd cr') \<Longrightarrow>
    life Q A tk (Refusing fd cr) (Leaving fd)"
| refuse_fails: "event_casket_response_write res tk fd cr = Err e \<Longrightarrow> life Q A tk (Refusing fd cr) (Leaving fd)"

inductive_cases life_ReadingE: "life Q A tk c (Reading fd rd)"
inductive_cases life_ReceivedE: "life Q A tk c (Received fd req)"
inductive_cases life_WaitingE: "life Q A tk c (Waiting fd req)"
inductive_cases life_AnsweringE: "life Q A tk c (Answering fd wr)"

abbreviation lives :: "(token \<times> http_request) set \<Rightarrow> (token \<times> http_response) set \<Rightarrow> token \<Rightarrow> conn \<Rightarrow> conn \<Rightarrow> bool" where
  "lives Q A tk \<equiv> (life Q A tk)\<^sup>*\<^sup>*"

lemma life_mono: "life Q A tk c d \<Longrightarrow> Q \<subseteq> Q' \<Longrightarrow> A \<subseteq> A' \<Longrightarrow> life Q' A' tk c d"
  by (induction rule: life.induct) (auto intro: life.intros)

lemma lives_mono: "lives Q A tk c d \<Longrightarrow> Q \<subseteq> Q' \<Longrightarrow> A \<subseteq> A' \<Longrightarrow> lives Q' A' tk c d"
  by (induction rule: rtranclp.induct) (auto intro: rtranclp.rtrancl_into_rtrancl life_mono)

fun conn_fd :: "conn \<Rightarrow> raw_fd" where
  "conn_fd (Arrived fd) = fd"
| "conn_fd (Reading fd _) = fd"
| "conn_fd (Received fd _) = fd"
| "conn_fd (Waiting fd _) = fd"
| "conn_fd (Answering fd _) = fd"
| "conn_fd (Refusing fd _) = fd"
| "conn_fd (Leaving fd) = fd"

lemma lives_fd: "lives Q A tk c d \<Longrightarrow> conn_fd d = conn_fd c"
proof (induction rule: rtranclp.induct)
  case (rtrancl_into_rtrancl c d e)
  from rtrancl_into_rtrancl.hyps(2) rtrancl_into_rtrancl.IH show ?case by cases simp_all
qed simp

section \<open>The connections of a worker\<close>

definition requests :: "python_threads \<Rightarrow> (token \<times> http_request) set" where
  "requests pt = set (queued_reqs pt) \<union> (\<lambda>(k, req). (Token k, req)) ` set (pt_sent pt)"

definition taken :: "python_threads \<Rightarrow> (token \<times> http_response) set" where
  "taken pt = (\<lambda>(k, resp). (Token k, resp)) ` set (pt_taken pt)"

fun held :: "worker \<Rightarrow> token \<Rightarrow> conn \<Rightarrow> bool" where
  "held w tk (Reading fd rd) \<longleftrightarrow> (tk, (fd, rd)) \<in> set (wk_reading w)"
| "held w tk (Waiting fd req) \<longleftrightarrow> (tk, fd) \<in> set (wk_pending w) \<and> (tk, req) \<in> requests (wk_threads w)"
| "held w tk (Answering fd wr) \<longleftrightarrow> (tk, (fd, wr)) \<in> set (wk_writing w)"
| "held w tk (Refusing fd cr) \<longleftrightarrow> (tk, (fd, cr)) \<in> set (wk_casket w)"
| "held w tk _ \<longleftrightarrow> False"

fun carried :: "action_result \<Rightarrow> (token \<times> conn) list" where
  "carried (Ok (NewServerRequest tk fd)) = [(tk, Arrived fd)]"
| "carried (Ok (ServerContinueRead tk rd fd)) = [(tk, Reading fd rd)]"
| "carried (Ok (ServerReadDone tk req fd)) = [(tk, Received fd req)]"
| "carried (Ok (ServerStreamEOF tk fd)) = [(tk, Leaving fd)]"
| "carried (Ok (ServerNewResponse tk resp)) = []"
| "carried (Ok (ServerContinueWrite tk wr fd)) = [(tk, Answering fd wr)]"
| "carried (Ok (ServerDoneWrite tk resp fd)) = [(tk, Leaving fd)]"
| "carried (Ok (ServerCasketResponseNew tk fd cr)) = [(tk, Refusing fd cr)]"
| "carried (Ok (ServerCasketResponseContinue tk fd cr)) = [(tk, Refusing fd cr)]"
| "carried (Ok (ServerCasketResponseDone tk fd cr)) = [(tk, Leaving fd)]"
| "carried (Ok (ServerPythonCodeTimeoutNew tk st)) = []"
| "carried (Err e) = [(ae_token e, Leaving (ae_stream e))]"

text \<open>In the middle of a turn: \<open>ns\<close> are the connections of events, \<open>rs\<close> the results to be handled.\<close>

definition there :: "(token \<times> raw_fd) list \<Rightarrow> action_result list \<Rightarrow> worker \<Rightarrow> token \<Rightarrow> conn \<Rightarrow> bool" where
  "there ns rs w tk c \<longleftrightarrow>
     (\<exists>fd. c = Arrived fd \<and> (tk, fd) \<in> set ns) \<or> (tk, c) \<in> set (concat (map carried rs)) \<or> held w tk c"

text \<open>From \<open>w\<close> to \<open>w'\<close> every connection has gone on from where it was, by its own steps.\<close>

definition live_on ::
  "(token \<times> raw_fd) list \<Rightarrow> action_result list \<Rightarrow> worker \<Rightarrow>
     (token \<times> raw_fd) list \<Rightarrow> action_result list \<Rightarrow> worker \<Rightarrow> bool" where
  "live_on ns rs w ns' rs' w' \<longleftrightarrow>
     requests (wk_threads w) \<subseteq> requests (wk_threads w') \<and> taken (wk_threads w) \<subseteq> taken (wk_threads w') \<and>
     (\<forall>tk c'. there ns' rs' w' tk c' \<longrightarrow>
        (\<exists>c. there ns rs w tk c \<and> lives (requests (wk_threads w')) (taken (wk_threads w')) tk c c'))"

lemma live_on_trans:
  assumes "live_on ns rs u ns' rs' v" and "live_on ns' rs' v ns'' rs'' w"
  shows "live_on ns rs u ns'' rs'' w"
  unfolding live_on_def
proof (intro conjI allI impI)
  fix tk c' assume "there ns'' rs'' w tk c'"
  with assms(2) obtain d where d: "there ns' rs' v tk d" "lives (requests (wk_threads w)) (taken (wk_threads w)) tk d c'"
    unfolding live_on_def by blast
  from assms(1) d(1) obtain c where c: "there ns rs u tk c" "lives (requests (wk_threads v)) (taken (wk_threads v)) tk c d"
    unfolding live_on_def by blast
  have "lives (requests (wk_threads w)) (taken (wk_threads w)) tk c d"
    using c(2) assms(2) by (auto simp: live_on_def intro: lives_mono)
  with d(2) have "lives (requests (wk_threads w)) (taken (wk_threads w)) tk c c'" by (rule rtranclp_trans [rotated])
  with c(1) show "\<exists>c. there ns rs u tk c \<and> lives (requests (wk_threads w)) (taken (wk_threads w)) tk c c'" by blast
qed (use assms in \<open>auto simp: live_on_def\<close>)

lemma live_on_still:
  assumes "requests (wk_threads w) \<subseteq> requests (wk_threads w')" and "taken (wk_threads w) \<subseteq> taken (wk_threads w')"
    and "\<And>tk c. there ns' rs' w' tk c \<Longrightarrow> there ns rs w tk c"
  shows "live_on ns rs w ns' rs' w'"
  using assms unfolding live_on_def by blast

text \<open>One connection goes on by one step, the others stay.\<close>

lemma live_on_step:
  assumes "requests (wk_threads w) \<subseteq> requests (wk_threads w')" and "taken (wk_threads w) \<subseteq> taken (wk_threads w')"
    and "there ns rs w tk c" and "life (requests (wk_threads w')) (taken (wk_threads w')) tk c d"
    and "\<And>x e. there ns' rs' w' x e \<Longrightarrow> there ns rs w x e \<or> x = tk \<and> e = d"
  shows "live_on ns rs w ns' rs' w'"
  unfolding live_on_def
proof (intro conjI allI impI)
  fix x e assume "there ns' rs' w' x e"
  with assms(5) have "there ns rs w x e \<or> x = tk \<and> e = d" .
  with assms(3,4) show "\<exists>c. there ns rs w x c \<and> lives (requests (wk_threads w')) (taken (wk_threads w')) x c e"
    by (elim disjE) blast+
qed (use assms(1,2) in auto)

section \<open>Results\<close>

lemma set_hm_delete: "set (hm_delete k m) = {x \<in> set m. fst x \<noteq> k}"
  by (auto simp: hm_delete_def)

lemma set_hm_insert: "set (hm_insert k v m) = insert (k, v) {x \<in> set m. fst x \<noteq> k}"
  by (simp add: hm_insert_def set_hm_delete)

lemma hm_get_mem: "hm_get m k = Some v \<Longrightarrow> (k, v) \<in> set m"
  by (simp add: hm_get_def map_of_SomeD)

lemma there_Cons: "there ns (r # rs) w tk c \<longleftrightarrow> (tk, c) \<in> set (carried r) \<or> there ns rs w tk c"
  by (auto simp: there_def)

lemma there_held: "(\<And>c. held w' tk c \<Longrightarrow> held w tk c) \<Longrightarrow> there ns rs w' tk c \<Longrightarrow> there ns rs w tk c"
  by (auto simp: there_def)

text \<open>What does not touch the tables and the threads.\<close>

definition same_conns :: "worker \<Rightarrow> worker \<Rightarrow> bool" where
  "same_conns w w' \<longleftrightarrow>
     wk_reading w' = wk_reading w \<and> wk_pending w' = wk_pending w \<and> wk_writing w' = wk_writing w \<and>
     wk_casket w' = wk_casket w \<and> wk_threads w' = wk_threads w"

lemma same_conns_held: "same_conns w w' \<Longrightarrow> held w' tk c = held w tk c"
  by (cases c) (simp_all add: same_conns_def)

lemma same_conns_there: "same_conns w w' \<Longrightarrow> there ns rs w' tk c = there ns rs w tk c"
  by (simp add: there_def same_conns_held)

lemma same_conns_simps [simp]:
  "same_conns w w" "same_conns w (wlog l v) = same_conns w v" "same_conns w (v\<lparr>wk_poll := p\<rparr>) = same_conns w v"
  "same_conns w (v\<lparr>wk_buf := b\<rparr>) = same_conns w v" "same_conns w (v\<lparr>wk_results := x\<rparr>) = same_conns w v"
  "same_conns w (v\<lparr>wk_timeouts := y\<rparr>) = same_conns w v" "same_conns w (v\<lparr>wk_closing := z\<rparr>) = same_conns w v"
  "same_conns (wlog l w) v = same_conns w v" "same_conns (w\<lparr>wk_poll := p\<rparr>) v = same_conns w v"
  "same_conns (w\<lparr>wk_results := x\<rparr>) v = same_conns w v" "same_conns (w\<lparr>wk_timeouts := y\<rparr>) v = same_conns w v"
  by (simp_all add: same_conns_def)

lemma respond_same: "respond f v = Ret w' \<Longrightarrow> same_conns w w' = same_conns w v"
  by (auto simp: respond_def)

lemma with_poll_same:
  assumes "with_poll cd tk fd call k w = Ret w'"
  obtains "same_conns w w'" | p where "k (w\<lparr>wk_poll := p\<rparr>) = Ret w'"
proof -
  obtain p r where c: "call (wk_poll w) = (p, r)" by (cases "call (wk_poll w)")
  show thesis
  proof (cases r)
    case (Err e)
    with assms c have "respond (resp_stream_reg_error cd tk e) (wlog (StreamDropped fd) (w\<lparr>wk_poll := p\<rparr>)) = Ret w'"
      by (simp add: with_poll_def)
    from respond_same [OF this, of w] that(1) show thesis by simp
  next
    case (Ok x)
    with assms c that(2) show thesis by (simp add: with_poll_def)
  qed
qed

text \<open>A result that is given up, or dropped with its connection.\<close>

lemma live_on_drop: "same_conns w w' \<Longrightarrow> live_on ns (r # rs) w ns rs w'"
  by (rule live_on_still) (simp_all add: same_conns_there there_Cons, simp_all add: same_conns_def)

text \<open>A connection that a result carries goes into a table.\<close>

lemma live_on_put:
  assumes "requests (wk_threads w') = requests (wk_threads w)" and "taken (wk_threads w') = taken (wk_threads w)"
    and "carried r = [(tk, c)]" and "c = d \<or> life (requests (wk_threads w)) (taken (wk_threads w)) tk c d"
    and "\<And>x e. held w' x e \<Longrightarrow> held w x e \<or> x = tk \<and> e = d"
  shows "live_on ns (r # rs) w ns rs w'"
proof -
  have e: "there ns rs w' x e \<Longrightarrow> there ns (r # rs) w x e \<or> x = tk \<and> e = d" for x e
    using assms(5) [of x e] by (auto simp: there_def)
  have c: "there ns (r # rs) w tk c" using assms(3) by (simp add: there_Cons)
  from assms(4) show ?thesis
  proof
    assume "c = d"
    with c e assms(1,2) show ?thesis by (intro live_on_still) auto
  next
    assume "life (requests (wk_threads w)) (taken (wk_threads w)) tk c d"
    with c e assms(1,2) show ?thesis by (intro live_on_step) auto
  qed
qed

lemma held_put:
  "held (put_reading tk (fd, rd) w) x e \<Longrightarrow> held w x e \<or> x = tk \<and> e = Reading fd rd"
  "held (put_writing tk (fd, wr) w) x e \<Longrightarrow> held w x e \<or> x = tk \<and> e = Answering fd wr"
  "held (put_casket tk (fd, cr) w) x e \<Longrightarrow> held w x e \<or> x = tk \<and> e = Refusing fd cr"
  by (cases e; auto simp: put_defs set_hm_insert)+

lemma held_delete:
  "held (w\<lparr>wk_reading := hm_delete tk (wk_reading w)\<rparr>) x e \<Longrightarrow> held w x e"
  "held (w\<lparr>wk_pending := hm_delete tk (wk_pending w)\<rparr>) x e \<Longrightarrow> held w x e"
  "held (w\<lparr>wk_writing := hm_delete tk (wk_writing w)\<rparr>) x e \<Longrightarrow> held w x e"
  "held (w\<lparr>wk_casket := hm_delete tk (wk_casket w)\<rparr>) x e \<Longrightarrow> held w x e"
  by (cases e; auto simp: set_hm_delete)+

lemma held_simps [simp]:
  "held (w\<lparr>wk_poll := p\<rparr>) x e = held w x e" "held (w\<lparr>wk_buf := b\<rparr>) x e = held w x e"
  "held (w\<lparr>wk_results := rs\<rparr>) x e = held w x e" "held (w\<lparr>wk_timeouts := ts\<rparr>) x e = held w x e"
  by (rule same_conns_held, simp)+

text \<open>The tables a result can go into, whatever has changed in the poller.\<close>

lemma live_on_tables:
  "carried r = [(tk, c)] \<Longrightarrow> c = Reading fd rd \<or> life (requests (wk_threads w)) (taken (wk_threads w)) tk c (Reading fd rd) \<Longrightarrow>
     live_on ns (r # rs) w ns rs (put_reading tk (fd, rd) (w\<lparr>wk_poll := p\<rparr>))"
  "carried r = [(tk, Answering fd wr)] \<Longrightarrow> live_on ns (r # rs) w ns rs (put_writing tk (fd, wr) (w\<lparr>wk_poll := p\<rparr>))"
  "carried r = [(tk, Refusing fd cr)] \<Longrightarrow> live_on ns (r # rs) w ns rs (put_casket tk (fd, cr) (w\<lparr>wk_poll := p\<rparr>))"
  by (erule live_on_put [rotated 2]; auto dest: held_put)+

lemma requests_keys: "fst ` requests pt = asked pt"
  by (force simp: requests_def asked_def resp_tokens_def)

lemma requests_queue [simp]:
  "requests (queue_http_req tk req pt) = insert (tk, req) (requests pt)"
  "taken (queue_http_req tk req pt) = taken pt"
  by (auto simp: requests_def taken_def queue_http_req_def)

lemma live_on_queue:
  assumes "tk \<notin> asked (wk_threads w)"
  shows "live_on ns (Ok (ServerReadDone tk req fd) # rs) w ns rs
     (put_pending tk fd (w\<lparr>wk_poll := p, wk_threads := queue_http_req tk req (wk_threads w)\<rparr>))"
    (is "live_on _ _ _ _ _ ?w'")
proof (rule live_on_step)
  show "requests (wk_threads w) \<subseteq> requests (wk_threads ?w')" "taken (wk_threads w) \<subseteq> taken (wk_threads ?w')"
    by auto
  show "life (requests (wk_threads ?w')) (taken (wk_threads ?w')) tk (Received fd req) (Waiting fd req)"
    by (rule life.asked_for) simp
  show "there ns (Ok (ServerReadDone tk req fd) # rs) w tk (Received fd req)" by (simp add: there_Cons)
  fix x e assume "there ns rs ?w' x e"
  moreover have "held w x e \<or> x = tk \<and> e = Waiting fd req" if "held ?w' x e"
  proof (cases e)
    case (Waiting fd' q)
    with that have m: "(x, fd') \<in> insert (tk, fd) {y \<in> set (wk_pending w). fst y \<noteq> tk}"
      "(x, q) \<in> insert (tk, req) (requests (wk_threads w))"
      by (simp_all add: put_pending_def set_hm_insert)
    have "(tk, q) \<notin> requests (wk_threads w)" for q using assms unfolding requests_keys [symmetric] by force
    with m Waiting show ?thesis by auto
  qed (use that in \<open>simp_all add: put_pending_def\<close>)
  ultimately show "there ns (Ok (ServerReadDone tk req fd) # rs) w x e \<or> x = tk \<and> e = Waiting fd req"
    by (auto simp: there_def)
qed

text \<open>The responses that results hand over have been taken from the threads.\<close>

definition results_taken :: "action_result list \<Rightarrow> worker \<Rightarrow> bool" where
  "results_taken rs w \<longleftrightarrow> (\<forall>tk resp. Ok (ServerNewResponse tk resp) \<in> set rs \<longrightarrow> (tk, resp) \<in> taken (wk_threads w))"

lemma pending_requested:
  assumes "mid cfg [] [] (Ok (ServerNewResponse tk resp) # rs) w" and "results_taken (Ok (ServerNewResponse tk resp) # rs) w"
    and "books_ok (wk_threads w)"
  obtains req where "(tk, req) \<in> requests (wk_threads w)"
proof -
  have "(tk, resp) \<in> taken (wk_threads w)" using assms(2) by (simp add: results_taken_def)
  then have "tk \<in> set (resp_tokens (pt_taken (wk_threads w)))" by (force simp: taken_def resp_tokens_def)
  moreover have "mset (pt_inflight (wk_threads w)) + mset (resp_tokens (pt_taken (wk_threads w))) =
      mset (resp_tokens (pt_sent (wk_threads w)))" using assms(3) by (simp add: books_ok_def)
  then have "set (resp_tokens (pt_taken (wk_threads w))) \<subseteq> set (resp_tokens (pt_sent (wk_threads w)))"
    by (metis set_mset_mset set_mset_union sup_ge2)
  ultimately have "tk \<in> asked (wk_threads w)" by (auto simp: asked_def)
  then show thesis unfolding requests_keys [symmetric] using that by force
qed

lemma live_on_answer:
  assumes "(tk, resp) \<in> taken (wk_threads w)" and "(tk, req) \<in> requests (wk_threads w)"
    and "hm_get (wk_pending w) tk = Some fd"
    and "same_conns (w\<lparr>wk_pending := hm_delete tk (wk_pending w)\<rparr>) v"
  shows "live_on ns (Ok (ServerNewResponse tk resp) # rs) w ns rs (put_writing tk (fd, writer_new resp) v)"
proof (rule live_on_step)
  let ?w' = "put_writing tk (fd, writer_new resp) v"
  have t: "wk_threads ?w' = wk_threads w" using assms(4) by (simp add: same_conns_def)
  show "requests (wk_threads w) \<subseteq> requests (wk_threads ?w')" "taken (wk_threads w) \<subseteq> taken (wk_threads ?w')"
    using t by simp_all
  show "life (requests (wk_threads ?w')) (taken (wk_threads ?w')) tk (Waiting fd req) (Answering fd (writer_new resp))"
    unfolding t by (rule life.answered_by [OF assms(1)])
  have "(tk, fd) \<in> set (wk_pending w)" using assms(3) by (rule hm_get_mem)
  then show "there ns (Ok (ServerNewResponse tk resp) # rs) w tk (Waiting fd req)"
    using assms(2) by (simp add: there_def)
  fix x e assume "there ns rs ?w' x e"
  moreover have "held w x e \<or> x = tk \<and> e = Answering fd (writer_new resp)" if "held ?w' x e"
  proof -
    from held_put(2) [OF that] same_conns_held [OF assms(4)] have
      "held (w\<lparr>wk_pending := hm_delete tk (wk_pending w)\<rparr>) x e \<or> x = tk \<and> e = Answering fd (writer_new resp)" by simp
    then show ?thesis using held_delete(2) by blast
  qed
  ultimately show "there ns (Ok (ServerNewResponse tk resp) # rs) w x e \<or> x = tk \<and> e = Answering fd (writer_new resp)"
    by (auto simp: there_def)
qed

text \<open>The action about a response; its connection is pending.\<close>

lemma new_response_lives:
  assumes m: "mid cfg [] [] (Ok (ServerNewResponse tk resp) # rs) w" and t: "results_taken (Ok (ServerNewResponse tk resp) # rs) w"
    and a: "handle_action cd cfg i (ServerNewResponse tk resp) w = Ret w'"
  shows "live_on ns (Ok (ServerNewResponse tk resp) # rs) w ns rs w'"
proof -
  let ?v = "w\<lparr>wk_pending := hm_delete tk (wk_pending w)\<rparr>"
  from a obtain fd where fd: "hm_get (wk_pending w) tk = Some fd" by (auto split: option.splits)
  with a have wp: "with_poll cd tk fd (register_write (wi_reg i tk OpRegister) tk ServerStreamWrite)
      (\<lambda>w. Ret (put_writing tk (fd, writer_new resp) w)) ?v = Ret w'" by simp
  have "books_ok (wk_threads w)" using m by (simp add: mid_def healthy_def threads_inv_def)
  with m t obtain req where req: "(tk, req) \<in> requests (wk_threads w)" using pending_requested by blast
  have tt: "(tk, resp) \<in> taken (wk_threads w)" using t by (simp add: results_taken_def)
  from wp show ?thesis
  proof (rule with_poll_same)
    assume s: "same_conns ?v w'"
    have "held w x e" if "held w' x e" for x e using that unfolding same_conns_held [OF s] by (rule held_delete)
    then show "live_on ns (Ok (ServerNewResponse tk resp) # rs) w ns rs w'"
      using s by (intro live_on_still) (auto simp: there_def same_conns_def)
  next
    fix p assume "Ret (put_writing tk (fd, writer_new resp) (?v\<lparr>wk_poll := p\<rparr>)) = Ret w'"
    with live_on_answer [OF tt req fd] show "live_on ns (Ok (ServerNewResponse tk resp) # rs) w ns rs w'" by auto
  qed
qed

lemma handle_action_lives:
  assumes m: "mid cfg [] [] (Ok act # rs) w" and t: "results_taken (Ok act # rs) w"
    and a: "handle_action cd cfg i act w = Ret w'"
  shows "live_on ns (Ok act # rs) w ns rs w'"
proof (cases act)
  case (NewServerRequest tk fd)
  from a show ?thesis unfolding NewServerRequest handle_action.simps
    by (rule with_poll_same) (auto intro: live_on_drop live_on_tables(1) [OF _ disjI2] life.taken_on)
next
  case (ServerReadDone tk req fd)
  have "tk \<notin> asked (wk_threads w)" using m by (simp add: ServerReadDone mid_def not_asked_def)
  from live_on_queue [OF this] a show ?thesis unfolding ServerReadDone handle_action.simps
    by (elim with_poll_same) (auto intro: live_on_drop)
next
  case (ServerNewResponse tk resp)
  with m t a show ?thesis by (auto intro: new_response_lives)
next
  case (ServerPythonCodeTimeoutNew tk st)
  with a show ?thesis by (auto intro!: live_on_drop)
qed (use a in \<open>simp only: handle_action.simps; elim with_poll_same;
    auto intro: live_on_drop live_on_tables simp: respond_same\<close>)+

lemma handle_result_lives:
  assumes "mid cfg [] [] (r # rs) w" and "results_taken (r # rs) w" and a: "handle_result cd cfg i r w = Ret w'"
  shows "live_on ns (r # rs) w ns rs w'"
proof (cases r)
  case (Ok act)
  with handle_action_lives assms show ?thesis by (simp add: handle_result_def)
next
  case (Err e)
  have "same_conns w w'"
    using a unfolding Err handle_result_def handle_error_def Let_def result.case
    by (rule with_poll_same) (simp_all add: respond_same)
  then show ?thesis by (rule live_on_drop)
qed

lemma live_on_taken: "results_taken rs w \<Longrightarrow> live_on ns rs' w ns' rs'' w' \<Longrightarrow> results_taken rs w'"
  by (auto simp: results_taken_def live_on_def)

lemma handle_results_lives:
  assumes cd: "codec_ok cd" and i: "regs_ok i" and t: "times_ok cfg i"
  shows "mid cfg [] [] rs w \<Longrightarrow> results_taken rs w \<Longrightarrow> handle_results cd cfg i rs w = Ret w' \<Longrightarrow>
    live_on ns rs w ns [] w'"
proof (induction rs arbitrary: w)
  case Nil
  then show ?case by (auto intro: live_on_still)
next
  case (Cons r rs)
  from handle_result_mid [OF cd i t Cons.prems(1)] obtain u where
    u: "handle_result cd cfg i r w = Ret u" "mid cfg [] [] rs u" by blast
  note l = handle_result_lives [OF Cons.prems(1,2) u(1), of ns]
  have "results_taken rs w" using Cons.prems(2) by (simp add: results_taken_def)
  from live_on_taken [OF this l] have "live_on ns rs u ns [] w'" using Cons.IH [OF u(2)] Cons.prems(3) u(1) by simp
  with l show ?case by (rule live_on_trans)
qed

section \<open>Events and timeouts\<close>

definition arriving :: "(token \<times> event) list \<Rightarrow> (token \<times> raw_fd) list" where
  "arriving evs = concat (map (\<lambda>(tk, ev). case ev of NewStreamFd fd \<Rightarrow> [(tk, fd)] | _ \<Rightarrow> []) evs)"

lemma arriving_simps [simp]:
  "arriving [] = []" "arriving (xs @ ys) = arriving xs @ arriving ys"
  "arriving ((tk, ev) # evs) = (case ev of NewStreamFd fd \<Rightarrow> [(tk, fd)] | _ \<Rightarrow> []) @ arriving evs"
  by (simp_all add: arriving_def)

text \<open>A connection leaves its table with the result of its event.\<close>

lemma live_on_push:
  assumes "held w tk c \<or> (\<exists>fd. c = Arrived fd \<and> (tk, fd) \<in> set ns)" and "set (carried r) \<subseteq> {(tk, d)}"
    and "c = d \<or> life (requests (wk_threads w)) (taken (wk_threads w)) tk c d"
    and "requests (wk_threads v) = requests (wk_threads w)" and "taken (wk_threads v) = taken (wk_threads w)"
    and "\<And>x e. held v x e \<Longrightarrow> held w x e" and "set ns' \<subseteq> set ns" and "wk_results v = wk_results w"
  shows "live_on ns (wk_results w) w ns' (wk_results (push_action r v)) (push_action r v)"
proof -
  let ?v = "push_action r v"
  have "held ?v x e \<Longrightarrow> held w x e" for x e
    using assms(6) [of x e] same_conns_held [of v ?v x e] by (simp add: push_action_def)
  then have e: "there ns' (wk_results ?v) ?v x e \<Longrightarrow> there ns (wk_results w) w x e \<or> x = tk \<and> e = d" for x e
    using assms(2,7,8) by (auto simp: there_def push_action_def)
  have c: "there ns (wk_results w) w tk c" using assms(1) by (auto simp: there_def)
  have t: "requests (wk_threads ?v) = requests (wk_threads w)" "taken (wk_threads ?v) = taken (wk_threads w)"
    using assms(4,5) by (simp_all add: push_action_def)
  from assms(3) show ?thesis
  proof
    assume "c = d"
    with c e t show ?thesis by (intro live_on_still) auto
  next
    assume "life (requests (wk_threads w)) (taken (wk_threads w)) tk c d"
    with c e t show ?thesis by (intro live_on_step) auto
  qed
qed

lemma take_resps_lives:
  "take_resps_loop rs pt results = Ret (pt', results') \<Longrightarrow>
   requests pt' = requests pt \<and> taken pt \<subseteq> taken pt' \<and> concat (map carried results') = concat (map carried results) \<and>
   (\<forall>tk resp. Ok (ServerNewResponse tk resp) \<in> set results' \<longrightarrow>
      Ok (ServerNewResponse tk resp) \<in> set results \<or> (tk, resp) \<in> taken pt')"
proof (induction rs pt results rule: take_resps_loop.induct)
  case (2 n resp rs pt results)
  let ?late = "Token n \<in> set (timed_out_reqs pt)"
  let ?pt = "pt\<lparr>timed_out_reqs := removeAll (Token n) (timed_out_reqs pt), num_pending_reqs := num_pending_reqs pt - 1,
      pt_inflight := remove1 (Token n) (pt_inflight pt), pt_taken := pt_taken pt @ [(n, resp)]\<rparr>"
  let ?results = "if ?late then results else results @ [Ok (ServerNewResponse (Token n) resp)]"
  have l: "num_pending_reqs pt \<noteq> 0" "take_resps_loop rs ?pt ?results = Ret (pt', results')"
    using "2.prems" by (auto simp: Let_def split: if_splits)
  have "requests ?pt = requests pt" "taken ?pt = insert (Token n, resp) (taken pt)"
    by (simp_all add: requests_def taken_def)
  with "2.IH" [OF refl refl refl refl] l show ?case by (simp split: if_splits) (fastforce dest: subsetD)+
qed simp

lemma take_responses_lives:
  assumes "take_responses starts sg rs rg pt results = Ret (pt', results', r)"
  shows "requests pt' = requests pt \<and> taken pt \<subseteq> taken pt' \<and> concat (map carried results') = concat (map carried results) \<and>
   (\<forall>tk resp. Ok (ServerNewResponse tk resp) \<in> set results' \<longrightarrow>
      Ok (ServerNewResponse tk resp) \<in> set results \<or> (tk, resp) \<in> taken pt')"
proof -
  have "concat (map carried (map start_action starts)) = []" by (simp add: start_action_def)
  moreover have "Ok (ServerNewResponse tk resp) \<notin> set (map start_action starts)" for tk resp
    by (auto simp: start_action_def)
  ultimately show ?thesis
    using assms by (auto simp: take_responses_def Let_def dest!: take_resps_lives split: if_splits) blast+
qed

lemma send_queued_all:
  "send_queued_loop q pt = Ret (pt', Ok ()) \<Longrightarrow>
   queued_reqs pt' = queued_reqs pt \<and> pt_taken pt' = pt_taken pt \<and> pt_sent pt' = pt_sent pt @ map (\<lambda>(tk, req). (tok tk, req)) q"
  by (induction q pt rule: send_queued_loop.induct) (auto simp: not_Ok_unit split: result.split_asm)

lemma send_queued_lives:
  assumes "send_queued_requests pt = Ret (pt', Ok ())"
  shows "requests pt' = requests pt" "taken pt' = taken pt"
proof -
  have "(\<lambda>(k, req). (Token k, req)) ` (\<lambda>(tk, req). (tok tk, req)) ` X = X" for X :: "(token \<times> http_request) set"
    by (force simp: image_image split_beta)
  with send_queued_all [of "queued_reqs pt" "pt\<lparr>queued_reqs := []\<rparr>" pt'] assms
  show "requests pt' = requests pt" "taken pt' = taken pt"
    by (auto simp: send_queued_requests_def requests_def taken_def image_Un)
qed

lemma read_lives:
  assumes "event_server_stream_read lib res tk fd rd = Ret r"
  obtains d where "carried r = [(tk, d)]" "life Q A tk (Reading fd rd) d"
proof -
  obtain a where a: "read_tcp_stream lib res rd = Ret a" "r = (case a of
          Err e \<Rightarrow> stream_error tk fd e
        | Ok (ReadPartial rd) \<Rightarrow> Ok (ServerContinueRead tk rd fd)
        | Ok (ReadComplete req) \<Rightarrow> Ok (ServerReadDone tk req fd)
        | Ok StreamEOF \<Rightarrow> Ok (ServerStreamEOF tk fd))"
    using assms unfolding event_server_stream_read_def exec_bind_Ret_iff by blast
  show thesis
  proof (cases a)
    case (Err e)
    with a that [of "Leaving fd"] show thesis by (simp add: stream_error_def life.read_fails)
  next
    case (Ok s)
    show thesis
    proof (cases s)
      case (ReadPartial rd')
      with a Ok that [of "Reading fd rd'"] show thesis by (simp add: life.read_part)
    next
      case (ReadComplete req)
      with a Ok that [of "Received fd req"] show thesis by (simp add: life.read_all)
    next
      case StreamEOF
      with a Ok that [of "Leaving fd"] show thesis by (simp add: life.read_end)
    qed
  qed
qed

lemma write_lives:
  obtains d where "carried (event_server_stream_write rv res tk fd wr) = [(tk, d)]" "life Q A tk (Answering fd wr) d"
proof -
  obtain out r where w: "write_tcp_stream rv res wr = (out, r)" by (cases "write_tcp_stream rv res wr")
  show thesis
  proof (cases r)
    case (Err e)
    with w that [of "Leaving fd"] show thesis by (simp add: event_server_stream_write_def stream_error_def life.write_fails)
  next
    case (Ok s)
    show thesis
    proof (cases s)
      case (WritePartial wr')
      with w Ok that [of "Answering fd wr'"] show thesis by (simp add: event_server_stream_write_def life.write_part)
    next
      case (WriteDone resp)
      with w Ok that [of "Leaving fd"] show thesis by (simp add: event_server_stream_write_def life.write_all)
    qed
  qed
qed

lemma refuse_lives:
  obtains d where "carried (event_casket_response_write res tk fd cr) = [(tk, d)]" "life Q A tk (Refusing fd cr) d"
proof (cases res)
  case (Err e)
  show thesis
  proof (rule that)
    show "carried (event_casket_response_write res tk fd cr) = [(tk, Leaving fd)]"
      by (simp add: Err event_casket_response_write_def stream_error_def)
    show "life Q A tk (Refusing fd cr) (Leaving fd)"
      by (rule life.refuse_fails [of res]) (simp add: Err event_casket_response_write_def stream_error_def)
  qed
next
  case (Ok n)
  let ?cr = "cr\<lparr>cr_bytes_sent := cr_bytes_sent cr + n\<rparr>"
  have e: "event_casket_response_write res tk fd cr =
      (if cr_bytes_sent ?cr = length (cr_response ?cr) then Ok (ServerCasketResponseDone tk fd ?cr)
       else Ok (ServerCasketResponseContinue tk fd ?cr))"
    by (simp add: Ok event_casket_response_write_def Let_def)
  show thesis
  proof (cases "cr_bytes_sent ?cr = length (cr_response ?cr)")
    case True
    with e have d: "event_casket_response_write res tk fd cr = Ok (ServerCasketResponseDone tk fd ?cr)" by simp
    show thesis by (rule that [OF _ life.refuse_all [OF d]]) (simp add: d)
  next
    case False
    with e have d: "event_casket_response_write res tk fd cr = Ok (ServerCasketResponseContinue tk fd ?cr)" by simp
    show thesis by (rule that [OF _ life.refuse_part [OF d]]) (simp add: d)
  qed
qed

lemma new_lives:
  obtains d where "carried (Ok (if b then new_503_service_busy tk fd else NewServerRequest tk fd)) = [(tk, d)]"
    "Arrived fd = d \<or> life Q A tk (Arrived fd) d"
proof (cases b)
  case True
  with that show thesis by (force simp: new_503_service_busy_def intro: life.busy)
next
  case False
  with that [of "Arrived fd"] show thesis by simp
qed

text \<open>Every event moves at most the connection it is about.\<close>

lemma live_on_same:
  assumes "same_conns w w'" and "wk_results w' = wk_results w" and "set ns' \<subseteq> set ns"
  shows "live_on ns (wk_results w) w ns' (wk_results w') w'"
proof (rule live_on_still)
  show "there ns (wk_results w) w tk c" if "there ns' (wk_results w') w' tk c" for tk c
    using that assms(2,3) by (auto simp: there_def same_conns_held [OF assms(1)])
qed (use assms(1) in \<open>simp_all add: same_conns_def\<close>)

lemma pushed_taken:
  assumes "results_taken (wk_results w) w" and "carried r = [(tk, d)]" and "wk_results v = wk_results w"
    and "taken (wk_threads v) = taken (wk_threads w)"
  shows "results_taken (wk_results (push_action r v)) (push_action r v)"
proof -
  have "r \<noteq> Ok (ServerNewResponse x resp)" for x resp using assms(2) by auto
  with assms(1,3,4) show ?thesis by (simp add: results_taken_def push_action_def) blast
qed

lemma push_lives:
  assumes c: "held w tk c \<or> (\<exists>fd. c = Arrived fd \<and> (tk, fd) \<in> set ns)" and r: "carried r = [(tk, d)]"
    and l: "c = d \<or> life (requests (wk_threads w)) (taken (wk_threads w)) tk c d"
    and v: "requests (wk_threads v) = requests (wk_threads w)" "taken (wk_threads v) = taken (wk_threads w)"
      "\<And>x e. held v x e \<Longrightarrow> held w x e" "wk_results v = wk_results w"
    and ns: "set ns' \<subseteq> set ns" and t: "results_taken (wk_results w) w"
  shows "live_on ns (wk_results w) w ns' (wk_results (push_action r v)) (push_action r v) \<and>
     results_taken (wk_results (push_action r v)) (push_action r v)"
proof
  show "live_on ns (wk_results w) w ns' (wk_results (push_action r v)) (push_action r v)"
    by (rule live_on_push [OF c _ l v(1-3) ns v(4)]) (simp add: r)
  show "results_taken (wk_results (push_action r v)) (push_action r v)"
    by (rule pushed_taken [OF t r v(4,2)])
qed

text \<open>The two events that are about the threads.\<close>

lemma queued_lives:
  assumes e: "handle_worker_event cd cfg i (tk, QueuedRequests) w = Ret (Next w')" and t: "results_taken (wk_results w) w"
  shows "live_on ns (wk_results w) w ns (wk_results w') w' \<and> results_taken (wk_results w') w'"
proof -
  from e obtain pt where "send_queued_requests (wk_threads w) = Ret (pt, Ok ())" "w' = w\<lparr>wk_threads := pt\<rparr>" by auto
  with send_queued_lives have q: "requests (wk_threads w') = requests (wk_threads w)"
    "taken (wk_threads w') = taken (wk_threads w)" "w' = w\<lparr>wk_threads := pt\<rparr>" by auto
  have "held w y c" if "held w' y c" for y c using that q by (cases c) auto
  then have "there ns (wk_results w') w' y c \<Longrightarrow> there ns (wk_results w) w y c" for y c
    using q(3) by (auto simp: there_def)
  with q t show ?thesis by (auto intro!: live_on_still simp: results_taken_def)
qed

lemma responses_lives:
  assumes e: "handle_worker_event cd cfg i (tk, PollPythonResponses) w = Ret (Next w')" and t: "results_taken (wk_results w) w"
  shows "live_on ns (wk_results w) w ns (wk_results w') w' \<and> results_taken (wk_results w') w'"
proof -
  from e obtain pt rs where p: "take_responses (wi_starts i) (wi_starts_gone i) (wi_resps i) (wi_resps_gone i)
      (wk_threads w) (wk_results w) = Ret (pt, rs, Ok ())" "w' = w\<lparr>wk_threads := pt, wk_results := rs\<rparr>" by auto
  note l = take_responses_lives [OF p(1)]
  have "held w y c" if "held w' y c" for y c using that l p(2) by (cases c) auto
  then have "there ns (wk_results w') w' y c \<Longrightarrow> there ns (wk_results w) w y c" for y c
    using l p(2) by (auto simp: there_def simp del: set_concat)
  moreover have "results_taken (wk_results w') w'" using l p(2) t by (fastforce simp: results_taken_def)
  ultimately show ?thesis using l p(2) by (auto intro!: live_on_still)
qed

lemma event_lives:
  assumes e: "handle_worker_event cd cfg i x w = Ret (Next w')" and t: "results_taken (wk_results w) w"
  shows "live_on (arriving (x # evs)) (wk_results w) w (arriving evs) (wk_results w') w' \<and> results_taken (wk_results w') w'"
proof -
  obtain tk ev where x: "x = (tk, ev)" by (cases x)
  have same: "live_on (arriving (x # evs)) (wk_results w) w (arriving evs) (wk_results w') w' \<and> results_taken (wk_results w') w'"
    if "same_conns w w'" "wk_results w' = wk_results w"
    using that t live_on_same [OF that, of "arriving evs" "arriving (x # evs)"]
    by (auto simp: x results_taken_def same_conns_def split: event.split)
  let ?Q = "requests (wk_threads w)" and ?A = "taken (wk_threads w)"
  show ?thesis
  proof (cases ev)
    case (NewStreamFd fd)
    let ?r = "Ok (if max_requests cfg \<le> num_pending_reqs (wk_threads w) then new_503_service_busy tk fd
        else NewServerRequest tk fd) :: action_result"
    obtain d where d: "carried ?r = [(tk, d)]" "Arrived fd = d \<or> life ?Q ?A tk (Arrived fd) d"
      by (rule new_lives)
    have w': "w' = push_action ?r w" using e by (simp add: x NewStreamFd)
    show ?thesis unfolding w'
      by (rule push_lives [OF disjI2 d _ _ _ _ _ t]) (auto simp: x NewStreamFd)
  next
    case ServerStreamRead
    with e obtain fd rd r where g: "hm_get (wk_reading w) tk = Some (fd, rd)"
      "event_server_stream_read (wi_lib i tk) (wi_read i tk) tk fd rd = Ret r"
      "w' = push_action r (w\<lparr>wk_reading := hm_delete tk (wk_reading w)\<rparr>)"
      by (auto simp: x split: option.splits)
    obtain d where d: "carried r = [(tk, d)]" "life ?Q ?A tk (Reading fd rd) d" by (rule read_lives [OF g(2)])
    have h: "held w tk (Reading fd rd)" using hm_get_mem [OF g(1)] by simp
    show ?thesis unfolding g(3)
      by (rule push_lives [OF disjI1 [OF h] d(1) disjI2 [OF d(2)] _ _ _ _ _ t]) (auto simp: x ServerStreamRead dest: held_delete)
  next
    case QueuedRequests
    with e t queued_lives show ?thesis by (simp add: x)
  next
    case PollPythonResponses
    with e t responses_lives show ?thesis by (simp add: x)
  next
    case ServerStreamWrite
    with e obtain fd wr r where g: "hm_get (wk_writing w) tk = Some (fd, wr)"
      "r = event_server_stream_write (wi_recv i tk) (wi_write i tk) tk fd wr"
      "w' = push_action r (w\<lparr>wk_writing := hm_delete tk (wk_writing w)\<rparr>)"
      by (auto simp: x split: option.splits)
    obtain d where d: "carried r = [(tk, d)]" "life ?Q ?A tk (Answering fd wr) d" unfolding g(2) by (rule write_lives)
    have h: "held w tk (Answering fd wr)" using hm_get_mem [OF g(1)] by simp
    show ?thesis unfolding g(3)
      by (rule push_lives [OF disjI1 [OF h] d(1) disjI2 [OF d(2)] _ _ _ _ _ t]) (auto simp: x ServerStreamWrite dest: held_delete)
  next
    case CasketResponseWrite
    with e obtain fd cr r where g: "hm_get (wk_casket w) tk = Some (fd, cr)"
      "r = event_casket_response_write (wi_write i tk) tk fd cr"
      "w' = push_action r (w\<lparr>wk_casket := hm_delete tk (wk_casket w)\<rparr>)"
      by (auto simp: x split: option.splits)
    obtain d where d: "carried r = [(tk, d)]" "life ?Q ?A tk (Refusing fd cr) d" unfolding g(2) by (rule refuse_lives)
    have h: "held w tk (Refusing fd cr)" using hm_get_mem [OF g(1)] by simp
    show ?thesis unfolding g(3)
      by (rule push_lives [OF disjI1 [OF h] d(1) disjI2 [OF d(2)] _ _ _ _ _ t]) (auto simp: x CasketResponseWrite dest: held_delete)
  next
    case UnixStreamWrite
    with e show ?thesis by (intro same) (auto simp: x Let_def split: prod.splits)
  qed (use e in \<open>intro same; auto simp: x\<close>)+
qed

lemma events_lives:
  "turn_fold (handle_worker_event cd cfg i) evs w = Ret (Next w') \<Longrightarrow> results_taken (wk_results w) w \<Longrightarrow>
   live_on (arriving evs) (wk_results w) w [] (wk_results w') w' \<and> results_taken (wk_results w') w'"
proof (induction evs arbitrary: w)
  case Nil
  then show ?case by (auto intro: live_on_still)
next
  case (Cons x evs)
  then obtain u where u: "handle_worker_event cd cfg i x w = Ret (Next u)"
    "turn_fold (handle_worker_event cd cfg i) evs u = Ret (Next w')" by (auto simp: turn_bind_Ret)
  note e = event_lives [OF u(1) Cons.prems(2), of evs]
  with Cons.IH [OF u(2)] show ?case by (blast intro: live_on_trans)
qed

lemma pending_asked:
  assumes "canned_only cfg w" and "tk \<in> hm_keys (wk_pending w)"
  obtains req where "(tk, req) \<in> requests (wk_threads w)"
proof -
  have "keysm (wk_pending w) = mset_set (awaited (wk_threads w))" and b: "books_ok (wk_threads w)"
    using assms(1) by (simp_all add: canned_only_def mid_def answers_due_def healthy_def threads_inv_def)
  with assms(2) have "tk \<in> awaited (wk_threads w)"
    using set_keysm [of "wk_pending w"] finite_awaited [of "wk_threads w"] by (metis finite_set_mset_mset_set)
  then have "tk \<in> asked (wk_threads w)" using inflight_sent [OF b] by (auto simp: awaited_def asked_def)
  then show thesis unfolding requests_keys [symmetric] using that by force
qed

lemma timeout_lives:
  assumes c: "canned_only cfg w" and t: "results_taken (wk_results w) w"
    and e: "handle_timeout i x w = Ret (Next w')"
  shows "live_on [] (wk_results w) w [] (wk_results w') w' \<and> results_taken (wk_results w') w'"
proof -
  obtain tk k where x: "x = (tk, k)" by (cases x)
  let ?Q = "requests (wk_threads w)" and ?A = "taken (wk_threads w)"
  show ?thesis
  proof (cases "w' = w")
    case True
    with t show ?thesis by (auto intro: live_on_still)
  next
    case moved: False
    show ?thesis
    proof (cases k)
      case RequestRead
      with moved e obtain fd rd p where g: "hm_get (wk_reading w) tk = Some (fd, rd)"
        "w' = push_action (Ok (new_408_timeout tk fd)) (w\<lparr>wk_reading := hm_delete tk (wk_reading w), wk_poll := p\<rparr>)"
        by (auto simp: x Let_def split: option.splits prod.splits result.splits)
      obtain cr where cr: "new_408_timeout tk fd = ServerCasketResponseNew tk fd cr" by (simp add: new_408_timeout_def)
      have h: "held w tk (Reading fd rd)" using hm_get_mem [OF g(1)] by simp
      show ?thesis unfolding g(2)
        by (rule push_lives [OF disjI1 [OF h] _ disjI2 [OF life.read_late [OF cr]] _ _ _ _ _ t])
          (auto simp: cr dest: held_delete)
    next
      case PythonCode
      with moved e obtain fd where g: "hm_get (wk_pending w) tk = Some fd"
        "w' = push_action (Ok (new_504_gateway_timeout tk fd))
           (w\<lparr>wk_pending := hm_delete tk (wk_pending w), wk_threads := timeout_request tk (wk_threads w)\<rparr>)"
        by (auto simp: x split: option.splits)
      obtain cr where cr: "new_504_gateway_timeout tk fd = ServerCasketResponseNew tk fd cr"
        by (simp add: new_504_gateway_timeout_def)
      obtain req where req: "(tk, req) \<in> ?Q" using pending_asked [OF c hm_get_SomeD [OF g(1)]] by blast
      have h: "held w tk (Waiting fd req)" using hm_get_mem [OF g(1)] req by simp
      have th: "requests (timeout_request tk pt) = requests pt" "taken (timeout_request tk pt) = taken pt" for pt
        by (simp_all add: requests_def taken_def timeout_request_def)
      have "held (w\<lparr>wk_pending := hm_delete tk (wk_pending w), wk_threads := timeout_request tk (wk_threads w)\<rparr>) y c \<Longrightarrow>
          held w y c" for y c
        by (cases c) (auto simp: th set_hm_delete)
      then show ?thesis unfolding g(2)
        by (intro push_lives [OF disjI1 [OF h] _ disjI2 [OF life.code_late [OF cr]] _ _ _ _ _ t]) (auto simp: cr th)
    qed
  qed
qed

lemma timeout_canned:
  assumes "regs_ok i" and "canned_only cfg w" and "handle_timeout i x w = Ret (Next u)"
  shows "canned_only cfg u"
proof (cases x)
  case (Pair tk k)
  with timeout_read_step [OF assms(1,2), of tk] timeout_code_step [OF assms(2), of i tk] assms(3)
  show ?thesis by (cases k) auto
qed

lemma timeouts_lives:
  assumes i: "regs_ok i"
  shows "turn_fold (handle_timeout i) ts w = Ret (Next w') \<Longrightarrow> canned_only cfg w \<Longrightarrow> results_taken (wk_results w) w \<Longrightarrow>
   live_on [] (wk_results w) w [] (wk_results w') w' \<and> results_taken (wk_results w') w'"
proof (induction ts arbitrary: w)
  case Nil
  then show ?case by (auto intro: live_on_still)
next
  case (Cons x ts)
  then obtain u where u: "handle_timeout i x w = Ret (Next u)" "turn_fold (handle_timeout i) ts u = Ret (Next w')"
    by (auto simp: turn_bind_Ret)
  note ih = Cons.IH [OF u(2) timeout_canned [OF i Cons.prems(2) u(1)]]
  from timeout_lives [OF Cons.prems(2,3) u(1)] ih show ?case by (blast intro: live_on_trans)
qed

section \<open>Turns\<close>

lemma arriving_own:
  assumes "mio_ok i w" and "worker_inv cfg w" and "\<forall>e \<in> set due. timer_ok e"
  shows "set (arriving (own_events w @ tick_events i w due)) \<subseteq> set (snd (drain_streams (wk_buf w)))"
proof -
  have "(tk, fd) \<in> set (arriving evs) \<longleftrightarrow> (tk, NewStreamFd fd) \<in> set evs" for tk fd evs
    by (force simp: arriving_def split: event.splits)
  moreover have "news (tick_events i w due) = []" using tick_events_toks(1) [OF assms(2,1,3)] .
  then have "(tk, NewStreamFd fd) \<notin> set (tick_events i w due)" for tk fd
    by (force simp: news_def is_new_def filter_empty_conv)
  ultimately show ?thesis by (auto simp: own_events_def)
qed

lemma batch_lives:
  assumes cd: "codec_ok cd" and i: "regs_ok i" and t: "times_ok cfg i" and d: "during cd cfg i evs w"
    and b: "handle_batch cd cfg i evs w = Ret (Next w')" and w: "wk_results w = []"
  shows "live_on (arriving evs) [] w [] [] w'"
proof -
  obtain w1 w2 w3 w4 where
    w1: "turn_fold (handle_worker_event cd cfg i) evs w = Ret (Next w1)" "mid cfg [] [] (wk_results w1) w1" and
    w2: "drain_results cd cfg i w1 = Ret w2" "wk_results w2 = []" and
    w3: "turn_fold (handle_timeout i) (wk_timeouts w2) (w2\<lparr>wk_timeouts := []\<rparr>) = Ret (Next w3)"
      "mid cfg [] [] (wk_results w3) w3" and
    w4: "drain_results cd cfg i w3 = Ret w4" and w5: "rearm_unix i w4 = Ret (Next w')" and
    c2: "canned_only cfg (w2\<lparr>wk_timeouts := []\<rparr>)"
    by (rule batch_phases [OF cd i t d b])
  have "results_taken (wk_results w) w" using w by (simp add: results_taken_def)
  note e1 = events_lives [OF w1(1) this, unfolded w]
  have drain: "live_on [] (wk_results u) u [] [] v"
    if "mid cfg [] [] (wk_results u) u" "results_taken (wk_results u) u" "drain_results cd cfg i u = Ret v" for u v
  proof -
    have "live_on [] (wk_results u) u [] (wk_results u) (u\<lparr>wk_results := []\<rparr>)"
      by (rule live_on_still) (simp_all add: there_def)
    moreover have "results_taken (wk_results u) (u\<lparr>wk_results := []\<rparr>)" using that(2) by (simp add: results_taken_def)
    with that have "live_on [] (wk_results u) (u\<lparr>wk_results := []\<rparr>) [] [] v"
      by (intro handle_results_lives [OF cd i t]) (simp_all add: drain_results_def)
    ultimately show ?thesis by (rule live_on_trans)
  qed
  have e2: "live_on [] (wk_results w1) w1 [] [] w2" using drain [OF w1(2) _ w2(1)] e1 by blast
  have "live_on [] [] w2 [] [] (w2\<lparr>wk_timeouts := []\<rparr>)" by (rule live_on_still) (simp_all add: there_def)
  moreover have "results_taken (wk_results (w2\<lparr>wk_timeouts := []\<rparr>)) (w2\<lparr>wk_timeouts := []\<rparr>)"
    using w2(2) by (simp add: results_taken_def)
  note e3 = timeouts_lives [OF i w3(1) c2 this]
  ultimately have "live_on [] [] w2 [] (wk_results w3) w3" using w2(2) by (auto intro: live_on_trans)
  moreover have "live_on [] (wk_results w3) w3 [] [] w4" using drain [OF w3(2) _ w4] e3 by blast
  moreover have "same_conns w4 w'" using w5 by (auto simp: rearm_unix_def Let_def split: if_splits prod.splits)
  then have "live_on [] [] w4 [] [] w'"
    by (intro live_on_still) (simp_all add: same_conns_there, simp_all add: same_conns_def)
  ultimately show ?thesis using e1 e2 by (blast intro: live_on_trans)
qed

lemma turn_lives:
  assumes cd: "codec_ok cd" and inv: "worker_inv cfg w" and ok: "turn_ok cd cfg i w"
    and w': "worker_turn cd cfg i w = Ret (Next w')"
  shows "live_on (snd (drain_streams (wk_buf w))) [] w [] [] w'"
proof -
  have i: "regs_ok i" and t: "times_ok cfg i" and mio: "mio_ok i w" using ok by (simp_all add: turn_ok_def)
  obtain due q u where pe: "pop_expired (wi_now i) (timerq (wk_poll w)) = (due, q)" and
    u: "u = w\<lparr>wk_buf := fst (drain_streams (wk_buf w)), wk_poll := fold use_up (wi_mio i) ((wk_poll w)\<lparr>timerq := q\<rparr>)\<rparr>" and
    b: "during cd cfg i (own_events w @ tick_events i w due) u"
      "handle_batch cd cfg i (own_events w @ tick_events i w due) u = Ret (Next w')"
    by (rule turn_phases [OF inv ok w'])
  have to: "timers_ok (wk_poll w)" using inv by (simp add: worker_inv_def mid_def healthy_def)
  with pop_expired_spec [OF _ pe] have "mset due = filter_mset (\<lambda>e. te_timeout e \<le> wi_now i) (mset (timerq (wk_poll w)))"
    by (simp add: timers_ok_def)
  from arg_cong [OF this, of set_mset] to have due: "\<forall>e \<in> set due. timer_ok e" by (auto simp: timers_ok_def)
  have "wk_results u = []" using inv by (simp add: u worker_inv_def)
  note l = batch_lives [OF cd i t b this]
  have "live_on (snd (drain_streams (wk_buf w))) [] w (arriving (own_events w @ tick_events i w due)) [] u"
    using arriving_own [OF mio inv due] by (intro live_on_still) (auto simp: u there_def)
  then show ?thesis using l by (rule live_on_trans)
qed

section \<open>Runs\<close>

lemma run_lives:
  "run (worker_step cd cfg) w is w' \<Longrightarrow> worker_inv cfg w \<Longrightarrow>
   requests (wk_threads w) \<subseteq> requests (wk_threads w') \<and> taken (wk_threads w) \<subseteq> taken (wk_threads w') \<and>
   (\<forall>tk d. held w' tk d \<longrightarrow>
      (\<exists>c. lives (requests (wk_threads w')) (taken (wk_threads w')) tk c d \<and>
         (held w tk c \<or>
          (\<exists>js i ks v fd. is = js @ i # ks \<and> run (worker_step cd cfg) w js v \<and>
             (tk, fd) \<in> set (snd (drain_streams (wk_buf v))) \<and> c = Arrived fd))))"
proof (induction rule: run.induct)
  case (run_nil w)
  then show ?case by blast
next
  case (run_cons i w u ks w')
  have inv: "worker_inv cfg u" using run_cons.hyps(1) run_cons.prems by (rule wkr.step_inv)
  have l: "live_on (snd (drain_streams (wk_buf w))) [] w [] [] u"
    using run_cons.hyps(1) run_cons.prems by (auto simp: worker_step_def intro: turn_lives)
  let ?Q = "requests (wk_threads w')" and ?A = "taken (wk_threads w')"
  note ih = run_cons.IH [OF inv]
  have "\<exists>c. lives ?Q ?A tk c d \<and> (held w tk c \<or>
      (\<exists>js j ls v fd. i # ks = js @ j # ls \<and> run (worker_step cd cfg) w js v \<and>
         (tk, fd) \<in> set (snd (drain_streams (wk_buf v))) \<and> c = Arrived fd))" if "held w' tk d" for tk d
  proof -
    from ih that obtain c where c: "lives ?Q ?A tk c d" and
      or: "held u tk c \<or> (\<exists>js j ls v fd. ks = js @ j # ls \<and> run (worker_step cd cfg) u js v \<and>
         (tk, fd) \<in> set (snd (drain_streams (wk_buf v))) \<and> c = Arrived fd)" by blast
    from or show ?thesis
    proof
      assume "held u tk c"
      then have "there [] [] u tk c" by (simp add: there_def)
      with l obtain b where b: "there (snd (drain_streams (wk_buf w))) [] w tk b"
        "lives (requests (wk_threads u)) (taken (wk_threads u)) tk b c" unfolding live_on_def by blast
      have "lives ?Q ?A tk b c" using b(2) ih by (blast intro: lives_mono)
      then have l: "lives ?Q ?A tk b d" using c by (rule rtranclp_trans)
      from b(1) have "held w tk b \<or> (\<exists>fd. (tk, fd) \<in> set (snd (drain_streams (wk_buf w))) \<and> b = Arrived fd)"
        by (auto simp: there_def)
      then show ?thesis
      proof
        assume "held w tk b"
        with l show ?thesis by blast
      next
        assume "\<exists>fd. (tk, fd) \<in> set (snd (drain_streams (wk_buf w))) \<and> b = Arrived fd"
        then obtain fd where fd: "(tk, fd) \<in> set (snd (drain_streams (wk_buf w)))" "b = Arrived fd" by blast
        show ?thesis
          by (intro exI [of _ b] conjI disjI2 exI [of _ "[]"] exI [of _ i] exI [of _ ks] exI [of _ w] exI [of _ fd] l fd) simp_all
      qed
    next
      assume "\<exists>js j ls v fd. ks = js @ j # ls \<and> run (worker_step cd cfg) u js v \<and>
         (tk, fd) \<in> set (snd (drain_streams (wk_buf v))) \<and> c = Arrived fd"
      then obtain js j ls v fd where v: "ks = js @ j # ls" "run (worker_step cd cfg) u js v"
        "(tk, fd) \<in> set (snd (drain_streams (wk_buf v)))" "c = Arrived fd" by blast
      have "i # ks = (i # js) @ j # ls" "run (worker_step cd cfg) w (i # js) v" using v(1,2) run_cons.hyps(1) by auto
      with v(3,4) c show ?thesis by blast
    qed
  qed
  with l ih show ?case unfolding live_on_def by blast
qed

text \<open>How a connection comes to be answered.\<close>

lemma lives_to_answer:
  "lives Q A tk c d \<Longrightarrow> (\<forall>fd wr. c \<noteq> Answering fd wr) \<Longrightarrow> d = Answering fd wr \<Longrightarrow>
   \<exists>req resp. lives Q A tk c (Waiting fd req) \<and> (tk, resp) \<in> A \<and>
     lives Q A tk (Answering fd (writer_new resp)) (Answering fd wr)"
proof (induction arbitrary: fd wr rule: rtranclp_induct)
  case base
  then show ?case by blast
next
  case (step d e)
  have l: "life Q A tk d (Answering fd wr)" using step.hyps(2) step.prems(2) by simp
  then show ?case
  proof (rule life_AnsweringE)
    fix resp req assume "d = Waiting fd req" "wr = writer_new resp" "(tk, resp) \<in> A"
    with step.hyps(1) show ?thesis by blast
  next
    fix rv res wr0 out assume d: "d = Answering fd wr0"
    from step.IH [OF step.prems(1) d] obtain req resp where
      "lives Q A tk c (Waiting fd req)" "(tk, resp) \<in> A" "lives Q A tk (Answering fd (writer_new resp)) d"
      unfolding d by blast
    with l show ?thesis by (blast intro: rtranclp.rtrancl_into_rtrancl)
  qed
qed

text \<open>A writer keeps the response it was made for; only the channel of the body may be gone.\<close>

lemma lives_resp:
  "lives Q A tk c d \<Longrightarrow> c = Answering fd (writer_new resp) \<Longrightarrow>
   (\<exists>wr body. d = Answering fd wr \<and> w_resp wr = resp\<lparr>resp_body := body\<rparr>) \<or> d = Leaving fd"
proof (induction rule: rtranclp_induct)
  case base
  then show ?case by (auto simp: writer_new_def Let_def intro!: exI [of _ "resp_body resp"])
next
  case (step d e)
  from step.IH [OF step.prems] show ?case
  proof
    assume "d = Leaving fd"
    with step.hyps(2) show ?thesis by (auto elim: life.cases)
  next
    assume "\<exists>wr body. d = Answering fd wr \<and> w_resp wr = resp\<lparr>resp_body := body\<rparr>"
    then obtain wr body where d: "d = Answering fd wr" "w_resp wr = resp\<lparr>resp_body := body\<rparr>" by blast
    from step.hyps(2) [unfolded d(1)] show ?thesis
    proof cases
      case (write_part rv res out wr')
      then have "w_resp wr' = w_resp (take_part rv wr)"
        by (auto simp: write_tcp_stream_def Let_def split: result.splits if_splits)
      moreover have "\<exists>body. w_resp (take_part rv wr) = resp\<lparr>resp_body := body\<rparr>"
        using d(2) by (auto simp: take_part_def split: option.split recv.split)
      ultimately show ?thesis using write_part by simp
    qed simp_all
  qed
qed

lemma lives_waiting:
  "lives Q A tk c d \<Longrightarrow> d = Waiting fd req \<Longrightarrow> c = Waiting fd req \<or> (tk, req) \<in> Q"
proof (induction rule: rtranclp_induct)
  case (step d e)
  have "life Q A tk d (Waiting fd req)" using step.hyps(2) step.prems by simp
  then show ?case by (rule life_WaitingE) simp
qed simp

section \<open>A worker is its connections side by side\<close>

text \<open>A worker with any number of connections refines the life of one connection, for each of
  them: in any run from start-up, wherever a connection is (its table, with its reader, request,
  writer or canned response), it has come there by the steps of \<open>life\<close> alone, from the moment it
  was taken out of the Unix stream, on the same descriptor. So what one connection goes through
  does not depend on what others send, except by way of the threads.\<close>

lemma worker_lives_apart:
  assumes "sender_inv sq" and "run (worker_step cd cfg) (worker_start sq) is w" and "held w tk c"
  shows "\<exists>js i ks v fd. is = js @ i # ks \<and> run (worker_step cd cfg) (worker_start sq) js v \<and>
     (tk, fd) \<in> set (snd (drain_streams (wk_buf v))) \<and> conn_fd c = fd \<and>
     lives (requests (wk_threads w)) (taken (wk_threads w)) tk (Arrived fd) c"
proof -
  have "\<not> held (worker_start sq) tk b" for b by (cases b) (simp_all add: worker_start_def)
  with run_lives [OF assms(2) worker_start_inv [OF assms(1)]] assms(3) obtain js i ks v fd where
    l: "is = js @ i # ks" "run (worker_step cd cfg) (worker_start sq) js v"
    "(tk, fd) \<in> set (snd (drain_streams (wk_buf v)))"
    "lives (requests (wk_threads w)) (taken (wk_threads w)) tk (Arrived fd) c" by blast
  moreover have "conn_fd c = fd" using lives_fd [OF l(4)] by simp
  ultimately show ?thesis by blast
qed

lemma request_unique:
  assumes "books_ok pt" and "(tk, req) \<in> requests pt" and "(tk, req') \<in> requests pt"
  shows "req = req'"
proof -
  let ?l = "queued_reqs pt @ map (\<lambda>(k, req). (Token k, req)) (pt_sent pt)"
  have "map fst ?l = map fst (queued_reqs pt) @ resp_tokens (pt_sent pt)"
    by (simp add: resp_tokens_def split_beta o_def)
  then have "distinct (map fst ?l)" using assms(1) by (simp only: books_ok_def)
  moreover have "set ?l = requests pt" by (simp add: requests_def)
  ultimately show ?thesis using assms(2,3) by (metis eq_key_imp_eq_value)
qed

text \<open>The response that is written to a connection is the application's answer to the request
  that was read from that connection. If the response to the connection \<open>tk\<close> has begun in a run
  of a worker, it is one a Python thread gave for the token \<open>tk\<close>, called with the request that was
  read from the same descriptor, and the writer has come from that response alone.\<close>

lemma worker_answers:
  assumes inv: "worker_inv cfg v" and run: "run (worker_step cd cfg) v is w"
    and give: "threads_give ths [] (wk_threads w)"
    and wr: "(tk, (fd, wr)) \<in> set (wk_writing w)" and new: "tk \<notin> hm_keys (wk_writing v)"
  shows "\<exists>c req resp. (c = Arrived fd \<or> held v tk c) \<and>
     lives (requests (wk_threads w)) (taken (wk_threads w)) tk c (Waiting fd req) \<and>
     lives (requests (wk_threads w)) (taken (wk_threads w)) tk (Answering fd (writer_new resp)) (Answering fd wr) \<and>
     (\<exists>body. w_resp wr = resp\<lparr>resp_body := body\<rparr>) \<and>
     (\<exists>tr \<in> set ths. \<exists>call \<in> set (tr_calls tr). \<exists>ch. pc_key call = tok tk \<and> pc_req call = req \<and>
        answer_to (tr_lib tr) (tr_cfg tr) (tr_server tr) ch call = Some resp)"
proof -
  let ?Q = "requests (wk_threads w)" and ?A = "taken (wk_threads w)"
  have "held w tk (Answering fd wr)" using wr by simp
  with run_lives [OF run inv] obtain c where c: "lives ?Q ?A tk c (Answering fd wr)" and
    or: "held v tk c \<or> (\<exists>f. c = Arrived f)" by blast
  have "\<not> held v tk (Answering f x)" for f x using new by (force simp: hm_keys_def)
  with or have "\<forall>f x. c \<noteq> Answering f x" by auto
  from lives_to_answer [OF c this refl] obtain req resp where
    p: "lives ?Q ?A tk c (Waiting fd req)" "(tk, resp) \<in> ?A"
      "lives ?Q ?A tk (Answering fd (writer_new resp)) (Answering fd wr)" by blast
  have invw: "worker_inv cfg w" using wkr.run_inv [OF run inv] .
  then have ti: "threads_inv (wk_threads w)" by (simp add: worker_inv_def mid_def healthy_def)
  have "(tok tk, resp) \<in> set (pt_taken (wk_threads w) @ [])" using p(2) by (auto simp: taken_def)
  from threads_give_answers [OF ti give this] obtain req' tr call ch where
    t: "(tok tk, req') \<in> set (pt_sent (wk_threads w))" "tr \<in> set ths" "call \<in> set (tr_calls tr)"
      "pc_key call = tok tk" "pc_req call = req'" "answer_to (tr_lib tr) (tr_cfg tr) (tr_server tr) ch call = Some resp"
    by blast
  have "(tk, req') \<in> ?Q" using t(1) by (force simp: requests_def)
  moreover have "(tk, req) \<in> ?Q"
  proof (cases "c = Waiting fd req")
    case True
    with or have "(tk, req) \<in> requests (wk_threads v)" by auto
    with run_lives [OF run inv] show ?thesis by blast
  next
    case False
    with lives_waiting [OF p(1) refl] show ?thesis by simp
  qed
  ultimately have "req' = req" using request_unique [of "wk_threads w"] ti by (auto simp: threads_inv_def)
  moreover have "c = Arrived fd \<or> held v tk c" using or lives_fd [OF c] by auto
  moreover have "\<exists>body. w_resp wr = resp\<lparr>resp_body := body\<rparr>" using lives_resp [OF p(3) refl] by simp
  ultimately show ?thesis using p(1,3) t(2-6) by blast
qed

end
