(* ===== verification/SystemLink.thy ===== *)
theory SystemLink
  imports WorkerFlow ServerProps
begin

text \<open>
  One Unix socket, with the server (\<open>Server\<close>) at one end and a worker (\<open>Worker\<close>) at the other: the
  bytes on the way, the requests and responses they are, the streams that are with the worker or
  on their way, and what each end's reads and writes do to them. The last section orders the tokens
  of the streams by connection and request. No code is modelled here: the definitions are
  about the states of \<open>UnixStreams\<close> and \<open>Worker\<close>.
\<close>

section \<open>The socket between the server and a worker\<close>

text \<open>
  All bytes on the way: what the receiver has read but not yet cut into messages, what the
  socket holds, and what the sender has still to write.
\<close>

definition down_wire :: "unix_stream \<Rightarrow> worker \<Rightarrow> bytes" where
  "down_wire u w =
     wb_unread (wk_buf w) @ drop (length (wk_got w)) (us_sent u) @ sb_write_buffer (us_buffer u)"

definition up_wire :: "unix_stream \<Rightarrow> worker \<Rightarrow> bytes" where
  "up_wire u w =
     sb_unread (us_buffer u) @ drop (length (us_got u)) (wk_sent w) @ wb_write_buffer (wk_buf w)"

definition wire_requests :: "codec \<Rightarrow> bytes \<Rightarrow> request list" where
  "wire_requests cd bs =
     (case decode_all (de_request cd) (fst (split_frames 1 1 u8_from bs)) of Some ms \<Rightarrow> ms | None \<Rightarrow> [])"

definition wire_responses :: "codec \<Rightarrow> bytes \<Rightarrow> response list" where
  "wire_responses cd bs =
     (case decode_all (de_response cd) (fst (split_frames 4 5 u32_from_be bs)) of Some ms \<Rightarrow> ms | None \<Rightarrow> [])"

definition request_token :: "request \<Rightarrow> token" where
  "request_token m = Token (rq_token m)"

text \<open>The streams on their way to a worker, with it, and on their way back.\<close>

definition going :: "codec \<Rightarrow> unix_stream \<Rightarrow> worker \<Rightarrow> token list" where
  "going cd u w =
     map (request_token \<circ> fst) (to_send (us_buffer u)) @ map request_token (wire_requests cd (down_wire u w))
     @ map request_token (stream_msgs (wk_buf w))"

definition returning :: "codec \<Rightarrow> unix_stream \<Rightarrow> worker \<Rightarrow> token list" where
  "returning cd u w =
     map response_token (wire_responses cd (up_wire u w))
     @ map fst (stream_tks (us_buffer u)) @ map fst (stream_close_tks (us_buffer u))"

definition outstanding :: "codec \<Rightarrow> unix_stream \<Rightarrow> worker \<Rightarrow> token multiset" where
  "outstanding cd u w = mset (going cd u w) + mset_set (live w) + mset (returning cd u w)"

text \<open>Each side has read only what the other wrote, and what is on the way is whole messages.\<close>

definition link_ok :: "codec \<Rightarrow> unix_stream \<Rightarrow> worker \<Rightarrow> bool" where
  "link_ok cd u w \<longleftrightarrow>
     (\<exists>x. us_sent u = wk_got w @ x) \<and> (\<exists>y. wk_sent w = us_got u @ y) \<and>
     (\<exists>ms. down_wire u w = request_bytes cd ms) \<and>
     (\<exists>rs. up_wire u w = response_bytes cd rs \<and> (\<forall>m \<in> set rs. response_fits cd m)) \<and>
     sb_inv (us_buffer u)"

lemma wire_requests_bytes:
  assumes "codec_ok cd"
  shows "wire_requests cd (request_bytes cd ms) = ms"
proof -
  have "\<forall>p \<in> set (map (\<lambda>m. the (ser_request cd m)) ms). p \<noteq> [] \<and> length p < 256"
    using ser_request_ok [OF assms] by simp
  from f8.split_all [OF this] decode_all_map [of "de_request cd" "\<lambda>m. the (ser_request cd m)" ms]
  show ?thesis using ser_request_ok(3) [OF assms] by (simp add: wire_requests_def request_bytes_frames)
qed

lemma response_bytes_frames:
  "response_bytes cd X = concat (map (frame u32_be) (map (\<lambda>m. the (ser_response cd m)) X))"
  by (simp add: response_bytes_def response_frame_def [abs_def] o_def)

lemma ser_response_ok:
  assumes "codec_ok cd"
  shows "the (ser_response cd m) \<noteq> []" "de_response cd (the (ser_response cd m)) = Some m"
    "response_fits cd m \<longleftrightarrow> length (the (ser_response cd m)) < 2 ^ 32"
proof -
  obtain b where "ser_response cd m = Some b" "b \<noteq> []" "de_response cd b = Some m"
    using assms unfolding codec_ok_def by blast
  then show "the (ser_response cd m) \<noteq> []" "de_response cd (the (ser_response cd m)) = Some m"
    "response_fits cd m \<longleftrightarrow> length (the (ser_response cd m)) < 2 ^ 32"
    by (simp_all add: response_fits_def)
qed

lemma response_payloads:
  assumes "codec_ok cd" and "\<forall>m \<in> set ms. response_fits cd m"
  shows "\<forall>p \<in> set (map (\<lambda>m. the (ser_response cd m)) ms). p \<noteq> [] \<and> length p < 2 ^ 32"
  using ser_response_ok [OF assms(1)] assms(2) by simp

lemma wire_responses_bytes:
  assumes "codec_ok cd" and "\<forall>m \<in> set ms. response_fits cd m"
  shows "wire_responses cd (response_bytes cd ms) = ms"
  using f32.split_all [OF response_payloads [OF assms]]
    decode_all_map [of "de_response cd" "\<lambda>m. the (ser_response cd m)" ms] ser_response_ok(2) [OF assms(1)]
  by (simp add: wire_responses_def response_bytes_frames)

section \<open>The server's side of a link\<close>

lemma outstanding_cong:
  assumes "us_got u' = us_got u" and "us_sent u' = us_sent u" and "us_buffer u' = us_buffer u"
  shows "link_ok cd u' w = link_ok cd u w" "going cd u' w = going cd u w" "outstanding cd u' w = outstanding cd u w"
  using assms by (simp_all add: link_ok_def going_def returning_def outstanding_def down_wire_def up_wire_def)

text \<open>A read that fails leaves everything where it is.\<close>

lemma read_error_link:
  assumes l: "link_ok cd u w"
  shows "\<exists>u'. us_read_stream cd' (Err e) u = Ret (u', Err e) \<and> link_ok cd u' w \<and> going cd u' w = going cd u w \<and>
     outstanding cd u' w = outstanding cd u w \<and> us_token u' = us_token u \<and> num_reqs u' = num_reqs u"
proof -
  let ?u = "u\<lparr>us_buffer := sb_grow (us_buffer u)\<rparr>"
  have inv: "sb_inv (us_buffer u)" using l by (simp add: link_ok_def)
  have v: "stream_tks (sb_grow (us_buffer u)) = stream_tks (us_buffer u)"
    "stream_close_tks (sb_grow (us_buffer u)) = stream_close_tks (us_buffer u)"
    "to_send (sb_grow (us_buffer u)) = to_send (us_buffer u)"
    "sb_write_buffer (sb_grow (us_buffer u)) = sb_write_buffer (us_buffer u)"
    by (simp_all add: sb_grow_def)
  have "us_read_stream cd' (Err e) u = Ret (?u, Err e)"
    by (simp add: us_read_stream_def sb_read_stream_def)
  moreover have "link_ok cd ?u w" "going cd ?u w = going cd u w" "outstanding cd ?u w = outstanding cd u w"
    using l v sb_grow_inv [OF inv] sb_grow_unread [OF inv]
    by (simp_all add: link_ok_def going_def returning_def outstanding_def down_wire_def up_wire_def)
  ultimately show ?thesis by simp
qed

text \<open>Reading moves responses from the wire to the queues of answered streams.\<close>

lemma read_link:
  assumes cd: "codec_ok cd" and l: "link_ok cd u w" and fit: "length (read_bytes res) \<le> sb_space (us_buffer u)"
    and pre: "\<exists>y. wk_sent w = us_got u @ read_bytes res @ y"
  shows "\<exists>u' r. us_read_stream cd res u = Ret (u', r) \<and> link_ok cd u' w \<and> going cd u' w = going cd u w \<and>
     outstanding cd u' w = outstanding cd u w \<and> us_token u' = us_token u \<and> num_reqs u' = num_reqs u"
proof (cases res)
  case (Err e)
  with read_error_link [OF l, of cd e] show ?thesis by auto
next
  case (Ok bs)
  let ?b = "us_buffer u"
  from pre Ok obtain y where y: "wk_sent w = us_got u @ bs @ y" by auto
  from l obtain rs where rs: "up_wire u w = response_bytes cd rs" "\<forall>m \<in> set rs. response_fits cd m"
    and inv: "sb_inv ?b" by (auto simp: link_ok_def)
  let ?ser = "\<lambda>m. the (ser_response cd m)"
  let ?rest = "y @ wb_write_buffer (wk_buf w)"
  have "(sb_unread ?b @ bs) @ ?rest = concat (map (frame u32_be) (map ?ser rs))"
    using rs(1) y by (simp add: up_wire_def response_bytes_frames)
  from f32.split_prefix [OF response_payloads [OF cd rs(2)] this] obtain ps1 ps2 r where
    ps: "map ?ser rs = ps1 @ ps2" "split_frames 4 5 u32_from_be (sb_unread ?b @ bs) = (ps1, r)"
      "r @ ?rest = concat (map (frame u32_be) ps2)" by blast
  then obtain rs1 rs2 where rs12: "rs = rs1 @ rs2" "ps1 = map ?ser rs1" "ps2 = map ?ser rs2"
    by (auto simp: map_eq_append_conv)
  have de: "decode_all (de_response cd) ps1 = Some rs1"
    unfolding rs12(2) by (rule decode_all_map) (rule ser_response_ok(2) [OF cd])
  have "length bs \<le> sb_space ?b" using fit Ok by simp
  from sb_read_spec [OF inv this ps(2) de] obtain b' where
    b': "sb_read_stream cd (Ok bs) ?b = Ret (b', Ok ())" "sb_inv b'" "sb_unread b' = r"
      "sb_view b' = fold sb_absorb rs1 (sb_view ?b)" by blast
  have view: "stream_tks b' = stream_tks ?b @ map response_tk (filter keeps_stream rs1)"
    "stream_close_tks b' = stream_close_tks ?b @ map response_tk (filter (\<lambda>m. \<not> keeps_stream m) rs1)"
    "to_send b' = to_send ?b" "sb_write_buffer b' = sb_write_buffer ?b"
    using b'(4) by (simp_all add: sb_view_def fold_sb_absorb)
  let ?u = "u\<lparr>us_buffer := b', us_got := us_got u @ bs\<rparr>"
  have e: "us_read_stream cd res u = Ret (?u, Ok ())" using Ok b'(1) by (simp add: us_read_stream_def)
  have up: "up_wire ?u w = response_bytes cd rs2"
    using ps(3) y b'(3) by (simp add: up_wire_def response_bytes_frames rs12(3))
  have down: "down_wire ?u w = down_wire u w" using view by (simp add: down_wire_def)
  have go: "going cd ?u w = going cd u w" using view by (simp add: going_def down)
  have fit2: "\<forall>m \<in> set rs2. response_fits cd m" using rs(2) rs12(1) by simp
  have "mset (map fst (map response_tk (filter keeps_stream rs1))) +
      mset (map fst (map response_tk (filter (\<lambda>m. \<not> keeps_stream m) rs1))) = mset (map response_token rs1)"
    by (induction rs1) (auto simp: response_tk_def response_token_def)
  then have "mset (returning cd ?u w) = mset (returning cd u w)"
    using wire_responses_bytes [OF cd fit2] wire_responses_bytes [OF cd rs(2)]
    by (simp add: returning_def up rs(1) view rs12(1) ac_simps)
  then have "outstanding cd ?u w = outstanding cd u w" by (simp add: outstanding_def go)
  moreover have "link_ok cd ?u w"
    using l y up down fit2 b'(2) by (auto simp: link_ok_def)
  ultimately show ?thesis using e go by auto
qed

text \<open>Writing moves requests from the queue to the wire.\<close>

lemma write_fits:
  assumes "sb_write_stream cd cap res b = Ret (b', fds, out, r)"
  shows "\<exists>mv. to_send b = mv @ to_send b' \<and>
     out @ sb_write_buffer b' = sb_write_buffer b @ concat (map (\<lambda>x. request_frame cd (fst x)) mv) \<and>
     sb_inv b' = sb_inv b \<and> sb_unread b' = sb_unread b \<and> sb_space b' = sb_space b \<and>
     stream_tks b' = stream_tks b \<and> stream_close_tks b' = stream_close_tks b"
proof -
  obtain q wb fds' where l: "sb_enqueue_loop cd cap (to_send b) (sb_write_buffer b) = Ret (q, wb, fds')"
    using assms(1) by (auto simp: sb_write_stream_def)
  have q: "to_send b' = q" "out @ sb_write_buffer b' = wb" "sb_inv b' = sb_inv b" "sb_unread b' = sb_unread b"
    "sb_space b' = sb_space b" "stream_tks b' = stream_tks b" "stream_close_tks b' = stream_close_tks b"
    using assms l by (cases res; auto simp: sb_write_stream_def take_write_shift sb_inv_def sb_unread_def
        sb_space_def sb_grow_def)+
  with sb_enqueue_loop_prefix [OF l] show ?thesis by auto
qed

lemma sb_enqueue_loop_Ret: "codec_ok cd \<Longrightarrow> \<exists>x. sb_enqueue_loop cd cap q wb = Ret x"
proof (induction cd cap q wb rule: sb_enqueue_loop.induct)
  case (2 cd cap msg fd q wb)
  obtain bs where bs: "ser_request cd msg = Some bs" using "2.prems" unfolding codec_ok_def by blast
  show ?case
  proof (cases cap)
    case (Suc n)
    from "2.IH" [OF Suc bs "2.prems"] Suc bs show ?thesis by auto
  qed simp
qed simp

lemma write_link:
  assumes cd: "codec_ok cd" and l: "link_ok cd u w"
  shows "\<exists>u' r. us_write_stream cd cap res u = Ret (u', r) \<and> link_ok cd u' w \<and>
     mset (going cd u' w) = mset (going cd u w) \<and> outstanding cd u' w = outstanding cd u w \<and>
     us_token u' = us_token u \<and> num_reqs u' = num_reqs u"
proof -
  let ?b = "us_buffer u"
  obtain q wb fds where "sb_enqueue_loop cd cap (to_send ?b) (sb_write_buffer ?b) = Ret (q, wb, fds)"
    using sb_enqueue_loop_Ret [OF cd, of cap "to_send ?b" "sb_write_buffer ?b"] by auto
  then obtain b' fds out r where wr: "sb_write_stream cd cap res ?b = Ret (b', fds, out, r)"
    by (cases res) (auto simp: sb_write_stream_def)
  from write_fits [OF wr] obtain mv where
    mv: "to_send ?b = mv @ to_send b'"
      "out @ sb_write_buffer b' = sb_write_buffer ?b @ request_bytes cd (map fst mv)"
    and eq: "sb_inv b' = sb_inv ?b" "sb_unread b' = sb_unread ?b" "stream_tks b' = stream_tks ?b"
      "stream_close_tks b' = stream_close_tks ?b"
    by (auto simp: request_bytes_def o_def)
  let ?u = "u\<lparr>us_buffer := b', us_sent := us_sent u @ out, us_fds := us_fds u @ fds\<rparr>"
  from l obtain x ms where x: "us_sent u = wk_got w @ x" and ms: "down_wire u w = request_bytes cd ms"
    by (auto simp: link_ok_def)
  have down: "down_wire ?u w = request_bytes cd (ms @ map fst mv)"
    using ms mv(2) x by (simp add: down_wire_def)
  have up: "up_wire ?u w = up_wire u w" using eq by (simp add: up_wire_def)
  have wq: "wire_requests cd (down_wire ?u w) = ms @ map fst mv" "wire_requests cd (down_wire u w) = ms"
    by (simp_all only: down ms wire_requests_bytes [OF cd])
  have "mset (going cd ?u w) = mset (going cd u w)"
    using mv(1) by (simp add: going_def wq o_def)
  then have "outstanding cd ?u w = outstanding cd u w"
    using eq by (simp add: outstanding_def returning_def up)
  moreover have "\<exists>ms. down_wire ?u w = request_bytes cd ms" using down by blast
  then have "link_ok cd ?u w" using l up eq x by (auto simp: link_ok_def)
  moreover have "us_write_stream cd cap res u = Ret (?u, r)" using wr by (simp add: us_write_stream_def)
  ultimately show ?thesis using \<open>mset (going cd ?u w) = mset (going cd u w)\<close> by auto
qed

text \<open>Asking for a stream to be sent, and taking the answered ones.\<close>

lemma ask_link:
  "link_ok cd (us_msg_send_tcp_stream tk fd u) w = link_ok cd u w"
  "mset (going cd (us_msg_send_tcp_stream tk fd u) w) = add_mset tk (mset (going cd u w))"
  "outstanding cd (us_msg_send_tcp_stream tk fd u) w = add_mset tk (outstanding cd u w)"
  by (cases tk; simp add: us_msg_send_tcp_stream_def req_tcp_stream_fd_def link_ok_def going_def returning_def
      outstanding_def down_wire_def up_wire_def sb_inv_def sb_unread_def request_token_def)+

definition took :: "unix_stream \<Rightarrow> unix_stream \<Rightarrow> bool" where
  "took u u' \<longleftrightarrow>
     us_buffer u' = (us_buffer u)\<lparr>stream_tks := [], stream_close_tks := []\<rparr> \<and>
     us_got u' = us_got u \<and> us_sent u' = us_sent u \<and> us_token u' = us_token u \<and>
     num_reqs u' = num_reqs u - of_nat (length (stream_tks (us_buffer u)) + length (stream_close_tks (us_buffer u)))"

lemma took_link:
  assumes "took u u'"
  shows "link_ok cd u' w = link_ok cd u w" "going cd u' w = going cd u w"
    "outstanding cd u w = outstanding cd u' w + mset (map fst (stream_tks (us_buffer u)))
       + mset (map fst (stream_close_tks (us_buffer u)))"
  using assms by (simp_all add: took_def link_ok_def going_def returning_def outstanding_def down_wire_def
      up_wire_def sb_inv_def sb_unread_def)


section \<open>Tokens\<close>

text \<open>
  The accepted connection a token belongs to; a connection's tokens grow by \<open>KEEP_ALIVE_COUNT_INC\<close>
  with each request. \<open>R\<close> are the tokens of idle streams, \<open>P\<close> those in processing, and \<open>U\<close> those the
  threads have been asked about; \<open>c\<close> is the counter of new connections.
\<close>

definition conn :: "token \<Rightarrow> nat" where
  "conn tk = unat (tok tk) div 2 ^ 24"

definition toks_ok :: "usize \<Rightarrow> token set \<Rightarrow> token set \<Rightarrow> token set \<Rightarrow> bool" where
  "toks_ok c R P U \<longleftrightarrow>
     (\<exists>m. unat c = m * 2 ^ 24) \<and> (\<forall>t \<in> R \<union> P \<union> U. unat (tok t) < unat c) \<and> R \<inter> P = {} \<and>
     inj_on conn (R \<union> P) \<and>
     (\<forall>t \<in> R. \<forall>u \<in> U. conn u = conn t \<longrightarrow> unat (tok u) < unat (tok t)) \<and>
     (\<forall>t \<in> P. \<forall>u \<in> U. conn u = conn t \<longrightarrow> unat (tok u) \<le> unat (tok t))"

lemma toks_ok_mono:
  assumes "toks_ok c R P U" and "R' \<subseteq> R" and "P' \<subseteq> P" and "U' \<subseteq> U"
  shows "toks_ok c R' P' U'"
proof -
  have "inj_on conn (R' \<union> P')" using assms by (auto simp: toks_ok_def intro: inj_on_subset)
  then show ?thesis using assms unfolding toks_ok_def by blast
qed

text \<open>An idle stream's token has been asked of no thread.\<close>

lemma toks_ok_idle: "toks_ok c R P U \<Longrightarrow> R \<inter> U = {}"
  unfolding toks_ok_def by fastforce

lemma toks_ok_owe:
  assumes "toks_ok c R P U" and "U' \<subseteq> U \<union> P"
  shows "toks_ok c R P U'"
proof -
  have "unat (tok u) < unat (tok t)" if "t \<in> R" "u \<in> U'" "conn u = conn t" for t u
  proof (cases "u \<in> P")
    case True
    with assms(1) that have "u = t" unfolding toks_ok_def by (metis UnCI inj_onD)
    with True that(1) assms(1) show ?thesis unfolding toks_ok_def by blast
  next
    case False
    with assms that show ?thesis unfolding toks_ok_def by blast
  qed
  moreover have "unat (tok u) \<le> unat (tok t)" if "t \<in> P" "u \<in> U'" "conn u = conn t" for t u
  proof (cases "u \<in> P")
    case True
    with assms(1) that have "u = t" unfolding toks_ok_def by (metis UnCI inj_onD)
    then show ?thesis by simp
  next
    case False
    with assms that show ?thesis unfolding toks_ok_def by blast
  qed
  ultimately show ?thesis using assms unfolding toks_ok_def by blast
qed

lemma toks_ok_start:
  assumes "toks_ok c R P U" and "tk \<in> R"
  shows "toks_ok c (R - {tk}) (insert tk P) U"
proof -
  have "(R - {tk}) \<union> insert tk P = R \<union> P" using assms(2) by blast
  then have "inj_on conn ((R - {tk}) \<union> insert tk P)" using assms(1) by (simp add: toks_ok_def)
  then show ?thesis using assms unfolding toks_ok_def by (auto intro: less_imp_le)
qed

lemma unat_add_small:
  fixes a b :: usize
  assumes "unat a + unat b < 2 ^ 64"
  shows "unat (a + b) = unat a + unat b"
  using assms unat_add_lem [of a b] by simp

lemma toks_ok_new:
  assumes "toks_ok c R P U" and "unat c + 2 ^ 24 < 2 ^ 64"
  shows "toks_ok (c + NEW_STREAM_COUNT_INC) (insert (Token c) R) P U"
proof -
  have n: "unat (NEW_STREAM_COUNT_INC) = 2 ^ 24" by (simp add: NEW_STREAM_COUNT_INC_def)
  have c: "unat (c + NEW_STREAM_COUNT_INC) = unat c + 2 ^ 24" using unat_add_small [of c NEW_STREAM_COUNT_INC] assms(2) n by simp
  obtain m where m: "unat c = m * 2 ^ 24" using assms(1) by (auto simp: toks_ok_def)
  have less: "conn t < conn (Token c)" if "t \<in> R \<union> P \<union> U" for t
  proof -
    have "unat (tok t) < m * 2 ^ 24" using assms(1) that m by (auto simp: toks_ok_def)
    then have "unat (tok t) div 2 ^ 24 < m" by (simp add: less_mult_imp_div_less)
    then show ?thesis by (simp add: conn_def m)
  qed
  have "inj_on conn (R \<union> P)" using assms(1) by (simp add: toks_ok_def)
  moreover have "conn (Token c) \<notin> conn ` (R \<union> P - {Token c})" using less by force
  ultimately have inj: "inj_on conn (insert (Token c) R \<union> P)" by (simp add: inj_on_insert)
  have m': "\<exists>k. unat (c + NEW_STREAM_COUNT_INC) = k * 2 ^ 24" by (rule exI [of _ "Suc m"]) (simp add: c m)
  have bound: "\<forall>t \<in> insert (Token c) R \<union> P \<union> U. unat (tok t) < unat (c + NEW_STREAM_COUNT_INC)"
  proof
    fix t
    assume "t \<in> insert (Token c) R \<union> P \<union> U"
    then consider "t = Token c" | "t \<in> R \<union> P \<union> U" by blast
    then show "unat (tok t) < unat (c + NEW_STREAM_COUNT_INC)"
    proof cases
      case 2
      then have "unat (tok t) < unat c" using assms(1) unfolding toks_ok_def by blast
      then show ?thesis using c by simp
    qed (simp add: c)
  qed
  have "Token c \<notin> P" using less [of "Token c"] by blast
  then have "insert (Token c) R \<inter> P = {}" using assms(1) by (simp add: toks_ok_def)
  moreover have "\<forall>t \<in> insert (Token c) R. \<forall>u \<in> U. conn u = conn t \<longrightarrow> unat (tok u) < unat (tok t)"
  proof (intro ballI impI)
    fix t u
    assume t: "t \<in> insert (Token c) R" and u: "u \<in> U" "conn u = conn t"
    have "t \<noteq> Token c" using less [of u] u by auto
    with t have "t \<in> R" by blast
    with u assms(1) show "unat (tok u) < unat (tok t)" unfolding toks_ok_def by blast
  qed
  moreover have "\<forall>t \<in> P. \<forall>u \<in> U. conn u = conn t \<longrightarrow> unat (tok u) \<le> unat (tok t)"
    using assms(1) by (simp add: toks_ok_def)
  ultimately show ?thesis unfolding toks_ok_def using inj m' bound by blast
qed

text \<open>The next token of a connection, within the limit of requests.\<close>

lemma keep_alive_next:
  fixes c :: usize
  assumes c: "unat c = m * 2 ^ 24" and lt: "unat (tok tk) < unat c" and "unat (tok tk) mod 2 ^ 24 + 2 ^ 7 < 2 ^ 24"
  shows "unat (tok (keep_alive_token tk)) = unat (tok tk) + 2 ^ 7" "unat (tok tk) + 2 ^ 7 < unat c"
    "conn (keep_alive_token tk) = conn tk"
proof -
  let ?t = "unat (tok tk)"
  have d: "?t div 2 ^ 24 < m" using lt c by (simp add: less_mult_imp_div_less)
  have split: "?t = 2 ^ 24 * (?t div 2 ^ 24) + ?t mod 2 ^ 24" by simp
  have "2 ^ 24 * Suc (?t div 2 ^ 24) = 2 ^ 24 * (?t div 2 ^ 24) + 2 ^ 24" by simp
  then have "?t + 2 ^ 7 < 2 ^ 24 * Suc (?t div 2 ^ 24)" using assms(3) split by linarith
  also have "\<dots> \<le> 2 ^ 24 * m" using d by (intro mult_le_mono2) simp
  finally show lt2: "?t + 2 ^ 7 < unat c" using c by simp
  have "unat c < 2 ^ LENGTH(64)" by (rule unsigned_less)
  moreover have "unat KEEP_ALIVE_COUNT_INC = 2 ^ 7" by (simp add: KEEP_ALIVE_COUNT_INC_def)
  ultimately show u: "unat (tok (keep_alive_token tk)) = ?t + 2 ^ 7"
    using unat_add_small [of "tok tk" KEEP_ALIVE_COUNT_INC] lt2 by (simp add: keep_alive_token_def)
  have "(?t + 2 ^ 7) div 2 ^ 24 = ?t div 2 ^ 24" using assms(3) div_add1_eq [of ?t "2 ^ 7" "2 ^ 24"] by simp
  then show "conn (keep_alive_token tk) = conn tk" by (simp add: conn_def u)
qed

lemma toks_ok_keep:
  assumes "toks_ok c R P U" and "tk \<in> P" and "unat (tok tk) mod 2 ^ 24 + 2 ^ 7 < 2 ^ 24"
  shows "toks_ok c (insert (keep_alive_token tk) R) (P - {tk}) U"
proof -
  let ?n = "keep_alive_token tk" and ?t = "unat (tok tk)"
  obtain m where m: "unat c = m * 2 ^ 24" using assms(1) by (auto simp: toks_ok_def)
  have "?t < unat c" using assms(1,2) by (auto simp: toks_ok_def)
  note next_tk = keep_alive_next [OF m this assms(3)]
  note u = next_tk(1) and lt2 = next_tk(2) and cn = next_tk(3)
  have P: "\<forall>t \<in> R \<union> P. t \<noteq> tk \<longrightarrow> conn t \<noteq> conn tk"
    using assms(1,2) unfolding toks_ok_def by (metis UnCI inj_onD)
  have "?n \<noteq> tk" using u by auto
  with P cn have new: "?n \<notin> R \<union> P" by auto
  have inj: "inj_on conn (insert ?n R \<union> (P - {tk}))"
  proof -
    have "inj_on conn (R \<union> (P - {tk}))"
      using assms(1) by (auto simp: toks_ok_def intro: inj_on_subset)
    moreover have "conn ?n \<notin> conn ` (R \<union> (P - {tk}))"
    proof
      assume "conn ?n \<in> conn ` (R \<union> (P - {tk}))"
      then obtain x where "x \<in> R \<union> (P - {tk})" "conn ?n = conn x" by blast
      with cn have x: "x \<in> R \<union> (P - {tk})" "conn x = conn tk" by simp_all
      have "tk \<notin> R" using assms(1,2) unfolding toks_ok_def by blast
      with P x show False by auto
    qed
    ultimately show ?thesis using new by (simp add: inj_on_insert)
  qed
  have tkU: "unat (tok x) \<le> ?t" if "x \<in> U" "conn x = conn tk" for x
    using assms(1,2) that unfolding toks_ok_def by blast
  have "\<forall>t \<in> insert ?n R. \<forall>x \<in> U. conn x = conn t \<longrightarrow> unat (tok x) < unat (tok t)"
  proof (intro ballI impI)
    fix t x
    assume t: "t \<in> insert ?n R" and x: "x \<in> U" "conn x = conn t"
    show "unat (tok x) < unat (tok t)"
    proof (cases "t = ?n")
      case True
      with tkU [of x] x cn u show ?thesis by simp
    next
      case False
      with t x assms(1) show ?thesis unfolding toks_ok_def by blast
    qed
  qed
  moreover have "\<forall>t \<in> insert ?n R \<union> (P - {tk}) \<union> U. unat (tok t) < unat c"
    using assms(1) u lt2 unfolding toks_ok_def by auto
  moreover have "insert ?n R \<inter> (P - {tk}) = {}" using assms(1) new unfolding toks_ok_def by blast
  moreover have "\<forall>t \<in> P - {tk}. \<forall>x \<in> U. conn x = conn t \<longrightarrow> unat (tok x) \<le> unat (tok t)"
    using assms(1) unfolding toks_ok_def by blast
  ultimately show ?thesis using inj m unfolding toks_ok_def by blast
qed

end
