(* ===== verification/SystemServer.thy ===== *)
theory SystemServer
  imports SystemLink
begin

text \<open>
  The invariant of the server and its workers together, and the server's turns: taking the
  answers, starting requests, reading and writing the sockets. A stream in processing is in one
  place only, and the tokens of idle streams have been asked of no thread.
\<close>

section \<open>The invariant of the system\<close>

definition asked_any :: "worker list \<Rightarrow> token set" where
  "asked_any ws = (\<Union>w \<in> set ws. asked (wk_threads w))"

definition total :: "codec \<Rightarrow> unix_stream list \<Rightarrow> worker list \<Rightarrow> token multiset" where
  "total cd us ws = (\<Sum>k<length ws. outstanding cd (us ! k) (ws ! k))"

definition links_ok :: "codec \<Rightarrow> unix_stream list \<Rightarrow> worker list \<Rightarrow> bool" where
  "links_ok cd us ws \<longleftrightarrow> length us = length ws \<and>
     (\<forall>k < length ws. link_ok cd (us ! k) (ws ! k) \<and> set (going cd (us ! k) (ws ! k)) \<inter> asked_any ws = {} \<and>
        num_reqs (us ! k) = of_nat (size (outstanding cd (us ! k) (ws ! k))))"

definition sys_inv :: "codec \<Rightarrow> config \<Rightarrow> server \<Rightarrow> worker list \<Rightarrow> bool" where
  "sys_inv cd cfg s ws \<longleftrightarrow>
     server_inv cfg s \<and> links_ok cd (sv_unix s) ws \<and> (\<forall>w \<in> set ws. worker_inv cfg w) \<and>
     mset_set (hm_keys (sv_processing s)) = total cd (sv_unix s) ws \<and>
     toks_ok (sv_count s) (hm_keys (sv_reading s)) (hm_keys (sv_processing s)) (asked_any ws)"

lemma sum_at: "k < n \<Longrightarrow> (\<Sum>j<n. f j) = f k + (\<Sum>j \<in> {..<n} - {k}. (f j :: token multiset))" for n k :: nat
  by (simp add: sum.remove)

lemma total_update:
  assumes "k < length ws" and "length us = length ws"
  shows "total cd (us[k := u]) (ws[k := w]) + outstanding cd (us ! k) (ws ! k) = total cd us ws + outstanding cd u w"
proof -
  have "(\<Sum>j \<in> {..<length ws} - {k}. outstanding cd (us[k := u] ! j) (ws[k := w] ! j)) =
      (\<Sum>j \<in> {..<length ws} - {k}. outstanding cd (us ! j) (ws ! j))"
    by (intro sum.cong) auto
  then show ?thesis
    using assms by (simp add: total_def sum_at [OF assms(1)])
qed

lemma total_stream:
  assumes "k < length ws" and "length us = length ws"
  shows "total cd (us[k := u]) ws + outstanding cd (us ! k) (ws ! k) = total cd us ws + outstanding cd u (ws ! k)"
  using total_update [OF assms, of cd u "ws ! k"] by simp

lemma outstanding_total: "k < length ws \<Longrightarrow> outstanding cd (us ! k) (ws ! k) \<subseteq># total cd us ws"
  by (simp add: total_def sum_at)

text \<open>A multiset of distinct elements, in parts.\<close>

lemma mset_set_parts:
  assumes "finite A" and "mset_set A = X + mset L"
  shows "distinct L" "set L \<subseteq> A" "X = mset_set (A - set L)" "set_mset X \<inter> set L = {}"
proof -
  have "count (mset L) x \<le> 1" for x
  proof -
    have "count (mset L) x \<le> count (mset_set A) x" by (simp add: assms(2))
    also have "\<dots> \<le> 1" using assms(1) by (simp add: count_mset_set')
    finally show ?thesis .
  qed
  then show d: "distinct L"
    by (simp add: distinct_count_atmost_1) (metis One_nat_def Suc_leI count_greater_zero_iff le_antisym set_mset_mset count_mset_0_iff)
  show sub: "set L \<subseteq> A" using arg_cong [OF assms(2), of set_mset] assms(1) by auto
  have "A = (A - set L) \<union> set L" using sub by blast
  then have "mset_set A = mset_set (A - set L) + mset_set (set L)"
    using assms(1) by (metis Diff_disjoint Int_commute finite_Diff finite_set mset_set_Union)
  moreover have "mset_set (set L) = mset L" using d by (simp add: mset_set_set)
  ultimately show "X = mset_set (A - set L)" using assms(2) by simp
  then show "set_mset X \<inter> set L = {}" using assms(1) by auto
qed

section \<open>Taking the answers\<close>

definition same_wire :: "unix_stream \<Rightarrow> unix_stream \<Rightarrow> bool" where
  "same_wire u u' \<longleftrightarrow> us_buffer u' = us_buffer u \<and> us_got u' = us_got u \<and> us_sent u' = us_sent u \<and>
     us_token u' = us_token u \<and> num_reqs u' = num_reqs u"

lemma reregister_same: "list_all2 same_wire us (fst (us_reregister_all reg us))"
  by (induction us) (auto simp: split_beta Let_def us_reregister_def same_wire_def split: option.split)

definition took_kept :: "unix_stream \<Rightarrow> unix_stream \<Rightarrow> bool" where
  "took_kept u u' \<longleftrightarrow> u' = u\<lparr>us_buffer := (us_buffer u)\<lparr>stream_tks := []\<rparr>,
     num_reqs := num_reqs u - of_nat (length (stream_tks (us_buffer u)))\<rparr>"

definition took_closed :: "unix_stream \<Rightarrow> unix_stream \<Rightarrow> bool" where
  "took_closed u u' \<longleftrightarrow> u' = u\<lparr>us_buffer := (us_buffer u)\<lparr>stream_close_tks := []\<rparr>,
     num_reqs := num_reqs u - of_nat (length (stream_close_tks (us_buffer u)))\<rparr>"

lemma next_stream_tks_took: "list_all2 took_kept us (fst (next_stream_tks us))"
proof -
  have "list_all2 took_kept us (fst (next_stream_tks_loop us tks))" for tks
    by (induction us arbitrary: tks) (simp_all add: us_drain_tks_eq split_beta Let_def took_kept_def)
  then show ?thesis by (simp add: next_stream_tks_def)
qed

lemma next_stream_close_tks_took: "list_all2 took_closed us (fst (next_stream_close_tks us))"
proof -
  have "list_all2 took_closed us (fst (next_stream_close_tks_loop us tks))" for tks
    by (induction us arbitrary: tks) (simp_all add: us_drain_close_tks_eq split_beta Let_def took_closed_def)
  then show ?thesis by (simp add: next_stream_close_tks_def)
qed

lemma kept_stream_unix:
  "kept_stream i tk s = Ret t \<Longrightarrow> sv_unix (turn_state t) = sv_unix s \<and> sv_count (turn_state t) = sv_count s"
  by (auto simp: kept_stream_def shutdown_and_drop_def insert_reading_def sv_call_def sv_error_def Let_def
      split: option.splits if_splits)

lemma closed_stream_unix:
  "closed_stream i tk s = Ret t \<Longrightarrow> sv_unix (turn_state t) = sv_unix s \<and> sv_count (turn_state t) = sv_count s"
  by (auto simp: closed_stream_def shutdown_and_drop_def sv_call_def sv_error_def Let_def split: option.splits)

lemma take_answers_unix:
  assumes "take_answers i s = Ret (Next t)"
  shows "list_all2 took (sv_unix s) (sv_unix t)" "sv_count t = sv_count s"
proof -
  define r where "r = fst (us_reregister_all (si_reg i) (sv_unix s))"
  define u where "u = fst (next_stream_tks r)"
  obtain v where v: "keep_answers i s = Ret (Next v)" "close_answers i v = Ret (Next t)"
    using assms by (auto simp: take_answers_def turn_bind_Ret)
  have "sv_unix v = u \<and> sv_count v = sv_count s"
    using v(1) turn_fold_inv [where P = "\<lambda>x. sv_unix x = u \<and> sv_count x = sv_count s" and f = "kept_stream i" and t = "Next v"]
      kept_stream_unix
    by (fastforce simp: keep_answers_def Let_def split_beta u_def r_def)
  moreover have "sv_unix t = fst (next_stream_close_tks (sv_unix v)) \<and> sv_count t = sv_count v"
    using v(2) turn_fold_inv [where f = "closed_stream i" and t = "Next t" and
        P = "\<lambda>x. sv_unix x = fst (next_stream_close_tks (sv_unix v)) \<and> sv_count x = sv_count v"] closed_stream_unix
    by (fastforce simp: close_answers_def Let_def split_beta)
  ultimately have t: "sv_unix t = fst (next_stream_close_tks u)" "sv_count t = sv_count s" by simp_all
  have "list_all2 same_wire (sv_unix s) r" by (simp add: r_def reregister_same)
  moreover have "list_all2 took_kept r u" by (simp add: u_def next_stream_tks_took)
  ultimately have "list_all2 (\<lambda>a b. \<exists>x. same_wire a x \<and> took_kept x b) (sv_unix s) u"
    by (rule list_all2_trans [rotated]) blast
  moreover have "list_all2 took_closed u (sv_unix t)" by (simp add: t next_stream_close_tks_took)
  ultimately show "list_all2 took (sv_unix s) (sv_unix t)"
    by (rule list_all2_trans [rotated]) (auto simp: same_wire_def took_kept_def took_closed_def took_def)
  show "sv_count t = sv_count s" by (rule t)
qed

lemma queued_sum:
  "mset (queued_tks us) = (\<Sum>k<length us. mset (map fst (stream_tks (us_buffer (us ! k)))))"
  "mset (queued_close_tks us) = (\<Sum>k<length us. mset (map fst (stream_close_tks (us_buffer (us ! k)))))"
proof -
  show "mset (queued_tks us) = (\<Sum>k<length us. mset (map fst (stream_tks (us_buffer (us ! k)))))"
    by (induction us) (simp_all add: queued_tks_def sum.lessThan_Suc_shift del: sum.lessThan_Suc)
  show "mset (queued_close_tks us) = (\<Sum>k<length us. mset (map fst (stream_close_tks (us_buffer (us ! k)))))"
    by (induction us) (simp_all add: queued_close_tks_def sum.lessThan_Suc_shift del: sum.lessThan_Suc)
qed

lemma total_took:
  assumes "list_all2 took us us'" and "length us = length ws"
  shows "total cd us ws = total cd us' ws + mset (queued_tks us @ queued_close_tks us)"
proof -
  have "outstanding cd (us ! k) (ws ! k) = outstanding cd (us' ! k) (ws ! k)
      + mset (map fst (stream_tks (us_buffer (us ! k)))) + mset (map fst (stream_close_tks (us_buffer (us ! k))))"
    if "k < length ws" for k
    using took_link(3) [of "us ! k" "us' ! k"] assms that by (simp add: list_all2_conv_all_nth)
  then have "total cd us ws = (\<Sum>k<length ws. outstanding cd (us' ! k) (ws ! k)
      + mset (map fst (stream_tks (us_buffer (us ! k)))) + mset (map fst (stream_close_tks (us_buffer (us ! k)))))"
    unfolding total_def by (intro sum.cong) auto
  then show ?thesis using assms(2) by (simp add: total_def sum.distrib queued_sum)
qed


text \<open>
  What bounds a stream: a request number below \<open>2 ^ 17\<close> when it is kept, and new connections
  before the counter wraps.
\<close>

definition keeps_ok :: "server \<Rightarrow> bool" where
  "keeps_ok s \<longleftrightarrow> (\<forall>tk \<in> set (queued_tks (sv_unix s)). unat (tok tk) mod 2 ^ 24 + 2 ^ 7 < 2 ^ 24)"

definition server_toks :: "token set \<Rightarrow> server \<Rightarrow> bool" where
  "server_toks U s \<longleftrightarrow> toks_ok (sv_count s) (hm_keys (sv_reading s)) (hm_keys (sv_processing s)) U"

lemma kept_stream_toks:
  assumes k: "kept_stream i tk s = Ret t" and s: "server_toks U s" and "unat (tok tk) mod 2 ^ 24 + 2 ^ 7 < 2 ^ 24"
  shows "server_toks U (turn_state t)"
proof -
  obtain fd where fd: "hm_get (sv_processing s) tk = Some fd"
    using k by (auto simp: kept_stream_def split: option.splits)
  then have "tk \<in> hm_keys (sv_processing s)" using hm_get_SomeD by fastforce
  note new = toks_ok_keep [OF s [unfolded server_toks_def] this assms(3)]
  have "sv_count (turn_state t) = sv_count s" using kept_stream_unix [OF k] by simp
  moreover have "hm_keys (sv_reading (turn_state t)) \<subseteq> insert (keep_alive_token tk) (hm_keys (sv_reading s))"
    "hm_keys (sv_processing (turn_state t)) = hm_keys (sv_processing s) - {tk}"
    using k fd by (auto simp: kept_stream_def shutdown_and_drop_def insert_reading_def sv_call_def sv_error_def Let_def
        split: option.splits if_splits)
  ultimately show ?thesis unfolding server_toks_def using toks_ok_mono [OF new] by simp
qed

lemma closed_stream_toks:
  assumes k: "closed_stream i tk s = Ret t" and s: "server_toks U s"
  shows "server_toks U (turn_state t)"
proof -
  have "sv_count (turn_state t) = sv_count s" using closed_stream_unix [OF k] by simp
  moreover have "hm_keys (sv_reading (turn_state t)) = hm_keys (sv_reading s)"
    "hm_keys (sv_processing (turn_state t)) \<subseteq> hm_keys (sv_processing s)"
    using k by (auto simp: closed_stream_def shutdown_and_drop_def sv_call_def sv_error_def Let_def split: option.splits)
  ultimately show ?thesis
    using toks_ok_mono [OF s [unfolded server_toks_def]] by (simp add: server_toks_def)
qed

lemma server_toks_unix [simp]: "server_toks U (s\<lparr>sv_unix := us\<rparr>) = server_toks U s"
  "server_toks U (s\<lparr>sv_errors := es\<rparr>) = server_toks U s"
  by (simp_all add: server_toks_def)

lemma take_answers_toks:
  assumes t: "take_answers i s = Ret (Next t)" and s: "server_toks U s" and k: "keeps_ok s"
  shows "server_toks U t"
proof -
  obtain v where v: "keep_answers i s = Ret (Next v)" "close_answers i v = Ret (Next t)"
    using t by (auto simp: take_answers_def turn_bind_Ret)
  have "queued_tks (fst (us_reregister_all (si_reg i) (sv_unix s))) = queued_tks (sv_unix s)"
    using us_reregister_all_fst [of "si_reg i" "sv_unix s"] by simp
  with v(1) have "turn_fold (kept_stream i) (queued_tks (sv_unix s))
      (s\<lparr>sv_unix := fst (next_stream_tks (fst (us_reregister_all (si_reg i) (sv_unix s)))),
         sv_errors := sv_errors s @ snd (us_reregister_all (si_reg i) (sv_unix s))\<rparr>) = Ret (Next v)"
    by (simp add: keep_answers_def Let_def split_beta next_stream_tks_snd)
  then have "server_toks U (turn_state (Next v))"
    using s k by (elim turn_fold_inv [where P = "server_toks U", rotated])
      (auto simp: keeps_ok_def intro: kept_stream_toks)
  then have "server_toks U v" by simp
  then have "server_toks U (turn_state (Next t))"
    using v(2) unfolding close_answers_def Let_def split_beta
    by (elim turn_fold_inv [where P = "server_toks U", rotated]) (auto intro: closed_stream_toks)
  then show ?thesis by simp
qed

text \<open>The answers that have arrived are about streams in processing, so all are taken.\<close>

lemma sys_answers_ok:
  assumes inv: "sys_inv cd cfg s ws"
  shows "answers_ok s"
proof -
  let ?us = "sv_unix s"
  have len: "length ?us = length ws" using inv by (simp add: sys_inv_def links_ok_def)
  have "total cd ?us ws = (\<Sum>k<length ws. mset (going cd (?us ! k) (ws ! k)) + mset_set (live (ws ! k))
      + mset (map response_token (wire_responses cd (up_wire (?us ! k) (ws ! k)))))
      + mset (queued_tks ?us @ queued_close_tks ?us)" (is "_ = ?X + _")
    by (simp add: total_def outstanding_def returning_def queued_sum len sum.distrib ac_simps)
  then have "mset_set (hm_keys (sv_processing s)) = ?X + mset (queued_tks ?us @ queued_close_tks ?us)"
    using inv by (simp add: sys_inv_def)
  from mset_set_parts(1,2) [OF finite_hm_keys this] show ?thesis by (simp add: answers_ok_def)
qed

lemma take_answers_sys:
  assumes inv: "sys_inv cd cfg s ws" and k: "keeps_ok s"
  shows "\<exists>t. take_answers i s = Ret (Next t) \<and> sys_inv cd cfg t ws \<and> sv_count t = sv_count s \<and>
     list_all2 took (sv_unix s) (sv_unix t)"
proof -
  let ?us = "sv_unix s"
  have len: "length ?us = length ws" using inv by (simp add: sys_inv_def links_ok_def)
  from take_answers_spec [OF sys_answers_ok [OF inv], of i] obtain t where
    t: "take_answers i s = Ret (Next t)" and
    p: "hm_keys (sv_processing t) = hm_keys (sv_processing s) - set (queued_tks ?us @ queued_close_tks ?us)"
    by (auto simp: Diff_eq Int_assoc)
  note tk = take_answers_unix [OF t]
  have "mset_set (hm_keys (sv_processing s)) = total cd (sv_unix t) ws + mset (queued_tks ?us @ queued_close_tks ?us)"
    using inv total_took [OF tk(1) len] by (simp add: sys_inv_def)
  from mset_set_parts(3) [OF finite_hm_keys this] have led: "mset_set (hm_keys (sv_processing t)) = total cd (sv_unix t) ws"
    by (simp only: p)
  have "links_ok cd (sv_unix t) ws"
    unfolding links_ok_def
  proof (intro conjI allI impI)
    show "length (sv_unix t) = length ws" using list_all2_lengthD [OF tk(1)] len by simp
    fix k
    assume kk: "k < length ws"
    have tu: "took (?us ! k) (sv_unix t ! k)" using tk(1) kk len by (simp add: list_all2_conv_all_nth)
    have l: "link_ok cd (?us ! k) (ws ! k)" "set (going cd (?us ! k) (ws ! k)) \<inter> asked_any ws = {}"
      "num_reqs (?us ! k) = of_nat (size (outstanding cd (?us ! k) (ws ! k)))"
      using inv kk by (simp_all add: sys_inv_def links_ok_def)
    show "link_ok cd (sv_unix t ! k) (ws ! k)" "set (going cd (sv_unix t ! k) (ws ! k)) \<inter> asked_any ws = {}"
      using l took_link(1,2) [OF tu] by simp_all
    show "num_reqs (sv_unix t ! k) = of_nat (size (outstanding cd (sv_unix t ! k) (ws ! k)))"
      using l(3) took_link(3) [OF tu, of cd "ws ! k"] tu by (simp add: took_def)
  qed
  moreover have "server_inv cfg t" using take_answers_inv [OF t] inv by (simp add: sys_inv_def)
  moreover have "server_toks (asked_any ws) t"
    using take_answers_toks [OF t _ k] inv by (simp add: sys_inv_def server_toks_def)
  ultimately show ?thesis
    using inv led t tk by (simp add: sys_inv_def server_toks_def)
qed


section \<open>The events of the server\<close>

text \<open>
  A read of a worker's socket fits the buffer and gives what the worker has written next; mio
  reports a source once; and the counter does not wrap.
\<close>

definition event_fits :: "unix_stream list \<Rightarrow> worker list \<Rightarrow> srv_event \<Rightarrow> bool" where
  "event_fits us ws ev \<longleftrightarrow>
     (\<forall>k. se_readable ev \<longrightarrow> us_find (se_token ev) us = Some k \<longrightarrow>
        length (read_bytes (se_read ev)) \<le> sb_space (us_buffer (us ! k)) \<and>
        (\<exists>y. wk_sent (ws ! k) = us_got (us ! k) @ read_bytes (se_read ev) @ y))"

definition events_fit :: "srv_event list \<Rightarrow> server \<Rightarrow> worker list \<Rightarrow> bool" where
  "events_fit evs s ws \<longleftrightarrow>
     distinct (map se_token evs) \<and> (\<forall>ev \<in> set evs. event_fits (sv_unix s) ws ev) \<and>
     unat (sv_count s) + length evs * 2 ^ 24 < 2 ^ 64"

lemma us_find_cong: "map us_token us = map us_token us' \<Longrightarrow> us_find tk us = us_find tk us'"
proof (induction us arbitrary: us')
  case (Cons u us)
  then obtain u' vs where "us' = u' # vs" by (cases us') auto
  with Cons show ?case by auto
qed simp

definition same_reads :: "unix_stream \<Rightarrow> unix_stream \<Rightarrow> bool" where
  "same_reads u u' \<longleftrightarrow> us_token u' = us_token u \<and> us_got u' = us_got u \<and>
     sb_space (us_buffer u') = sb_space (us_buffer u)"

lemma event_fits_cong:
  assumes "event_fits us ws ev" and "length us = length us'" and "map us_token us' = map us_token us"
    and "\<And>k. us_find (se_token ev) us = Some k \<Longrightarrow> same_reads (us ! k) (us' ! k)"
  shows "event_fits us' ws ev"
  using assms(1,4) us_find_cong [OF assms(3), of "se_token ev"] by (simp add: event_fits_def same_reads_def)

lemma events_fit_tl:
  assumes e: "events_fit (ev # evs) s ws" and len: "length (sv_unix s') = length (sv_unix s)"
    and tks: "map us_token (sv_unix s') = map us_token (sv_unix s)"
    and same: "\<And>k tk. k < length (sv_unix s) \<Longrightarrow> us_find tk (sv_unix s) = Some k \<Longrightarrow> tk \<noteq> se_token ev \<Longrightarrow>
      same_reads (sv_unix s ! k) (sv_unix s' ! k)"
    and c: "unat (sv_count s') \<le> unat (sv_count s) + 2 ^ 24"
  shows "events_fit evs s' ws"
  unfolding events_fit_def
proof (intro conjI ballI)
  show "distinct (map se_token evs)" "unat (sv_count s') + length evs * 2 ^ 24 < 2 ^ 64"
    using e c by (simp_all add: events_fit_def)
  fix e'
  assume e': "e' \<in> set evs"
  have "se_token ev \<notin> se_token ` set evs" using e by (simp add: events_fit_def)
  with e' have "se_token e' \<noteq> se_token ev" by (metis imageI)
  then have "same_reads (sv_unix s ! k) (sv_unix s' ! k)" if "us_find (se_token e') (sv_unix s) = Some k" for k
    using same [OF _ that] us_find_SomeD [OF that] by blast
  moreover have "event_fits (sv_unix s) ws e'" using e e' by (simp add: events_fit_def)
  ultimately show "event_fits (sv_unix s') ws e'"
    using event_fits_cong [OF _ len [symmetric] tks] by blast
qed

lemma sys_link:
  assumes "sys_inv cd cfg s ws" and "k < length ws"
  shows "length (sv_unix s) = length ws" "link_ok cd (sv_unix s ! k) (ws ! k)"
    "set (going cd (sv_unix s ! k) (ws ! k)) \<inter> asked_any ws = {}"
    "num_reqs (sv_unix s ! k) = of_nat (size (outstanding cd (sv_unix s ! k) (ws ! k)))"
  using assms by (simp_all add: sys_inv_def links_ok_def)

text \<open>Replacing one stream, when its link is still right and holds the same streams.\<close>

lemma links_update:
  assumes "links_ok cd us ws" and "k < length ws" and "link_ok cd u (ws ! k)"
    and "set (going cd u (ws ! k)) \<inter> asked_any ws = {}" and "num_reqs u = of_nat (size (outstanding cd u (ws ! k)))"
  shows "links_ok cd (us[k := u]) ws"
  using assms by (simp add: links_ok_def nth_list_update)

lemma unix_event_sys:
  assumes cd: "codec_ok cd" and inv: "sys_inv cd cfg s ws" and k: "k < length ws"
    and fit: "se_readable ev \<Longrightarrow> length (read_bytes (se_read ev)) \<le> sb_space (us_buffer (sv_unix s ! k)) \<and>
        (\<exists>y. wk_sent (ws ! k) = us_got (sv_unix s ! k) @ read_bytes (se_read ev) @ y)"
  shows "\<exists>s' u. unix_event cd ev k s = Ret (Next s') \<and> sys_inv cd cfg s' ws \<and> sv_unix s' = (sv_unix s)[k := u] \<and>
     us_token u = us_token (sv_unix s ! k) \<and> sv_count s' = sv_count s"
proof -
  let ?u = "sv_unix s ! k" and ?w = "ws ! k"
  note l = sys_link [OF inv k]
  obtain u1 r1 where u1: "(if se_readable ev then us_read_stream cd (se_read ev) ?u else Ret (?u, Ok ())) = Ret (u1, r1)"
    "link_ok cd u1 ?w" "going cd u1 ?w = going cd ?u ?w" "outstanding cd u1 ?w = outstanding cd ?u ?w"
    "us_token u1 = us_token ?u" "num_reqs u1 = num_reqs ?u"
    using read_link [OF cd l(2), of "se_read ev"] fit l(2) by (cases "se_readable ev") auto
  obtain u2 r2 where u2: "(if se_writable ev then us_write_stream cd (se_cap ev) (se_write ev) u1 else Ret (u1, Ok ())) = Ret (u2, r2)"
    "link_ok cd u2 ?w" "mset (going cd u2 ?w) = mset (going cd u1 ?w)" "outstanding cd u2 ?w = outstanding cd u1 ?w"
    "us_token u2 = us_token u1" "num_reqs u2 = num_reqs u1"
    using write_link [OF cd u1(2), of "se_cap ev" "se_write ev"] u1(2) by (cases "se_writable ev") auto
  let ?s1 = "push_result r1 (s\<lparr>sv_unix := (sv_unix s)[k := u1]\<rparr>)"
  let ?s' = "push_result r2 (?s1\<lparr>sv_unix := (sv_unix ?s1)[k := u2]\<rparr>)"
  have pr: "sv_unix (push_result r x) = sv_unix x" "sv_reading (push_result r x) = sv_reading x"
    "sv_processing (push_result r x) = sv_processing x" "sv_count (push_result r x) = sv_count x" for r x
    by (simp_all add: push_result_def sv_error_def split: result.split)
  have run: "unix_event cd ev k s = Ret (Next ?s')" by (simp add: unix_event_def u1(1) u2(1) Let_def)
  have us: "sv_unix ?s' = (sv_unix s)[k := u2]" by (simp add: pr)
  have tot: "total cd ((sv_unix s)[k := u2]) ws = total cd (sv_unix s) ws"
    using total_stream [OF k l(1), of cd u2] u1(4) u2(4) by simp
  have "set (going cd u2 ?w) = set (going cd ?u ?w)"
    using arg_cong [OF u2(3), of set_mset] u1(3) by simp
  then have "links_ok cd ((sv_unix s)[k := u2]) ws"
    using inv l u1 u2 by (intro links_update [OF _ k]) (simp_all add: sys_inv_def)
  moreover have "server_inv cfg ?s'" using inv by (simp add: sys_inv_def server_inv_def pr)
  ultimately have "sys_inv cd cfg ?s' ws"
    using inv tot by (simp add: sys_inv_def pr)
  with run us u1(5) u2(5) show ?thesis by (intro exI [of _ ?s'] exI [of _ u2]) (simp add: pr)
qed

lemma sys_inv_idle:
  assumes "sys_inv cd cfg s ws" and "server_inv cfg s'" and "sv_unix s' = sv_unix s"
    and "hm_keys (sv_processing s') = hm_keys (sv_processing s)"
    and "toks_ok (sv_count s') (hm_keys (sv_reading s')) (hm_keys (sv_processing s)) (asked_any ws)"
  shows "sys_inv cd cfg s' ws"
  using assms by (simp add: sys_inv_def)

lemma sb_space_ask: "sb_space (req_tcp_stream_fd tk fd b) = sb_space b"
  by (cases tk) (simp add: sb_space_def sb_grow_def req_tcp_stream_fd_def)

lemma ask_same_reads: "same_reads u u" "same_reads u (us_msg_send_tcp_stream tk fd u)"
  by (simp_all add: same_reads_def us_msg_send_tcp_stream_def sb_space_ask)

text \<open>A stream goes to the least loaded worker.\<close>

lemma ask_links:
  assumes inv: "sys_inv cd cfg s ws" and k: "k < length ws" and tk: "tk \<in> hm_keys (sv_reading s)"
  shows "links_ok cd ((sv_unix s)[k := us_msg_send_tcp_stream tk fd (sv_unix s ! k)]) ws"
    "total cd ((sv_unix s)[k := us_msg_send_tcp_stream tk fd (sv_unix s ! k)]) ws = add_mset tk (total cd (sv_unix s) ws)"
proof -
  let ?u = "us_msg_send_tcp_stream tk fd (sv_unix s ! k)" and ?w = "ws ! k"
  have toks: "toks_ok (sv_count s) (hm_keys (sv_reading s)) (hm_keys (sv_processing s)) (asked_any ws)"
    and links: "links_ok cd (sv_unix s) ws" using inv by (simp_all add: sys_inv_def)
  have len: "length (sv_unix s) = length ws" using links by (simp add: links_ok_def)
  have "total cd ((sv_unix s)[k := ?u]) ws + outstanding cd (sv_unix s ! k) ?w =
      add_mset tk (total cd (sv_unix s) ws) + outstanding cd (sv_unix s ! k) ?w"
    using total_stream [OF k len, of cd ?u] ask_link(3) [of cd tk fd "sv_unix s ! k" ?w] by simp
  then show "total cd ((sv_unix s)[k := ?u]) ws = add_mset tk (total cd (sv_unix s) ws)" by (simp only: add_right_cancel)
  have "tk \<notin> asked_any ws" using toks_ok_idle [OF toks] tk by blast
  moreover have "set (going cd ?u ?w) = insert tk (set (going cd (sv_unix s ! k) ?w))"
    using arg_cong [OF ask_link(2), of set_mset cd tk fd "sv_unix s ! k" ?w] by simp
  moreover have "num_reqs ?u = num_reqs (sv_unix s ! k) + 1" by (simp add: us_msg_send_tcp_stream_def)
  ultimately show "links_ok cd ((sv_unix s)[k := ?u]) ws"
    using sys_link [OF inv k] ask_link [of cd tk fd "sv_unix s ! k" ?w] by (intro links_update [OF links k]) simp_all
qed

lemma start_sys:
  assumes inv: "sys_inv cd cfg s ws" and ne: "ws \<noteq> []" and fd: "hm_get (sv_reading s) tk = Some fd"
  shows "\<exists>s'. start_processing i tk fd s = Ret (Next s') \<and> sys_inv cd cfg s' ws \<and> sv_count s' = sv_count s \<and>
     list_all2 same_reads (sv_unix s) (sv_unix s')"
proof -
  have tk: "tk \<in> hm_keys (sv_reading s)" using fd by (rule hm_get_SomeD)
  have toks: "toks_ok (sv_count s) (hm_keys (sv_reading s)) (hm_keys (sv_processing s)) (asked_any ws)"
    and si: "server_inv cfg s" and links: "links_ok cd (sv_unix s) ws" using inv by (simp_all add: sys_inv_def)
  have len: "length (sv_unix s) = length ws" using links by (simp add: links_ok_def)
  have refl: "list_all2 same_reads us us" for us by (rule list_all2_refl) (simp add: same_reads_def)
  show ?thesis
  proof (cases "si_tcp i (TcpDeregister fd)")
    case (Some e)
    let ?s = "sv_call (TcpDrop fd) (sv_error e (sv_call (TcpDeregister fd) (s\<lparr>sv_reading := hm_delete tk (sv_reading s)\<rparr>)))"
    have e: "start_processing i tk fd s = Ret (Next ?s)" using Some by (simp add: start_processing_def Let_def)
    have f: "sv_unix ?s = sv_unix s" "sv_count ?s = sv_count s" "hm_keys (sv_processing ?s) = hm_keys (sv_processing s)"
      "hm_keys (sv_reading ?s) = hm_keys (sv_reading s) - {tk}"
      by (simp_all add: sv_call_def sv_error_def)
    have "server_inv cfg ?s" using start_processing_inv [OF e si fd] by simp
    then have "sys_inv cd cfg ?s ws"
      using f toks_ok_mono [OF toks, of "hm_keys (sv_reading s) - {tk}"] by (intro sys_inv_idle [OF inv]) auto
    with e f refl show ?thesis by auto
  next
    case None
    let ?k = "least_loaded (sv_unix s)"
    let ?u = "us_msg_send_tcp_stream tk fd (sv_unix s ! ?k)"
    have nz: "sv_unix s \<noteq> []" using ne len by auto
    have k: "?k < length ws" using least_loaded_min(1) [OF nz] len by simp
    let ?us = "(sv_unix s)[?k := ?u]"
    let ?s0 = "sv_call (TcpDeregister fd) (s\<lparr>sv_reading := hm_delete tk (sv_reading s)\<rparr>)"
    let ?s = "insert_processing tk fd (?s0\<lparr>sv_unix := ?us\<rparr>)"
    have e: "start_processing i tk fd s = Ret (Next ?s)"
      using None msg_send_Ret [OF nz, of tk fd] by (simp add: start_processing_def Let_def sv_call_def)
    have f: "sv_unix ?s = ?us" "sv_count ?s = sv_count s" "hm_keys (sv_processing ?s) = insert tk (hm_keys (sv_processing s))"
      "hm_keys (sv_reading ?s) = hm_keys (sv_reading s) - {tk}"
      by (simp_all add: sv_call_def insert_processing_def Let_def split: option.split)
    have sinv: "server_inv cfg ?s" using start_processing_inv [OF e si fd] by simp
    note ask = ask_links [OF inv k tk, of fd]
    have "tk \<notin> hm_keys (sv_processing s)" using toks tk unfolding toks_ok_def by blast
    then have "mset_set (insert tk (hm_keys (sv_processing s))) = total cd ?us ws"
      using inv ask(2) by (simp add: sys_inv_def)
    with toks_ok_start [OF toks tk] ask(1) have "sys_inv cd cfg ?s ws" using inv f sinv by (simp add: sys_inv_def)
    moreover have "list_all2 same_reads (sv_unix s) ?us"
      using k len by (simp add: list_all2_conv_all_nth nth_list_update ask_same_reads)
    ultimately show ?thesis using e f by auto
  qed
qed

lemma same_reads_refl: "list_all2 same_reads us us"
  by (rule list_all2_refl) (rule ask_same_reads)

lemma took_same_reads: "took u u' \<Longrightarrow> same_reads u u'"
  by (simp add: took_def same_reads_def sb_space_def sb_grow_def)

lemma same_reads_tokens: "list_all2 same_reads us us' \<Longrightarrow> map us_token us' = map us_token us"
  by (induction rule: list_all2_induct) (simp_all add: same_reads_def)

lemma event_fits_same:
  assumes s: "list_all2 same_reads us us'" and e: "event_fits us ws ev"
  shows "event_fits us' ws ev"
  using e list_all2_lengthD [OF s] same_reads_tokens [OF s]
proof (rule event_fits_cong)
  fix k
  assume "us_find (se_token ev) us = Some k"
  then have "k < length us" using us_find_SomeD by blast
  then show "same_reads (us ! k) (us' ! k)" using s by (simp add: list_all2_conv_all_nth)
qed

lemma events_fit_same:
  assumes "list_all2 same_reads (sv_unix s) (sv_unix s')"
  shows "events_fit evs s ws \<Longrightarrow> sv_count s' = sv_count s \<Longrightarrow> events_fit evs s' ws"
    "events_fit (ev # evs) s ws \<Longrightarrow> unat (sv_count s') \<le> unat (sv_count s) + 2 ^ 24 \<Longrightarrow> events_fit evs s' ws"
  using event_fits_same [OF assms] by (auto simp: events_fit_def)

lemma accept_sys:
  assumes inv: "sys_inv cd cfg s ws" and c: "unat (sv_count s) + 2 ^ 24 < 2 ^ 64"
  shows "sys_inv cd cfg (accept_stream cfg i fd s) ws" "sv_unix (accept_stream cfg i fd s) = sv_unix s"
    "unat (sv_count (accept_stream cfg i fd s)) \<le> unat (sv_count s) + 2 ^ 24"
proof -
  let ?s = "accept_stream cfg i fd s"
  have f: "sv_unix ?s = sv_unix s" "sv_processing ?s = sv_processing s" "sv_count ?s = sv_count s + NEW_STREAM_COUNT_INC"
    "hm_keys (sv_reading ?s) \<subseteq> insert (Token (sv_count s)) (hm_keys (sv_reading s))"
    by (auto simp: accept_stream_def count_next_def insert_reading_def Let_def split: option.splits)
  have "server_inv cfg ?s" using accept_stream_inv inv by (simp add: sys_inv_def)
  moreover have "toks_ok (sv_count ?s) (hm_keys (sv_reading ?s)) (hm_keys (sv_processing s)) (asked_any ws)"
    using toks_ok_mono [OF toks_ok_new f(4) subset_refl subset_refl] inv c by (simp add: sys_inv_def f(3))
  ultimately show "sys_inv cd cfg ?s ws" using f by (intro sys_inv_idle [OF inv]) simp_all
  show "sv_unix ?s = sv_unix s" by (rule f)
  have "unat NEW_STREAM_COUNT_INC = 2 ^ 24" by (simp add: NEW_STREAM_COUNT_INC_def)
  then show "unat (sv_count ?s) \<le> unat (sv_count s) + 2 ^ 24"
    using unat_add_small [of "sv_count s" NEW_STREAM_COUNT_INC] c by (simp add: f(3))
qed

lemma unix_event_next:
  assumes cd: "codec_ok cd" and inv: "sys_inv cd cfg s ws" and fit: "events_fit (ev # evs) s ws"
    and found: "us_find (se_token ev) (sv_unix s) = Some k"
  shows "\<exists>s'. unix_event cd ev k s = Ret (Next s') \<and> sys_inv cd cfg s' ws \<and> events_fit evs s' ws"
proof -
  from us_find_SomeD [OF found] inv have k: "k < length ws" by (simp add: sys_inv_def links_ok_def)
  have "event_fits (sv_unix s) ws ev" using fit by (simp add: events_fit_def)
  with found obtain s' u where
    s': "unix_event cd ev k s = Ret (Next s')" "sys_inv cd cfg s' ws" "sv_unix s' = (sv_unix s)[k := u]"
      "us_token u = us_token (sv_unix s ! k)" "sv_count s' = sv_count s"
    using unix_event_sys [OF cd inv k, of ev] by (auto simp: event_fits_def)
  have "map us_token (sv_unix s') = map us_token (sv_unix s)"
    using s'(3,4) by (metis list_update_id map_update)
  moreover have "same_reads (sv_unix s ! j) (sv_unix s' ! j)"
    if "us_find tk (sv_unix s) = Some j" "tk \<noteq> se_token ev" for j tk
  proof -
    have "j \<noteq> k" using us_find_SomeD [OF found] us_find_SomeD [OF that(1)] that(2) by auto
    then show ?thesis using s'(3) by (simp add: ask_same_reads)
  qed
  ultimately have "events_fit evs s' ws" using events_fit_tl [OF fit, of s'] s'(3,5) by simp
  with s' show ?thesis by blast
qed

text \<open>An event leaves the invariant, and the remaining events fit the new state.\<close>

lemma event_sys:
  assumes cd: "codec_ok cd" and inv: "sys_inv cd cfg s ws" and ne: "ws \<noteq> []"
    and fit: "events_fit (ev # evs) s ws"
  shows "\<exists>t. handle_event cd cfg i ev s = Ret t \<and>
     (\<forall>s'. t = Next s' \<longrightarrow> sys_inv cd cfg s' ws \<and> events_fit evs s' ws)"
proof (cases "se_token ev = SERVER_TOKEN")
  case True
  have c: "unat (sv_count s) + 2 ^ 24 < 2 ^ 64" using fit by (simp add: events_fit_def)
  show ?thesis
  proof (cases "se_accept ev")
    case (Ok fd)
    have "list_all2 same_reads (sv_unix s) (sv_unix (accept_stream cfg i fd s))"
      unfolding accept_sys(2) [OF inv c] by (rule same_reads_refl)
    from events_fit_same(2) [OF this fit accept_sys(3) [OF inv c]]
    have "events_fit evs (accept_stream cfg i fd s) ws" .
    then show ?thesis using True Ok accept_sys [OF inv c, of i fd] by (simp add: handle_event_def)
  next
    case (Err e)
    have "events_fit evs s ws" using events_fit_same(2) [OF same_reads_refl fit] by simp
    then show ?thesis using True Err inv by (simp add: handle_event_def)
  qed
next
  case tk: False
  show ?thesis
  proof (cases "hm_get (sv_reading s) (se_token ev)")
    case (Some fd)
    from start_sys [OF inv ne Some, of i] obtain s' where
      s': "start_processing i (se_token ev) fd s = Ret (Next s')" "sys_inv cd cfg s' ws" "sv_count s' = sv_count s"
        "list_all2 same_reads (sv_unix s) (sv_unix s')" by blast
    have "events_fit evs s' ws" using events_fit_same(2) [OF s'(4) fit] s'(3) by simp
    with s' tk Some show ?thesis by (simp add: handle_event_def)
  next
    case None
    show ?thesis
    proof (cases "us_find (se_token ev) (sv_unix s)")
      case found: (Some k)
      from unix_event_next [OF cd inv fit found] tk None found show ?thesis by (auto simp: handle_event_def)
    qed (use tk None in \<open>simp add: handle_event_def\<close>)
  qed
qed

lemma events_sys:
  assumes cd: "codec_ok cd" and ne: "ws \<noteq> []"
  shows "sys_inv cd cfg s ws \<Longrightarrow> events_fit evs s ws \<Longrightarrow>
    \<exists>t. turn_fold (handle_event cd cfg i) evs s = Ret t \<and> (\<forall>s'. t = Next s' \<longrightarrow> sys_inv cd cfg s' ws)"
proof (induction evs arbitrary: s)
  case (Cons ev evs)
  from event_sys [OF cd Cons.prems(1) ne Cons.prems(2), of i] obtain t where
    t: "handle_event cd cfg i ev s = Ret t" "\<forall>s'. t = Next s' \<longrightarrow> sys_inv cd cfg s' ws \<and> events_fit evs s' ws"
    by blast
  then show ?case using Cons.IH by (cases t) auto
qed simp

section \<open>A turn of the server\<close>

lemma maybe_shutdown_sys:
  assumes inv: "sys_inv cd cfg s ws"
  shows "sys_inv cd cfg (maybe_shutdown i s) ws" "sv_count (maybe_shutdown i s) = sv_count s"
proof -
  have "sv_count (shutdown_and_drop i fd s) = sv_count s" for fd s
    by (simp add: shutdown_and_drop_def Let_def split: option.split)
  then have "sv_count (shutdown_idle i x s) = sv_count s" for x s
    by (simp add: shutdown_idle_def Let_def split: option.split)
  then have "sv_count (fold (shutdown_idle i) xs s) = sv_count s" for xs s
    by (induction xs arbitrary: s) simp_all
  then show c: "sv_count (maybe_shutdown i s) = sv_count s"
    by (simp add: maybe_shutdown_def shutdown_def Let_def split: option.split)
  have "hm_keys (sv_reading (maybe_shutdown i s)) \<subseteq> hm_keys (sv_reading s)"
    by (simp add: maybe_shutdown_def hm_keys_def)
  moreover have "server_inv cfg (maybe_shutdown i s)" using inv by (simp add: sys_inv_def shutdown_inv)
  ultimately show "sys_inv cd cfg (maybe_shutdown i s) ws"
    using inv toks_ok_mono [of "sv_count s"] by (intro sys_inv_idle [OF inv]) (auto simp: sys_inv_def c)
qed

lemma drain_errors_sys: "sys_inv cd cfg s ws \<Longrightarrow> sys_inv cd cfg (drain_errors s) ws"
  by (simp add: sys_inv_def drain_errors_def server_inv_def)

text \<open>What the operating system gives in a turn of the server fits its state.\<close>

definition server_turn_ok :: "srv_input \<Rightarrow> server \<Rightarrow> worker list \<Rightarrow> bool" where
  "server_turn_ok i s ws \<longleftrightarrow> keeps_ok s \<and> events_fit (si_events i) s ws"

lemma server_turn_sys:
  assumes cd: "codec_ok cd" and ne: "ws \<noteq> []" and inv: "sys_inv cd cfg s ws" and ok: "server_turn_ok i s ws"
  shows "\<exists>t. server_turn cd cfg i s = Ret t \<and> (\<forall>s'. t = Next s' \<longrightarrow> sys_inv cd cfg s' ws)"
proof (cases "check_exit cfg i s = Ret (Next s)")
  case False
  have "\<exists>x r. check_exit cfg i s = Ret (Leave x r)"
    using False by (auto simp: check_exit_def Let_def split: if_splits option.splits)
  then show ?thesis by (auto simp: server_turn_def)
next
  case True
  from take_answers_sys [OF inv, of i] ok obtain t where
    t: "take_answers i s = Ret (Next t)" "sys_inv cd cfg t ws" "sv_count t = sv_count s"
      "list_all2 took (sv_unix s) (sv_unix t)" by (auto simp: server_turn_ok_def)
  let ?t = "maybe_shutdown i t"
  note m = maybe_shutdown_sys [OF t(2), of i]
  have "list_all2 same_reads (sv_unix s) (sv_unix ?t)"
    using list_all2_mono [OF t(4), of same_reads] took_same_reads by simp
  then have "events_fit (si_events i) ?t ws"
    using ok m(2) t(3) by (auto simp: server_turn_ok_def intro: events_fit_same(1))
  from events_sys [OF cd ne m(1) this, of i] obtain r where
    "turn_fold (handle_event cd cfg i) (si_events i) ?t = Ret r" "\<forall>s'. r = Next s' \<longrightarrow> sys_inv cd cfg s' ws" by blast
  then show ?thesis
    using True t(1) drain_errors_sys by (cases r) (auto simp: server_turn_def handle_events_def)
qed

end
