(* ===== verification/SystemWorker.thy ===== *)
theory SystemWorker
  imports SystemServer WorkerThreads
begin

text \<open>
  A turn of one worker in the system: what \<open>WorkerProps.turn_ok\<close> asks of the server (requests that
  decode, with new tokens) follows from the invariant of the system, and the turn keeps it.
\<close>

section \<open>Streams taken out of the buffer\<close>

lemma drain_streams_msgs:
  "map request_token (stream_msgs b) =
     map fst (snd (drain_streams b)) @ map request_token (stream_msgs (fst (drain_streams b)))"
  "wb_write_buffer (fst (drain_streams b)) = wb_write_buffer b"
proof (induction b rule: drain_streams.induct)
  case (1 b)
  obtain b' o' where n: "next_stream_fd b = (b', o')" by (cases "next_stream_fd b")
  have both: "map request_token (stream_msgs b) =
      map fst (snd (drain_streams b)) @ map request_token (stream_msgs (fst (drain_streams b))) \<and>
      wb_write_buffer (fst (drain_streams b)) = wb_write_buffer b"
  proof (cases o')
    case None
    then have "b = b'" using n by (auto simp: next_stream_fd_def split: list.splits)
    moreover have "drain_streams b = (b', [])" by (subst drain_streams.simps) (simp add: n None)
    ultimately show ?thesis by simp
  next
    case (Some x)
    have "drain_streams b = (fst (drain_streams b'), x # snd (drain_streams b'))"
      by (subst drain_streams.simps) (simp add: n Some split_beta)
    moreover have "map request_token (stream_msgs b) = fst x # map request_token (stream_msgs b')"
      "wb_write_buffer b' = wb_write_buffer b"
      using n Some by (auto simp: next_stream_fd_def request_token_def split: list.splits)
    ultimately show ?thesis using "1.IH" [OF n [symmetric] Some] by simp
  qed
  show "map request_token (stream_msgs b) =
      map fst (snd (drain_streams b)) @ map request_token (stream_msgs (fst (drain_streams b)))"
    using both by blast
  show "wb_write_buffer (fst (drain_streams b)) = wb_write_buffer b" using both by blast
qed

section \<open>What a worker may rely on\<close>

text \<open>
  The inputs of a turn that come from outside the program: mio, the clients and the clock; the
  channels of its Python threads, whose histories so far are \<open>ths\<close>; and the socket, which gives
  bytes that the server has written.
\<close>

definition outside_ok :: "config \<Rightarrow> 's thread_run list \<Rightarrow> worker_input \<Rightarrow> worker \<Rightarrow> bool" where
  "outside_ok cfg ths i w \<longleftrightarrow>
     regs_ok i \<and> times_ok cfg i \<and> mio_ok i w \<and> reads_ok i w \<and>
     threads_give ths (wi_resps i) (wk_threads w)"

definition socket_fits :: "worker_input \<Rightarrow> unix_stream \<Rightarrow> worker \<Rightarrow> bool" where
  "socket_fits i u w \<longleftrightarrow>
     length (read_bytes (wi_unix_read i)) \<le> wb_space (wk_buf w) \<and>
     (\<exists>y. us_sent u = wk_got w @ read_bytes (wi_unix_read i) @ y)"

lemma split_requests:
  assumes cd: "codec_ok cd" and X: "a @ b = request_bytes cd X"
  shows "decode_all (de_request cd) (fst (split_frames 1 1 u8_from a)) \<noteq> None"
proof -
  let ?ser = "\<lambda>m. the (ser_request cd m)"
  have ne: "\<forall>p \<in> set (map ?ser X). p \<noteq> [] \<and> length p < 256" using ser_request_ok [OF cd] by simp
  have "a @ b = concat (map (frame u8_prefix) (map ?ser X))" using X by (simp add: request_bytes_frames)
  from f8.split_prefix [OF ne this] obtain ps1 ps2 r where
    ps: "map ?ser X = ps1 @ ps2" "split_frames 1 1 u8_from a = (ps1, r)" by blast
  then obtain X1 where "ps1 = map ?ser X1" by (auto simp: map_eq_append_conv)
  then have "decode_all (de_request cd) ps1 = Some X1"
    using decode_all_map [of "de_request cd" ?ser X1] ser_request_ok(3) [OF cd] by simp
  with ps(2) show ?thesis by simp
qed

lemma link_bytes_ok:
  assumes cd: "codec_ok cd" and l: "link_ok cd u w" and f: "socket_fits i u w"
  shows "bytes_ok cd i (wk_buf w)"
  unfolding bytes_ok_def
proof (intro allI impI)
  fix bs
  assume bs: "wi_unix_read i = Ok bs"
  from f bs obtain y where y: "us_sent u = wk_got w @ bs @ y" by (auto simp: socket_fits_def)
  from l obtain ms where "down_wire u w = request_bytes cd ms" by (auto simp: link_ok_def)
  then have "(wb_unread (wk_buf w) @ bs) @ (y @ sb_write_buffer (us_buffer u)) = request_bytes cd ms"
    by (simp add: down_wire_def y)
  from split_requests [OF cd this] f bs
  show "length bs \<le> wb_space (wk_buf w) \<and>
      decode_all (de_request cd) (fst (split_frames 1 1 u8_from (wb_unread (wk_buf w) @ bs))) \<noteq> None"
    by (simp add: socket_fits_def)
qed

text \<open>A stream that goes to a worker is not yet with it.\<close>

lemma outstanding_parts:
  assumes "finite A" and "outstanding cd u w \<subseteq># mset_set A"
  shows "distinct (going cd u w)" "set (going cd u w) \<inter> live w = {}"
proof -
  from assms(2) obtain Z where "mset_set A = outstanding cd u w + Z" by (auto simp: mset_subset_eq_exists_conv)
  then have e: "mset_set A = (mset_set (live w) + mset (returning cd u w) + Z) + mset (going cd u w)"
    by (simp add: outstanding_def ac_simps)
  show "distinct (going cd u w)" by (rule mset_set_parts(1) [OF assms(1) e])
  have "set_mset (mset_set (live w) + mset (returning cd u w) + Z) \<inter> set (going cd u w) = {}"
    by (rule mset_set_parts(4) [OF assms(1) e])
  then show "set (going cd u w) \<inter> live w = {}" by auto
qed

lemma outstanding_ledger:
  assumes "sys_inv cd cfg s ws" and "k < length ws"
  shows "outstanding cd (sv_unix s ! k) (ws ! k) \<subseteq># mset_set (hm_keys (sv_processing s))"
  using outstanding_total [OF assms(2), of cd "sv_unix s"] assms(1) by (simp add: sys_inv_def)

lemma asked_any_nth: "k < length ws \<Longrightarrow> asked (wk_threads (ws ! k)) \<subseteq> asked_any ws"
  unfolding asked_any_def by (drule nth_mem) blast

lemma sys_turn_ok:
  assumes cd: "codec_ok cd" and inv: "sys_inv cd cfg s ws" and k: "k < length ws"
    and out: "outside_ok cfg ths i (ws ! k)" and f: "socket_fits i (sv_unix s ! k) (ws ! k)"
  shows "turn_ok cd cfg i (ws ! k)"
proof -
  let ?u = "sv_unix s ! k" and ?w = "ws ! k"
  note l = sys_link [OF inv k]
  let ?tks = "map fst (snd (drain_streams (wk_buf ?w)))"
  have sub: "set ?tks \<subseteq> set (going cd ?u ?w)" and d: "distinct (going cd ?u ?w) \<Longrightarrow> distinct ?tks"
    using drain_streams_msgs(1) [of "wk_buf ?w"] by (auto simp: going_def)
  note p = outstanding_parts [OF finite_hm_keys outstanding_ledger [OF inv k]]
  have "set ?tks \<inter> (live ?w \<union> asked (wk_threads ?w)) = {}"
    using sub p(2) l(3) asked_any_nth [OF k] by blast
  then have "fresh_streams ?w" using d [OF p(1)] by (simp add: fresh_streams_def Let_def)
  moreover have "threads_inv (wk_threads ?w)"
    using inv k by (simp add: sys_inv_def worker_inv_def mid_def healthy_def)
  then have "PythonThreads.answers_ok (wi_resps i) (wk_threads ?w)"
    using out threads_give_owed by (auto simp: outside_ok_def)
  ultimately show ?thesis
    using out link_bytes_ok [OF cd l(2) f] by (simp add: turn_ok_def outside_ok_def)
qed

section \<open>The worker's side of a link\<close>

lemma moves_link:
  assumes cd: "codec_ok cd" and l: "link_ok cd u w" and fit: "\<forall>m \<in> set qs. response_fits cd m"
    and m: "moves cd bs ms qs (w\<lparr>wk_buf := fst (drain_streams (wk_buf w))\<rparr>) w'"
    and pre: "\<exists>y. us_sent u = wk_got w @ bs @ y"
  shows "link_ok cd u w'"
    "mset (going cd u w) = mset (going cd u w') + mset (map fst (snd (drain_streams (wk_buf w))))"
    "mset (returning cd u w') = mset (returning cd u w) + mset (map response_token qs)"
proof -
  let ?b = "wk_buf w" and ?d = "w\<lparr>wk_buf := fst (drain_streams (wk_buf w))\<rparr>"
  have un: "wb_unread (fst (drain_streams ?b)) = wb_unread ?b" using drain_streams_frame [of ?b] by simp
  note dr = drain_streams_msgs [of ?b]
  from pre obtain y where y: "us_sent u = wk_got w @ bs @ y" by blast
  from l obtain X rs z where X: "down_wire u w = request_bytes cd X"
    and rs: "up_wire u w = response_bytes cd rs" "\<forall>m \<in> set rs. response_fits cd m"
    and z: "wk_sent w = us_got u @ z" by (auto simp: link_ok_def)
  let ?rest = "y @ sb_write_buffer (us_buffer u)"
  have "wb_unread (wk_buf ?d) @ bs @ ?rest = request_bytes cd X"
    using X by (simp add: down_wire_def y un)
  then obtain Y where Y: "X = ms @ Y" "wb_unread (wk_buf w') @ ?rest = request_bytes cd Y"
    using m unfolding moves_def by blast
  have got: "wk_got w' = wk_got w @ bs" using m by (simp add: moves_def)
  have down: "down_wire u w' = request_bytes cd Y" using Y(2) by (simp add: down_wire_def got y)
  from m obtain out where out: "wk_sent w' = wk_sent w @ out"
    "out @ wb_write_buffer (wk_buf w') = wb_write_buffer ?b @ response_bytes cd qs"
    by (auto simp: moves_def dr(2))
  have up: "up_wire u w' = response_bytes cd (rs @ qs)"
    using rs(1) out by (simp add: up_wire_def z)
  have fits: "\<forall>m \<in> set (rs @ qs). response_fits cd m" using rs(2) fit by auto
  have "\<exists>ms. down_wire u w' = request_bytes cd ms" using down by blast
  moreover have "\<exists>rs. up_wire u w' = response_bytes cd rs \<and> (\<forall>m \<in> set rs. response_fits cd m)"
    using up fits by blast
  ultimately show "link_ok cd u w'" using l y z got out(1) by (simp add: link_ok_def)
  have wq: "wire_requests cd (down_wire u w) = X" "wire_requests cd (down_wire u w') = Y"
    by (simp_all only: X down wire_requests_bytes [OF cd])
  have msgs: "stream_msgs (wk_buf w') = stream_msgs (fst (drain_streams ?b)) @ ms" using m by (simp add: moves_def)
  show "mset (going cd u w) = mset (going cd u w') + mset (map fst (snd (drain_streams (wk_buf w))))"
    using dr(1) by (simp add: going_def wq Y(1) msgs)
  show "mset (returning cd u w') = mset (returning cd u w) + mset (map response_token qs)"
    using wire_responses_bytes [OF cd fits] wire_responses_bytes [OF cd rs(2)]
    by (simp add: returning_def up rs(1))
qed

text \<open>What a turn of at most 4 GiB of output sends fits its frames.\<close>

definition output_fits :: "worker \<Rightarrow> worker \<Rightarrow> bool" where
  "output_fits w w' \<longleftrightarrow>
     length (wk_sent w') + length (wb_write_buffer (wk_buf w')) < 2 ^ 32 + length (wk_sent w)"

lemma moves_fit:
  assumes cd: "codec_ok cd" and m: "moves cd bs ms qs (w\<lparr>wk_buf := fst (drain_streams (wk_buf w))\<rparr>) w'"
    and f: "output_fits w w'"
  shows "\<forall>m \<in> set qs. response_fits cd m"
proof
  fix q
  assume "q \<in> set qs"
  then obtain q1 q2 where qs: "qs = q1 @ q # q2" by (meson split_list)
  have "length (the (ser_response cd q)) \<le> length (response_bytes cd qs)"
    by (simp add: qs response_bytes_def response_frame_def frame_def)
  moreover from m obtain out where "wk_sent w' = wk_sent w @ out"
    "out @ wb_write_buffer (wk_buf w') = wb_write_buffer (wk_buf w) @ response_bytes cd qs"
    by (auto simp: moves_def drain_streams_msgs(2))
  then have "length (response_bytes cd qs) \<le> length out + length (wb_write_buffer (wk_buf w'))"
    "length (wk_sent w') = length (wk_sent w) + length out"
    by (metis length_append le_add2, simp)
  ultimately show "response_fits cd q" using f by (simp add: ser_response_ok(3) [OF cd] output_fits_def)
qed

section \<open>A turn of a worker\<close>

lemma two_parts:
  fixes f :: "nat \<Rightarrow> token multiset"
  assumes "j < n" and "k < n" and "j \<noteq> k"
  shows "f j + f k \<subseteq># (\<Sum>i<n. f i)"
proof -
  have "(\<Sum>i<n. f i) = f j + (f k + (\<Sum>i \<in> {..<n} - {j} - {k}. f i))"
    using assms by (simp add: sum_at [OF assms(1)] sum.remove [of "{..<n} - {j}" k])
  then show ?thesis by (simp add: add.assoc [symmetric])
qed

text \<open>What goes to one worker is with no other.\<close>

lemma going_elsewhere:
  assumes inv: "sys_inv cd cfg s ws" and "j < length ws" and "k < length ws" and "j \<noteq> k"
  shows "set (going cd (sv_unix s ! j) (ws ! j)) \<inter> set_mset (outstanding cd (sv_unix s ! k) (ws ! k)) = {}"
proof -
  let ?oj = "outstanding cd (sv_unix s ! j) (ws ! j)" and ?ok = "outstanding cd (sv_unix s ! k) (ws ! k)"
  have "?oj + ?ok \<subseteq># mset_set (hm_keys (sv_processing s))"
    using two_parts [OF assms(2-4), of "\<lambda>k. outstanding cd (sv_unix s ! k) (ws ! k)"] inv
    by (simp add: sys_inv_def total_def)
  then obtain Z where "mset_set (hm_keys (sv_processing s)) = ?oj + ?ok + Z" by (auto simp: mset_subset_eq_exists_conv)
  then have e: "mset_set (hm_keys (sv_processing s)) =
      (?ok + Z + mset_set (live (ws ! j)) + mset (returning cd (sv_unix s ! j) (ws ! j))) + mset (going cd (sv_unix s ! j) (ws ! j))"
    by (simp add: outstanding_def ac_simps)
  show ?thesis using mset_set_parts(4) [OF finite_hm_keys e] by auto
qed

lemma asked_any_update:
  assumes "k < length ws" and "asked (wk_threads w) \<subseteq> asked (wk_threads (ws ! k)) \<union> L"
  shows "asked_any (ws[k := w]) \<subseteq> asked_any ws \<union> L"
proof -
  have "set (ws[k := w]) \<subseteq> insert w (set ws)" by (rule set_update_subset_insert)
  then show ?thesis using assms asked_any_nth [OF assms(1)] by (fastforce simp: asked_any_def)
qed

text \<open>
  A turn moves no stream out of the link, and the threads are asked only about streams of it (\<open>L\<close>
  are those the worker holds after it has taken what has arrived).
\<close>

lemma worker_turn_link:
  assumes cd: "codec_ok cd" and inv: "sys_inv cd cfg s ws" and k: "k < length ws"
    and out: "outside_ok cfg ths i (ws ! k)" and f: "socket_fits i (sv_unix s ! k) (ws ! k)"
    and w': "worker_turn cd cfg i (ws ! k) = Ret (Next w')" and fits: "output_fits (ws ! k) w'"
  obtains L where "link_ok cd (sv_unix s ! k) w'" and "worker_inv cfg w'"
    and "outstanding cd (sv_unix s ! k) w' = outstanding cd (sv_unix s ! k) (ws ! k)"
    and "asked (wk_threads w') \<subseteq> asked (wk_threads (ws ! k)) \<union> L"
    and "L \<subseteq> set_mset (outstanding cd (sv_unix s ! k) (ws ! k))"
    and "set (going cd (sv_unix s ! k) w') \<inter> (asked_any ws \<union> L) = {}"
proof -
  let ?u = "sv_unix s ! k" and ?w = "ws ! k"
  let ?d = "?w\<lparr>wk_buf := fst (drain_streams (wk_buf ?w))\<rparr>" and ?tks = "map fst (snd (drain_streams (wk_buf ?w)))"
  note l = sys_link [OF inv k]
  have wi: "worker_inv cfg ?w" using inv k by (simp add: sys_inv_def)
  note ok = sys_turn_ok [OF cd inv k out f]
  have wi': "worker_inv cfg w'" using worker_turn_inv [OF cd wi ok] w' by auto
  obtain bs ms qs where m: "moves cd bs ms qs ?d w'" and bs: "bs = [] \<or> bs = read_bytes (wi_unix_read i)"
    using worker_turn_moves [OF cd wi ok w'] by blast
  have pre: "\<exists>y. us_sent ?u = wk_got ?w @ bs @ y" using bs f by (auto simp: socket_fits_def)
  note ml = moves_link [OF cd l(2) moves_fit [OF cd m fits] m pre]
  note parts = outstanding_parts [OF finite_hm_keys outstanding_ledger [OF inv k]]
  have going: "set ?tks \<subseteq> set (going cd ?u ?w)" "set (going cd ?u w') \<subseteq> set (going cd ?u ?w)"
    using arg_cong [OF ml(2), of set_mset] by auto
  have live_d: "live ?d = live ?w \<union> set ?tks"
    using drain_streams_frame [of "wk_buf ?w"] by (simp add: live_def)
  have "mset (going cd ?u ?w) = mset (going cd ?u w' @ ?tks)" using ml(2) by simp
  then have "distinct (going cd ?u w' @ ?tks)" using parts(1) by (metis mset_eq_imp_distinct_iff)
  then have dt: "distinct ?tks" "set ?tks \<inter> set (going cd ?u w') = {}" by auto
  have "set ?tks \<inter> live ?w = {}" using going(1) parts(2) by blast
  moreover have "mset_set (set ?tks) = mset ?tks" using dt(1) by (rule mset_set_set)
  ultimately have "mset_set (live ?d) = mset_set (live ?w) + mset ?tks"
    unfolding live_d using mset_set_Union [of "live ?w" "set ?tks"] by (simp only: finite_live finite_set Int_commute)
  then have "mset_set (live ?w) + mset ?tks = mset (map response_token qs) + mset_set (live w')"
    using m by (simp add: moves_def)
  then have outs: "outstanding cd ?u w' = outstanding cd ?u ?w"
    using ml(2,3) by (simp add: outstanding_def ac_simps)
  show thesis
  proof (rule that [OF ml(1) wi' outs, of "live ?d"])
    show "asked (wk_threads w') \<subseteq> asked (wk_threads ?w) \<union> live ?d" using m by (simp add: moves_def)
    show "live ?d \<subseteq> set_mset (outstanding cd ?u ?w)" using going(1) by (auto simp: live_d outstanding_def)
    show "set (going cd ?u w') \<inter> (asked_any ws \<union> live ?d) = {}"
      using going(2) l(3) parts(2) dt(2) by (auto simp: live_d)
  qed
qed

lemma worker_turn_sys:
  assumes cd: "codec_ok cd" and inv: "sys_inv cd cfg s ws" and k: "k < length ws"
    and out: "outside_ok cfg ths i (ws ! k)" and f: "socket_fits i (sv_unix s ! k) (ws ! k)"
    and w': "worker_turn cd cfg i (ws ! k) = Ret (Next w')" and fits: "output_fits (ws ! k) w'"
  shows "sys_inv cd cfg s (ws[k := w'])"
proof -
  let ?u = "sv_unix s ! k" and ?w = "ws ! k"
  from worker_turn_link [OF assms] obtain L where link: "link_ok cd ?u w'" and wi': "worker_inv cfg w'"
    and outs: "outstanding cd ?u w' = outstanding cd ?u ?w" and L: "asked (wk_threads w') \<subseteq> asked (wk_threads ?w) \<union> L"
    and live_out: "L \<subseteq> set_mset (outstanding cd ?u ?w)" and own: "set (going cd ?u w') \<inter> (asked_any ws \<union> L) = {}" .
  have asked: "asked_any (ws[k := w']) \<subseteq> asked_any ws \<union> L" by (rule asked_any_update [OF k L])
  have free: "set (going cd (sv_unix s ! j) (ws[k := w'] ! j)) \<inter> asked_any (ws[k := w']) = {}" if j: "j < length ws" for j
  proof (cases "j = k")
    case True
    with own asked k show ?thesis by auto
  next
    case False
    have "set (going cd (sv_unix s ! j) (ws ! j)) \<inter> (asked_any ws \<union> L) = {}"
      using going_elsewhere [OF inv j k False] live_out sys_link(3) [OF inv j] by blast
    with False asked show ?thesis by auto
  qed
  have len: "length (sv_unix s) = length ws" by (rule sys_link(1) [OF inv k])
  have "links_ok cd (sv_unix s) (ws[k := w'])"
    unfolding links_ok_def
  proof (intro conjI allI impI)
    show "length (sv_unix s) = length (ws[k := w'])" using len by simp
    fix j
    assume "j < length (ws[k := w'])"
    then have j: "j < length ws" by simp
    show "set (going cd (sv_unix s ! j) (ws[k := w'] ! j)) \<inter> asked_any (ws[k := w']) = {}" by (rule free [OF j])
    show "link_ok cd (sv_unix s ! j) (ws[k := w'] ! j)"
      using link sys_link(2) [OF inv j] k by (cases "j = k") simp_all
    show "num_reqs (sv_unix s ! j) = of_nat (size (outstanding cd (sv_unix s ! j) (ws[k := w'] ! j)))"
      using outs sys_link(4) [OF inv j] k by (cases "j = k") simp_all
  qed
  moreover have "total cd (sv_unix s) (ws[k := w']) = total cd (sv_unix s) ws"
    using total_update [OF k len, of cd ?u w'] outs by simp
  moreover have "L \<subseteq> hm_keys (sv_processing s)"
    using live_out set_mset_mono [OF outstanding_ledger [OF inv k]] by simp
  then have "asked_any (ws[k := w']) \<subseteq> asked_any ws \<union> hm_keys (sv_processing s)" using asked by blast
  from toks_ok_owe [OF _ this] inv
  have "toks_ok (sv_count s) (hm_keys (sv_reading s)) (hm_keys (sv_processing s)) (asked_any (ws[k := w']))"
    by (simp add: sys_inv_def)
  moreover have "\<forall>w \<in> set (ws[k := w']). worker_inv cfg w"
    using inv wi' set_update_subset_insert [of ws k w'] by (auto simp: sys_inv_def)
  ultimately show ?thesis using inv by (simp add: sys_inv_def)
qed

end
