(* ===== verification/System.thy ===== *)
theory System
  imports SystemWorker WorkerClaims Startup
begin

text \<open>
  The program as a whole: the server and its workers, their turns in any order, and what holds
  at every moment. A process that has left its loop is one that takes no more turns.
\<close>

section \<open>The system\<close>

record system =
  sys_server :: server
  sys_workers :: "worker list"

text \<open>A turn of a worker comes with what its Python threads have done so far.\<close>

datatype 's sys_input = ServerTurn srv_input | WorkerTurn nat "'s thread_run list" worker_input

text \<open>
  After \<open>main.rs\<close> has forked: each worker with the sender of its own work queue, in the program
  \<open>spawn cfg\<close> for each.
\<close>

definition system_start :: "(usize \<times> http_request) sender list \<Rightarrow> system" where
  "system_start sqs = \<lparr>sys_server = server_start (length sqs), sys_workers = map worker_start sqs\<rparr>"

lemma started_system:
  assumes "snd (main_run cfg app bound forks sig io) = RunServer s pids f"
    and "snd (main_run cfg app bound' forks' sig' io') = RunWorker n w f'"
  shows "system_start (replicate (num_workers cfg) (spawn cfg)) =
      \<lparr>sys_server = s, sys_workers = replicate (num_workers cfg) w\<rparr>"
    and "list_all sender_inv (replicate (num_workers cfg) (spawn cfg))"
proof -
  have "w = worker_start (spawn cfg)"
    using assms(2) by (auto simp: main_run_def run_worker_begin_eq split: result.splits fork_end.splits)
  moreover have "s = server_start (num_workers cfg)"
    using assms(1) by (auto simp: main_run_def run_server_begin_def fork_loop_all split: result.splits fork_end.splits option.splits
        dest: list_all2_lengthD)
  ultimately show "system_start (replicate (num_workers cfg) (spawn cfg)) =
      \<lparr>sys_server = s, sys_workers = replicate (num_workers cfg) w\<rparr>" by (simp add: system_start_def)
  show "list_all sender_inv (replicate (num_workers cfg) (spawn cfg))" by (simp add: list_all_iff spawn_inv)
qed

fun system_turn :: "codec \<Rightarrow> config \<Rightarrow> 's sys_input \<Rightarrow> system \<Rightarrow> system turn exec" where
  "system_turn cd cfg (ServerTurn i) sy =
     exec_bind (server_turn cd cfg i (sys_server sy)) (\<lambda>t. Ret (map_turn (\<lambda>s. sy\<lparr>sys_server := s\<rparr>) t))"
| "system_turn cd cfg (WorkerTurn k ths i) sy =
     exec_bind (worker_turn cd cfg i (sys_workers sy ! k))
       (\<lambda>t. Ret (map_turn (\<lambda>w. sy\<lparr>sys_workers := (sys_workers sy)[k := w]\<rparr>) t))"

text \<open>What comes from outside the program.\<close>

fun world_ok :: "config \<Rightarrow> 's sys_input \<Rightarrow> system \<Rightarrow> bool" where
  "world_ok cfg (ServerTurn i) sy \<longleftrightarrow> server_turn_ok i (sys_server sy) (sys_workers sy)"
| "world_ok cfg (WorkerTurn k ths i) sy \<longleftrightarrow> k < length (sys_workers sy) \<and> outside_ok cfg ths i (sys_workers sy ! k) \<and>
     socket_fits i (sv_unix (sys_server sy) ! k) (sys_workers sy ! k)"

fun small_output :: "'s sys_input \<Rightarrow> system \<Rightarrow> system \<Rightarrow> bool" where
  "small_output (ServerTurn i) sy sy' \<longleftrightarrow> True"
| "small_output (WorkerTurn k ths i) sy sy' \<longleftrightarrow> output_fits (sys_workers sy ! k) (sys_workers sy' ! k)"

inductive system_step :: "codec \<Rightarrow> config \<Rightarrow> 's sys_input \<Rightarrow> system \<Rightarrow> system \<Rightarrow> bool"
  for cd cfg where
  "codec_ok cd \<Longrightarrow> world_ok cfg inp sy \<Longrightarrow> system_turn cd cfg inp sy = Ret (Next sy') \<Longrightarrow>
   small_output inp sy sy' \<Longrightarrow> system_step cd cfg inp sy sy'"

inductive_cases system_stepE: "system_step cd cfg inp sy sy'"

definition system_inv :: "codec \<Rightarrow> config \<Rightarrow> system \<Rightarrow> bool" where
  "system_inv cd cfg sy \<longleftrightarrow> sys_workers sy \<noteq> [] \<and> sys_inv cd cfg (sys_server sy) (sys_workers sy)"

lemma system_turn_returns:
  assumes "codec_ok cd" and "system_inv cd cfg sy" and "world_ok cfg inp sy"
  shows "\<exists>t. system_turn cd cfg inp sy = Ret t"
proof (cases inp)
  case (ServerTurn i)
  with assms server_turn_sys [OF assms(1), of "sys_workers sy" cfg "sys_server sy" i] show ?thesis
    by (auto simp: system_inv_def)
next
  case (WorkerTurn k ths i)
  with assms have "turn_ok cd cfg i (sys_workers sy ! k)" "worker_inv cfg (sys_workers sy ! k)"
    using sys_turn_ok [OF assms(1), of cfg "sys_server sy" "sys_workers sy" k ths i]
    by (simp_all add: system_inv_def sys_inv_def)
  from worker_turn_inv [OF assms(1) this(2,1)] WorkerTurn show ?thesis by auto
qed

lemma map_turn_Next: "map_turn f t = Next x \<longleftrightarrow> (\<exists>y. t = Next y \<and> x = f y)"
  by (cases t) auto

lemma system_step_inv:
  assumes "system_step cd cfg inp sy sy'" and inv: "system_inv cd cfg sy"
  shows "system_inv cd cfg sy'"
proof -
  from assms(1) have cd: "codec_ok cd" and ok: "world_ok cfg inp sy"
    and t: "system_turn cd cfg inp sy = Ret (Next sy')" and out: "small_output inp sy sy'"
    by (auto elim: system_stepE)
  show ?thesis
  proof (cases inp)
    case (ServerTurn i)
    then obtain s' where "server_turn cd cfg i (sys_server sy) = Ret (Next s')" "sy' = sy\<lparr>sys_server := s'\<rparr>"
      using t by (auto simp: map_turn_Next)
    with ServerTurn ok inv server_turn_sys [OF cd, of "sys_workers sy" cfg "sys_server sy" i] show ?thesis
      by (auto simp: system_inv_def)
  next
    case (WorkerTurn k ths i)
    then obtain w' where "worker_turn cd cfg i (sys_workers sy ! k) = Ret (Next w')"
      "sy' = sy\<lparr>sys_workers := (sys_workers sy)[k := w']\<rparr>"
      using t by (auto simp: map_turn_Next)
    with WorkerTurn ok out inv worker_turn_sys [OF cd, of cfg "sys_server sy" "sys_workers sy" k ths i w'] show ?thesis
      by (simp add: system_inv_def)
  qed
qed

interpretation sys: step_invariant "system_step cd cfg" "system_inv cd cfg" for cd cfg
  by unfold_locales (rule system_step_inv)

section \<open>The start\<close>

lemma number_streams_nth:
  "length (number_streams c n) = n" "k < n \<Longrightarrow> number_streams c n ! k = unix_stream_new (Token (c + of_nat k))"
proof -
  show "length (number_streams c n) = n" by (induction n arbitrary: c) simp_all
  show "k < n \<Longrightarrow> number_streams c n ! k = unix_stream_new (Token (c + of_nat k))"
    by (induction n arbitrary: c k) (auto simp: nth_Cons' less_Suc_eq_0_disj algebra_simps)
qed

lemma start_link:
  "link_ok cd (unix_stream_new tk) (worker_start sq)" "going cd (unix_stream_new tk) (worker_start sq) = []"
  "outstanding cd (unix_stream_new tk) (worker_start sq) = {#}" "num_reqs (unix_stream_new tk) = 0"
proof -
  let ?u = "unix_stream_new tk" and ?w = "worker_start sq"
  have e: "down_wire ?u ?w = []" "up_wire ?u ?w = []"
    by (simp_all add: down_wire_def up_wire_def unix_stream_new_def server_buf_new_def worker_start_def worker_buf_new_def
        wk_got_def wk_sent_def wb_unread_def sb_unread_def)
  have q: "wire_requests cd [] = []" "wire_responses cd [] = []"
    by (simp_all add: wire_requests_def wire_responses_def split8_short f32.split_short del: One_nat_def)
  have g: "wk_got ?w = []" "wk_sent ?w = []" "us_sent ?u = []" "us_got ?u = []" "stream_msgs (wk_buf ?w) = []"
    "to_send (us_buffer ?u) = []" "stream_tks (us_buffer ?u) = []" "stream_close_tks (us_buffer ?u) = []"
    by (simp_all add: unix_stream_new_def server_buf_new_def worker_start_def worker_buf_new_def wk_got_def wk_sent_def)
  show "going cd ?u ?w = []" by (simp add: going_def e q g)
  show "outstanding cd ?u ?w = {#}"
    by (simp add: outstanding_def going_def returning_def e q g)
      (simp add: live_def worker_start_def worker_buf_new_def)
  show "num_reqs ?u = 0" by (simp add: unix_stream_new_def)
  have "sb_inv (us_buffer ?u)" by (simp add: unix_stream_new_def)
  moreover have "\<exists>ms. [] = request_bytes cd ms" "\<exists>rs. [] = response_bytes cd rs \<and> (\<forall>m \<in> set rs. response_fits cd m)"
    by (rule exI [of _ "[]"], simp)+
  ultimately show "link_ok cd ?u ?w" by (simp add: link_ok_def e g)
qed

lemma system_start_inv:
  assumes "list_all sender_inv sqs" and "sqs \<noteq> []"
  shows "system_inv cd cfg (system_start sqs)"
proof -
  let ?us = "number_streams 1 (length sqs)" and ?ws = "map worker_start sqs"
  have o: "asked_any ?ws = {}"
    by (auto simp: asked_any_def asked_def worker_start_def python_threads_new_def)
  have l: "links_ok cd ?us ?ws"
    by (simp add: links_ok_def number_streams_nth start_link)
  have "total cd ?us ?ws = {#}" by (simp add: total_def number_streams_nth start_link)
  moreover have "toks_ok count_start {} {} {}"
    by (auto simp: toks_ok_def count_start_def NEW_STREAM_COUNT_INC_def intro: exI [of _ 1])
  moreover have "\<forall>w \<in> set ?ws. worker_inv cfg w"
    using assms(1) worker_start_inv by (auto simp: list_all_iff)
  ultimately show ?thesis
    using assms(2) l o server_inv_start [of cfg "length sqs"]
    by (simp add: system_inv_def system_start_def sys_inv_def server_start_def server_new_def)
qed

lemma system_run_inv:
  assumes "list_all sender_inv sqs" and "sqs \<noteq> []" and "run (system_step cd cfg) (system_start sqs) is sy"
  shows "sys_inv cd cfg (sys_server sy) (sys_workers sy)"
  using sys.run_inv [OF assms(3) system_start_inv [OF assms(1,2)]] by (simp add: system_inv_def)

section \<open>A run\<close>

text \<open>
  One worker; a connection is accepted (descriptor 5), becomes readable, is sent to the worker,
  arrives there and is taken into the worker's tables.
\<close>

definition first_token :: token where
  "first_token = Token 0x1000000"

definition no_threads :: "iter_step list thread_run list" where
  "no_threads = []"

lemma no_threads_give [simp]: "threads_give no_threads [] (python_threads_new sq)"
  by (simp add: threads_give_def no_threads_def python_threads_new_def)

definition first_frame :: bytes where
  "first_frame = request_frame fixed_codec example_request"

definition readable_event :: srv_event where
  "readable_event = (accept_event 0)\<lparr>se_token := first_token\<rparr>"

definition socket_event :: srv_event where
  "socket_event = (accept_event 0)\<lparr>se_token := Token 1, se_readable := False, se_writable := True,
     se_cap := 1, se_write := Ok 13\<rparr>"

definition accepted_server :: server where
  "accepted_server = (server_start 1)\<lparr>sv_count := count_start + NEW_STREAM_COUNT_INC,
     sv_reading := [(first_token, 5)], sv_calls := [TcpRegister first_token 5]\<rparr>"

definition sent_server :: "unix_stream \<Rightarrow> server" where
  "sent_server u = accepted_server\<lparr>sv_unix := [u], sv_reading := [], sv_processing := [(first_token, 5)],
     sv_calls := [TcpRegister first_token 5, TcpDeregister 5]\<rparr>"

lemmas server_turn_defs = server_turn_def check_exit_def take_answers_def keep_answers_def
  close_answers_def maybe_shutdown_def handle_events_def handle_event_def Let_def server_start_def
  server_new_def next_stream_tks_def next_stream_close_tks_def sv_call_def drain_errors_def quiet_input_def
  accept_event_def

lemma accept_run:
  "server_turn fixed_codec start_config (quiet_input [accept_event 5]) (server_start 1) = Ret (Next accepted_server)"
  by (simp add: server_turn_defs SERVER_TOKEN_def accept_stream_def count_next_def fresh_stream insert_reading_def
      hm_get_def hm_insert_def hm_delete_def accepted_server_def first_token_def count_start_def NEW_STREAM_COUNT_INC_def
      start_config_def default_config_def)

definition asked_stream :: unix_stream where
  "asked_stream = us_msg_send_tcp_stream first_token 5 (unix_stream_new (Token 1))"

lemma readable_run:
  "server_turn fixed_codec start_config (quiet_input [readable_event]) accepted_server =
     Ret (Next (sent_server asked_stream))"
proof -
  have "msg_send_tcp_stream first_token 5 [unix_stream_new (Token 1)] = Ret [asked_stream]"
    by (simp add: msg_send_tcp_stream_def least_loaded_def asked_stream_def)
  then show ?thesis
    by (simp add: server_turn_defs SERVER_TOKEN_def accepted_server_def readable_event_def first_token_def fresh_stream
        hm_get_def start_processing_def insert_processing_def hm_delete_def hm_insert_def sent_server_def)
qed

lemma frame_length: "length first_frame = 13"
  by (simp add: first_frame_def request_frame_def frame_def u8_prefix_def enc_request_def)

lemma asked_stream_simps:
  "us_drain_tks (asked_stream\<lparr>us_interest := j\<rparr>) [] = (asked_stream\<lparr>us_interest := j\<rparr>, [])"
  "us_drain_close_tks (asked_stream\<lparr>us_interest := j\<rparr>) [] = (asked_stream\<lparr>us_interest := j\<rparr>, [])"
  "us_reregister (\<lambda>_. None) asked_stream = (asked_stream\<lparr>us_interest := IReadWrite\<rparr>, Ok ())"
  by (simp_all add: us_drain_tks_eq us_drain_close_tks_eq unix_stream_new_def server_buf_new_def first_token_def
      us_reregister_def us_poll_read_def us_poll_write_def from_rw_def asked_stream_def us_msg_send_tcp_stream_def req_tcp_stream_fd_def
      sb_has_data_to_send_def bind_eq_None_conv split: option.split)

lemma asked_token: "us_token asked_stream = Token 1"
  by (simp add: asked_stream_def us_msg_send_tcp_stream_def unix_stream_new_def)

lemma socket_run:
  "\<exists>u. server_turn fixed_codec start_config (quiet_input [socket_event]) (sent_server asked_stream) =
       Ret (Next (sent_server u)) \<and> us_token u = Token 1 \<and> us_sent u = first_frame"
proof -
  let ?u = "asked_stream\<lparr>us_interest := IReadWrite\<rparr>"
  let ?b = "us_buffer ?u"
  let ?b' = "?b\<lparr>to_send := [], sb_write_buffer := []\<rparr>"
  let ?v = "?u\<lparr>us_buffer := ?b', us_sent := first_frame, us_fds := [5]\<rparr>"
  have "sb_write_stream fixed_codec 1 (Ok 13) ?b = Ret (?b', [5], first_frame, Ok ())"
    using frame_length
    by (simp add: sb_write_stream_def asked_stream_def us_msg_send_tcp_stream_def unix_stream_new_def server_buf_new_def
        req_tcp_stream_fd_def first_token_def first_frame_def request_frame_def frame_def example_request_def)
  then have w: "us_write_stream fixed_codec 1 (Ok 13) ?u = Ret (?v, Ok ())"
    by (simp add: us_write_stream_def asked_stream_def us_msg_send_tcp_stream_def unix_stream_new_def)
  have "server_turn fixed_codec start_config (quiet_input [socket_event]) (sent_server asked_stream) =
      Ret (Next (sent_server ?v))"
    using w by (simp add: server_turn_defs SERVER_TOKEN_def accepted_server_def socket_event_def asked_stream_simps asked_token
        hm_get_def sent_server_def unix_event_def push_result_def)
  then show ?thesis by (intro exI [of _ ?v]) (simp add: asked_token)
qed

lemma quiet_ok:
  assumes "queued_tks (sv_unix s) = []" and "\<not> se_readable ev \<or> us_find (se_token ev) (sv_unix s) = None"
    and "unat (sv_count s) < 2 ^ 63"
  shows "server_turn_ok (quiet_input [ev]) s ws"
  using assms by (auto simp: server_turn_ok_def keeps_ok_def events_fit_def event_fits_def quiet_input_def)

lemma first_stream:
  obtains u w where
    "run (system_step fixed_codec start_config) (system_start [new_recv workq_new])
       [ServerTurn (quiet_input [accept_event 5]), ServerTurn (quiet_input [readable_event]),
        ServerTurn (quiet_input [socket_event]), WorkerTurn 0 no_threads arrival_turn]
       \<lparr>sys_server = sent_server u, sys_workers = [w]\<rparr>"
    "stream_msgs (wk_buf w) = [example_request]"
    "world_ok start_config (WorkerTurn 0 no_threads idle_turn) \<lparr>sys_server = sent_server u, sys_workers = [w]\<rparr>"
    "us_sent u = first_frame" "stream_fds (wk_buf w) = [9]" "wk_fds w = [9]"
proof -
  obtain u where u: "server_turn fixed_codec start_config (quiet_input [socket_event]) (sent_server asked_stream) =
       Ret (Next (sent_server u))" "us_token u = Token 1" "us_sent u = first_frame" using socket_run by blast
  let ?w0 = start_worker
  let ?sy = "\<lambda>s w. \<lparr>sys_server = s, sys_workers = [w]\<rparr>"
  have start: "system_start [new_recv workq_new] = ?sy (server_start 1) ?w0"
    by (simp add: system_start_def start_worker_def)
  have q: "queued_tks [unix_stream_new tk] = []" "queued_tks [asked_stream] = []" for tk
    by (simp_all add: queued_tks_def unix_stream_new_def server_buf_new_def asked_stream_def us_msg_send_tcp_stream_def
        req_tcp_stream_fd_def first_token_def)
  have ok1: "server_turn_ok (quiet_input [accept_event 5]) (server_start 1) [?w0]"
    by (rule quiet_ok) (simp_all add: server_start_def server_new_def queued_tks_def server_buf_new_def accept_event_def unix_stream_new_def
        count_start_def NEW_STREAM_COUNT_INC_def)
  have ok2: "server_turn_ok (quiet_input [readable_event]) accepted_server [?w0]"
    by (rule quiet_ok) (simp_all add: accepted_server_def server_start_def server_new_def queued_tks_def
        server_buf_new_def readable_event_def accept_event_def unix_stream_new_def first_token_def
        count_start_def NEW_STREAM_COUNT_INC_def)
  have ok3: "server_turn_ok (quiet_input [socket_event]) (sent_server asked_stream) [?w0]"
    by (rule quiet_ok) (simp_all add: sent_server_def accepted_server_def q socket_event_def accept_event_def
        count_start_def NEW_STREAM_COUNT_INC_def)
  obtain b w where w: "worker_turn fixed_codec start_config arrival_turn start_worker = Ret (Next w)"
    "wk_buf w = b" "stream_msgs b = [example_request]"
    "turn_ok fixed_codec start_config arrival_turn start_worker" "wb_write_buffer b = []"
    "wk_log w = [UnixGot (frame u8_prefix (enc_request example_request)) [9]]" "wk_reading w = []"
    "wk_threads w = python_threads_new (new_recv workq_new)" "stream_fds b = [9]" by (rule arrival)
  have out: "outside_ok start_config no_threads arrival_turn ?w0" using w(4)
    by (simp add: turn_ok_def outside_ok_def) (simp add: start_worker_def worker_start_def arrival_turn_def idle_turn_def)
  have "bytes_ok fixed_codec arrival_turn (wk_buf ?w0)" using w(4) by (simp add: turn_ok_def)
  then have sock: "socket_fits arrival_turn u ?w0"
    using u(3) by (simp add: socket_fits_def bytes_ok_def arrival_turn_def read_bytes_def first_frame_def request_frame_def
        start_worker_def worker_start_def wk_got_def)
  have fits: "output_fits ?w0 w"
    using w(2,5,6) by (simp add: output_fits_def wk_sent_def start_worker_def worker_start_def)
  note step = system_step.intros [OF fixed_codec_ok]
  have "system_step fixed_codec start_config (ServerTurn (quiet_input [accept_event 5])) (?sy (server_start 1) ?w0)
      (?sy accepted_server ?w0)" using ok1 accept_run by (intro step) simp_all
  moreover have "system_step fixed_codec start_config (ServerTurn (quiet_input [readable_event])) (?sy accepted_server ?w0)
      (?sy (sent_server asked_stream) ?w0)" using ok2 readable_run by (intro step) simp_all
  moreover have "system_step fixed_codec start_config (ServerTurn (quiet_input [socket_event]))
      (?sy (sent_server asked_stream) ?w0) (?sy (sent_server u) ?w0)" using ok3 u(1) by (intro step) simp_all
  moreover have "system_step fixed_codec start_config (WorkerTurn 0 no_threads arrival_turn) (?sy (sent_server u) ?w0) (?sy (sent_server u) w)"
    using w(1) out sock fits by (intro step) (simp_all add: sent_server_def)
  ultimately have "run (system_step fixed_codec start_config) (system_start [new_recv workq_new])
       [ServerTurn (quiet_input [accept_event 5]), ServerTurn (quiet_input [readable_event]),
        ServerTurn (quiet_input [socket_event]), WorkerTurn 0 no_threads arrival_turn] (?sy (sent_server u) w)"
    unfolding start by (blast intro: run.intros)
  moreover have "outside_ok start_config no_threads idle_turn w"
    using idle_turn_ok w(7,8) by (simp add: outside_ok_def) (simp add: idle_turn_def)
  then have "world_ok start_config (WorkerTurn 0 no_threads idle_turn) (?sy (sent_server u) w)"
    using u(3) w(6) by (simp add: sent_server_def socket_fits_def read_bytes_def wk_got_def first_frame_def request_frame_def)
      (simp add: idle_turn_def)
  moreover have "wk_fds w = [9]" using w(6) by (simp add: wk_fds_def)
  ultimately show ?thesis using that w(2,3,9) u(3) by blast
qed

text \<open>The stream is the one thing outstanding, in the worker's buffer.\<close>

lemma first_outstanding:
  assumes "run (system_step fixed_codec start_config) (system_start [new_recv workq_new]) is
      \<lparr>sys_server = sent_server u, sys_workers = [w]\<rparr>"
  shows "outstanding fixed_codec u w = {#first_token#}"
  using system_run_inv [OF _ _ assms] by (simp add: sys_inv_def total_def sent_server_def hm_keys_def)

section \<open>Properties\<close>



text \<open>C2: every stream the server counts as in processing is in exactly one place: in the queue
  to one worker, in bytes on that worker's socket, in its buffer, in its table of descriptors,
  in bytes on the way back, or in the server's queue of answered streams; and no other stream is
  in any of them. None is lost and none is handed to two workers.\<close>

theorem streams_in_one_place:
  assumes "list_all sender_inv sqs" and "sqs \<noteq> []" and "run (system_step cd cfg) (system_start sqs) is sy"
  shows "mset_set (hm_keys (sv_processing (sys_server sy))) =
     (\<Sum>k<length (sys_workers sy). outstanding cd (sv_unix (sys_server sy) ! k) (sys_workers sy ! k))"
  using system_run_inv [OF assms] by (simp add: sys_inv_def total_def)

theorem streams_in_one_place_witness:
  "\<exists>(u :: unix_stream) (w :: worker). stream_msgs (wk_buf w) = [example_request] \<and> outstanding fixed_codec u w = {#first_token#}"
proof -
  obtain u w where r: "run (system_step fixed_codec start_config) (system_start [new_recv workq_new])
       [ServerTurn (quiet_input [accept_event 5]), ServerTurn (quiet_input [readable_event]),
        ServerTurn (quiet_input [socket_event]), WorkerTurn 0 no_threads arrival_turn]
       \<lparr>sys_server = sent_server u, sys_workers = [w]\<rparr>"
    and m: "stream_msgs (wk_buf w) = [example_request]" by (rule first_stream)
  from streams_in_one_place [OF _ _ r] m show ?thesis by (auto simp: sent_server_def hm_keys_def)
qed

text \<open>C3: the load by which the server balances is exact: between turns the count of a worker's
  requests is the number of streams that are with it or on the way to it or back.\<close>

theorem load_counts_exact:
  assumes "list_all sender_inv sqs" and "sqs \<noteq> []" and "run (system_step cd cfg) (system_start sqs) is sy"
    and "k < length (sys_workers sy)" and "max_conns cfg < 2 ^ 64"
  shows "unat (num_reqs (sv_unix (sys_server sy) ! k)) =
     size (outstanding cd (sv_unix (sys_server sy) ! k) (sys_workers sy ! k))"
proof -
  let ?s = "sys_server sy" and ?o = "outstanding cd (sv_unix (sys_server sy) ! k) (sys_workers sy ! k)"
  have inv: "sys_inv cd cfg ?s (sys_workers sy)" by (rule system_run_inv [OF assms(1-3)])
  have "size ?o \<le> card (hm_keys (sv_processing ?s))"
    using size_mset_mono [OF outstanding_ledger [OF inv assms(4)]] by simp
  also have "\<dots> \<le> length (sv_processing ?s)" 
    using card_length [of "map fst (sv_processing ?s)"] by (simp add: hm_keys_def)
  also have "\<dots> < 2 ^ 64" using inv assms(5) by (simp add: sys_inv_def server_inv_def)
  finally have "size ?o < 2 ^ 64" .
  moreover have "num_reqs (sv_unix ?s ! k) = of_nat (size ?o)" by (rule sys_link(4) [OF inv assms(4)])
  ultimately show ?thesis by (simp add: unat_of_nat)
qed

theorem load_counts_exact_witness:
  "\<exists>(u :: unix_stream) (w :: worker). stream_msgs (wk_buf w) = [example_request] \<and> unat (num_reqs u) = 1"
proof -
  obtain u w where r: "run (system_step fixed_codec start_config) (system_start [new_recv workq_new])
       [ServerTurn (quiet_input [accept_event 5]), ServerTurn (quiet_input [readable_event]),
        ServerTurn (quiet_input [socket_event]), WorkerTurn 0 no_threads arrival_turn]
       \<lparr>sys_server = sent_server u, sys_workers = [w]\<rparr>"
    and m: "stream_msgs (wk_buf w) = [example_request]" by (rule first_stream)
  have "max_conns start_config < 2 ^ 64" by (simp add: start_config_def default_config_def)
  from load_counts_exact [OF _ _ r, of 0] this first_outstanding [OF r] have "unat (num_reqs u) = 1"
    by (simp add: sent_server_def)
  with m show ?thesis by blast
qed

text \<open>C4: an answer that comes after its request has timed out cannot reach a later request:
  no thread of any worker was ever asked about the token of a stream that is idle or on its way to
  a worker, although the connection may be one for which a late answer is still to come.\<close>

theorem late_answers_harmless:
  assumes "list_all sender_inv sqs" and "sqs \<noteq> []" and "run (system_step cd cfg) (system_start sqs) is sy"
  shows "\<forall>tk \<in> hm_keys (sv_reading (sys_server sy)) \<union>
       (\<Union>k<length (sys_workers sy). set (going cd (sv_unix (sys_server sy) ! k) (sys_workers sy ! k))).
     \<forall>w \<in> set (sys_workers sy). tk \<notin> asked (wk_threads w)"
proof -
  have inv: "sys_inv cd cfg (sys_server sy) (sys_workers sy)" by (rule system_run_inv [OF assms(1-3)])
  have "hm_keys (sv_reading (sys_server sy)) \<inter> asked_any (sys_workers sy) = {}"
    using inv by (intro toks_ok_idle) (auto simp: sys_inv_def)
  then show ?thesis using sys_link(3) [OF inv] by (fastforce simp: asked_any_def)
qed

theorem late_answers_harmless_witness:
  "\<exists>(u :: unix_stream) (w :: worker). stream_msgs (wk_buf w) = [example_request] \<and> first_token \<in> set (going fixed_codec u w) \<and>
     first_token \<notin> asked (wk_threads w)"
proof -
  obtain u w where r: "run (system_step fixed_codec start_config) (system_start [new_recv workq_new])
       [ServerTurn (quiet_input [accept_event 5]), ServerTurn (quiet_input [readable_event]),
        ServerTurn (quiet_input [socket_event]), WorkerTurn 0 no_threads arrival_turn]
       \<lparr>sys_server = sent_server u, sys_workers = [w]\<rparr>"
    and m: "stream_msgs (wk_buf w) = [example_request]" by (rule first_stream)
  have "first_token \<in> set (going fixed_codec u w)"
    using m by (simp add: going_def request_token_def example_request_def first_token_def)
  with late_answers_harmless [OF _ _ r] m show ?thesis by (auto simp: sent_server_def lessThan_Suc)
qed

text \<open>C9: in any run the data of every process is well formed: the hash maps have one entry for a
  key, the message buffers hold a cut of whole frames within their bounds, a reader's counts
  match its buffer, the timers are in order of time, and the accounts of requests add up.\<close>

theorem processes_well_formed:
  assumes "list_all sender_inv sqs" and "sqs \<noteq> []" and "run (system_step cd cfg) (system_start sqs) is sy"
  shows "hm_wf (sv_reading (sys_server sy)) \<and> hm_wf (sv_processing (sys_server sy)) \<and>
     length (sv_unix (sys_server sy)) = length (sys_workers sy) \<and>
     (\<forall>u \<in> set (sv_unix (sys_server sy)). sb_inv (us_buffer u)) \<and>
     (\<forall>w \<in> set (sys_workers sy). hm_wf (wk_reading w) \<and> hm_wf (wk_pending w) \<and> hm_wf (wk_writing w) \<and>
        hm_wf (wk_casket w) \<and> wb_inv (wk_buf w) \<and> readers_ok w \<and> timers_ok (wk_poll w) \<and> threads_inv (wk_threads w))"
proof -
  have inv: "sys_inv cd cfg (sys_server sy) (sys_workers sy)" by (rule system_run_inv [OF assms])
  have len: "length (sv_unix (sys_server sy)) = length (sys_workers sy)" using inv by (simp add: sys_inv_def links_ok_def)
  have "sb_inv (us_buffer (sv_unix (sys_server sy) ! k))" if "k < length (sys_workers sy)" for k
    using sys_link(2) [OF inv that] by (simp add: link_ok_def)
  then have "\<forall>u \<in> set (sv_unix (sys_server sy)). sb_inv (us_buffer u)" by (metis in_set_conv_nth len)
  moreover have "mid cfg [] [] [] w" if "w \<in> set (sys_workers sy)" for w
    using inv that by (simp add: sys_inv_def worker_inv_def)
  then have "\<forall>w \<in> set (sys_workers sy). hm_wf (wk_reading w) \<and> hm_wf (wk_pending w) \<and> hm_wf (wk_writing w) \<and>
        hm_wf (wk_casket w) \<and> wb_inv (wk_buf w) \<and> readers_ok w \<and> timers_ok (wk_poll w) \<and> threads_inv (wk_threads w)"
    using ledger_wf by (fastforce simp: mid_def healthy_def)
  ultimately show ?thesis using inv len by (simp add: sys_inv_def server_inv_def)
qed

theorem processes_well_formed_witness:
  "\<exists>(u :: unix_stream) (w :: worker). stream_msgs (wk_buf w) = [example_request] \<and> sb_inv (us_buffer u) \<and>
     wb_inv (wk_buf w) \<and> threads_inv (wk_threads w)"
proof -
  obtain u w where r: "run (system_step fixed_codec start_config) (system_start [new_recv workq_new])
       [ServerTurn (quiet_input [accept_event 5]), ServerTurn (quiet_input [readable_event]),
        ServerTurn (quiet_input [socket_event]), WorkerTurn 0 no_threads arrival_turn]
       \<lparr>sys_server = sent_server u, sys_workers = [w]\<rparr>"
    and m: "stream_msgs (wk_buf w) = [example_request]" by (rule first_stream)
  from processes_well_formed [OF _ _ r] m show ?thesis by (auto simp: sent_server_def)
qed

end
