(* ===== verification/SystemLife.thy ===== *)
theory SystemLife
  imports System WorkerLife
begin

text \<open>
  The connections of a worker in the whole program: every worker of a run of the system makes a
  run of its own, so what \<open>WorkerLife\<close> shows of one holds there, from start-up on and without the
  assumptions about the server. No code is modelled here.
\<close>

section \<open>A worker's own run\<close>

fun worker_inputs :: "nat \<Rightarrow> 's sys_input list \<Rightarrow> worker_input list" where
  "worker_inputs k [] = []"
| "worker_inputs k (ServerTurn i # is) = worker_inputs k is"
| "worker_inputs k (WorkerTurn j ths i # is) = (if j = k then i # worker_inputs k is else worker_inputs k is)"

lemma system_step_worker:
  assumes "system_step cd cfg inp sy sy'" and inv: "system_inv cd cfg sy" and k: "k < length (sys_workers sy)"
  shows "length (sys_workers sy') = length (sys_workers sy)"
    and "run (worker_step cd cfg) (sys_workers sy ! k) (worker_inputs k [inp]) (sys_workers sy' ! k)"
proof -
  from assms(1) have cd: "codec_ok cd" and ok: "world_ok cfg inp sy"
    and t: "system_turn cd cfg inp sy = Ret (Next sy')" by (auto elim: system_stepE)
  have "length (sys_workers sy') = length (sys_workers sy) \<and>
      run (worker_step cd cfg) (sys_workers sy ! k) (worker_inputs k [inp]) (sys_workers sy' ! k)"
  proof (cases inp)
    case (ServerTurn i)
    with t show ?thesis by (auto simp: map_turn_Next)
  next
    case (WorkerTurn j ths i)
    with t obtain w' where w': "worker_turn cd cfg i (sys_workers sy ! j) = Ret (Next w')"
      "sy' = sy\<lparr>sys_workers := (sys_workers sy)[j := w']\<rparr>" by (auto simp: map_turn_Next)
    have "turn_ok cd cfg i (sys_workers sy ! j)"
      using WorkerTurn ok inv sys_turn_ok [OF cd, of cfg "sys_server sy" "sys_workers sy" j ths i]
      by (simp add: system_inv_def)
    with w' cd WorkerTurn k show ?thesis by (cases "j = k") (simp_all add: worker_step_def)
  qed
  then show "length (sys_workers sy') = length (sys_workers sy)"
    and "run (worker_step cd cfg) (sys_workers sy ! k) (worker_inputs k [inp]) (sys_workers sy' ! k)" by blast+
qed

lemma worker_inputs_Cons: "worker_inputs k (i # is) = worker_inputs k [i] @ worker_inputs k is"
  by (cases i) simp_all

lemma system_run_worker:
  assumes "run (system_step cd cfg) sy is sy'" and "system_inv cd cfg sy" and "k < length (sys_workers sy)"
  shows "run (worker_step cd cfg) (sys_workers sy ! k) (worker_inputs k is) (sys_workers sy' ! k)"
  using assms
proof (induction rule: run.induct)
  case (run_cons i sy u "is" sy')
  have "run (worker_step cd cfg) (sys_workers u ! k) (worker_inputs k is) (sys_workers sy' ! k)"
    using run_cons.IH system_step_inv [OF run_cons.hyps(1)] system_step_worker(1) [OF run_cons.hyps(1)] run_cons.prems
    by simp
  with system_step_worker(2) [OF run_cons.hyps(1) run_cons.prems] show ?case
    by (subst worker_inputs_Cons) (auto simp: run_append)
qed simp

lemma system_workers:
  assumes "list_all sender_inv sqs" and "sqs \<noteq> []" and "run (system_step cd cfg) (system_start sqs) is sy" and "k < length sqs"
  shows "run (worker_step cd cfg) (worker_start (sqs ! k)) (worker_inputs k is) (sys_workers sy ! k)"
  using system_run_worker [OF assms(3) system_start_inv [OF assms(1,2)], of k] assms(4) by (simp add: system_start_def)

section \<open>Properties\<close>

text \<open>C7: a worker with any number of connections refines the life of one connection, for each of
  them. In any run of the program from start-up, wherever a connection is in a worker (its table,
  with its reader, request, writer or canned response), it has come there by the steps of \<open>life\<close>
  alone, from the moment it was taken out of the Unix stream, on the same descriptor. So what one
  connection goes through does not depend on what others send, except by way of the threads.\<close>

theorem connections_live_apart:
  assumes "list_all sender_inv sqs" and "sqs \<noteq> []" and "run (system_step cd cfg) (system_start sqs) is sy"
    and "k < length sqs" and "w = sys_workers sy ! k" and "held w tk c"
  shows "\<exists>js i ks v fd. worker_inputs k is = js @ i # ks \<and> run (worker_step cd cfg) (worker_start (sqs ! k)) js v \<and>
     (tk, fd) \<in> set (snd (drain_streams (wk_buf v))) \<and> conn_fd c = fd \<and>
     lives (requests (wk_threads w)) (taken (wk_threads w)) tk (Arrived fd) c"
proof (rule worker_lives_apart)
  show "sender_inv (sqs ! k)" using assms(1,4) by (simp add: list_all_length)
  show "run (worker_step cd cfg) (worker_start (sqs ! k)) (worker_inputs k is) w"
    using system_workers [OF assms(1-4)] assms(5) by simp
qed (rule assms(6))


section \<open>An example run\<close>

text \<open>
  On from \<open>first_stream\<close>: the connection is registered, its request arrives in one read and is
  queued, goes to a thread, and the answer of the thread comes back.
\<close>

definition up_request :: http_request where
  "up_request = into_request ((up_partial 3 ''3'')\<lparr>pr_body := ''abc'', pr_bytes_read := 3\<rparr>)"

lemma up_read: "read_tcp_stream up_lib (Ok (up_header @ ''abc'')) reader_new = Ret (Ok (ReadComplete up_request))"
proof -
  let ?b = "up_header @ ''abc''"
  have "rd_fits up_lib [?b] (ReadPartial reader_new)"
    by (simp add: up_header_def crlf_def reader_new_def read_space_def grow_header_def split: exec.split result.split)
  from request_reassembled_eq [OF up_example(1-4) _ this]
  have "rd_feed up_lib [?b] (ReadPartial reader_new) = Ret (Ok (ReadComplete up_request))"
    by (simp add: up_request_def numeral_3_eq_3)
  then show ?thesis by (cases "read_tcp_stream up_lib (Ok ?b) reader_new") (auto split: result.splits)
qed

definition whole_turn :: worker_input where
  "whole_turn = readable_turn\<lparr>wi_read := (\<lambda>_. Ok (up_header @ ''abc''))\<rparr>"

definition answer_turn :: "http_response \<Rightarrow> worker_input" where
  "answer_turn resp = idle_turn\<lparr>wi_resps := [(0x1000000, resp)]\<rparr>"

definition up_thread :: "iter_step list thread_run" where
  "up_thread = \<lparr>tr_lib = example_lib, tr_cfg = example_config, tr_server = (''host'', 8080), tr_rounds = 3,
     tr_calls = [(example_call 0x1000000 (list_app [IterItem (PyBytes ''ab'')]))\<lparr>pc_req := up_request\<rparr>]\<rparr>"

lemma up_answer: "\<exists>resp. sent_back up_thread = [(0x1000000, resp)]"
proof -
  obtain env req inp where b: "build_environ (''host'', 8080) up_request = (env, req, inp)" by (rule prod_cases3)
  show ?thesis
    by (simp add: sent_back_def up_thread_def serve_request_def fresh_thread_def send_msgs_def Let_def
        example_call_def execute_def execute_inner_def b list_app_def start_response_def parse_status_def example_lib_def
        put_response_header_def take_response_header_def bytes_iter_new_def next_body_chunk_def response_of_def send_body_def
        numeral_eq_Suc bytes_iter_next_def)
qed

text \<open>The worker is registered and idle but for the connection \<open>9\<close>, for which it has a timer.\<close>

definition at_rest :: "worker \<Rightarrow> bool" where
  "at_rest w \<longleftrightarrow>
     wk_closing w = False \<and> wk_results w = [] \<and> wk_casket w = [] \<and> wk_timeouts w = [] \<and>
     stream_fds (wk_buf w) = [] \<and> wb_unread (wk_buf w) = [] \<and> wb_write_buffer (wk_buf w) = [] \<and>
     timerq (wk_poll w) =
       [\<lparr>te_token = Token 0x1000000, te_timeout = from_secs 30, te_event = RequestReadTimeout\<rparr>] \<and>
     wk_log w = [UnixGot (frame u8_prefix (enc_request example_request)) [9]]"

lemma hm_get_single: "hm_get [] tk = None" "hm_get [(tk, x)] tk = Some x" "hm_delete tk [(tk, x)] = []" "hm_delete tk [] = []"
  by (simp_all add: hm_get_def hm_delete_def)

lemma not_due: "0 < from_secs 30"
  by (simp add: from_secs_def)

lemma whole_run:
  assumes "at_rest w" and "wk_reading w = [(Token 0x1000000, (9, reader_new))]" and "wk_pending w = []" and "wk_writing w = []"
    and "wk_threads w = python_threads_new (new_recv workq_new)"
    and "hm_get (events_reg_read (wk_poll w)) (Token 0x1000000) = Some ServerStreamRead"
  obtains w' where "worker_turn fixed_codec start_config whole_turn w = Ret (Next w')" "at_rest w'"
    "wk_reading w' = []" "wk_writing w' = []" "wk_pending w' = [(Token 0x1000000, 9)]"
    "wk_threads w' = queue_http_req (Token 0x1000000) up_request (python_threads_new (new_recv workq_new))"
  using assms
  by (simp add: quiet_turn_defs at_rest_def whole_turn_def readable_turn_def idle_turn_def drain_none not_due
      python_threads_new_def UNIX_STREAM_TOKEN_def hm_get_single hm_insert_def with_poll_def put_pending_def
      displaced_def turn_bind.simps push_action_def event_server_stream_read_def up_read deregister_def queue_http_req_def)

text \<open>The request goes to the one thread, in a turn without any event from outside.\<close>

lemma one_thread_send: "\<exists>sq. workq_send (new_recv workq_new) t = Ret (sq, Ok ()) \<and> sender_inv sq"
  using workq_send_ring [OF start_sender, of t]
  by (auto simp: ring_send_def serve_first_def ring_def ring_at_def new_recv_def workq_new_def chan_new_def
      split: option.splits)

lemma send_run:
  assumes "at_rest w" and "wk_reading w = []" and "wk_pending w = [(Token 0x1000000, 9)]" and "wk_writing w = []"
    and "wk_threads w = queue_http_req (Token 0x1000000) up_request (python_threads_new (new_recv workq_new))"
  obtains w' sq where "worker_turn fixed_codec start_config idle_turn w = Ret (Next w')" "at_rest w'"
    "wk_reading w' = []" "wk_writing w' = []" "wk_pending w' = [(Token 0x1000000, 9)]"
    "wk_threads w' = (python_threads_new sq)\<lparr>num_pending_reqs := 1, pt_inflight := [Token 0x1000000],
       pt_sent := [(0x1000000, up_request)]\<rparr>" "sender_inv sq"
proof -
  obtain sq where "workq_send (new_recv workq_new) (0x1000000 :: usize, up_request) = Ret (sq, Ok ())" "sender_inv sq"
    using one_thread_send [of "(0x1000000 :: usize, up_request)"] by (elim exE conjE) (rule that)
  with assms have "\<exists>w'. worker_turn fixed_codec start_config idle_turn w = Ret (Next w') \<and> at_rest w' \<and>
      wk_reading w' = [] \<and> wk_writing w' = [] \<and> wk_pending w' = [(Token 0x1000000, 9)] \<and>
      wk_threads w' = (python_threads_new sq)\<lparr>num_pending_reqs := 1, pt_inflight := [Token 0x1000000],
        pt_sent := [(0x1000000, up_request)]\<rparr>"
    by (simp add: quiet_turn_defs at_rest_def idle_turn_def drain_none not_due python_threads_new_def UNIX_STREAM_TOKEN_def
        turn_bind.simps queue_http_req_def send_queued_requests_def)
  with that \<open>sender_inv sq\<close> show ?thesis by blast
qed

lemma answer_run:
  assumes "at_rest w" and "wk_reading w = []" and "wk_pending w = [(Token 0x1000000, 9)]" and "wk_writing w = []"
    and "wk_threads w = (python_threads_new sq)\<lparr>num_pending_reqs := 1, pt_inflight := [Token 0x1000000],
       pt_sent := [(0x1000000, up_request)]\<rparr>"
  obtains w' where "worker_turn fixed_codec start_config (answer_turn resp) w = Ret (Next w')" "at_rest w'"
    "wk_writing w' = [(Token 0x1000000, (9, writer_new resp))]"
    "pt_sent (wk_threads w') = [(0x1000000, up_request)]" "pt_taken (wk_threads w') = [(0x1000000, resp)]"
  using assms
  by (simp add: quiet_turn_defs at_rest_def answer_turn_def idle_turn_def drain_none not_due python_threads_new_def
      UNIX_STREAM_TOKEN_def turn_bind.simps hm_get_single hm_insert_def with_poll_def register_write_def put_writing_def
      displaced_def)

text \<open>What comes from outside in these turns.\<close>

lemma rest_turn_ok:
  assumes "at_rest w" and "wk_reading w = []" and "i \<in> {idle_turn, answer_turn resp}" and "PythonThreads.answers_ok (wi_resps i) (wk_threads w)"
  shows "turn_ok fixed_codec start_config i w"
proof -
  have "regs_ok i" "times_ok start_config i" "reads_ok i w" "mio_ok i w"
    using idle_turn_ok(1,2) assms(2,3)
    by (auto simp: regs_ok_def times_ok_def reads_ok_def mio_ok_def answer_turn_def idle_turn_def)
  moreover have "fresh_streams w" using assms(1) by (simp add: fresh_streams_def at_rest_def drain_none)
  moreover have "bytes_ok fixed_codec i (wk_buf w)"
    using assms(1,3) by (auto simp: bytes_ok_def answer_turn_def idle_turn_def at_rest_def split8_short simp del: One_nat_def)
  ultimately show ?thesis using assms(4) by (simp add: turn_ok_def)
qed

lemma whole_turn_ok:
  assumes "turn_ok fixed_codec start_config readable_turn w" and "wk_reading w = [(Token 0x1000000, (9, reader_new))]"
  shows "turn_ok fixed_codec start_config whole_turn w"
proof -
  have "parse_request up_lib (up_header @ ''abc'') = ParseComplete (length up_header) (up_raw ''3'')"
    by (simp add: up_lib_def exact_lib_def)
  then have "reads_ok whole_turn w"
    using assms(2) up_example(2) by (auto simp: reads_ok_def whole_turn_def readable_turn_def idle_turn_def read_fits_def reader_new_def
        read_space_def grow_header_def huge_request_def up_partial_def isize_max_def up_header_def crlf_def)
  with assms(1) show ?thesis
    by (simp add: turn_ok_def whole_turn_def regs_ok_def times_ok_def mio_ok_def bytes_ok_def)
qed

text \<open>In the system: a worker at rest that nothing is read from or written to the server.\<close>

lemma rest_step:
  assumes "worker_step fixed_codec start_config i w w'" and "at_rest w" and "at_rest w'"
    and "wi_unix_read i = Ok []" and "us_sent u = first_frame" and "threads_give ths (wi_resps i) (wk_threads w)"
  shows "system_step fixed_codec start_config (WorkerTurn 0 ths i)
     \<lparr>sys_server = sent_server u, sys_workers = [w]\<rparr> \<lparr>sys_server = sent_server u, sys_workers = [w']\<rparr>"
proof -
  have t: "turn_ok fixed_codec start_config i w" "worker_turn fixed_codec start_config i w = Ret (Next w')"
    using assms(1) by (simp_all add: worker_step_def)
  have "outside_ok start_config ths i w" using t(1) assms(6) by (simp add: turn_ok_def outside_ok_def)
  moreover have "socket_fits i u w"
    using assms(2,4,5) by (simp add: socket_fits_def read_bytes_def wk_got_def at_rest_def first_frame_def request_frame_def)
  moreover have "output_fits w w'" using assms(2,3) by (simp add: output_fits_def wk_sent_def at_rest_def)
  ultimately show ?thesis using t(2) by (intro system_step.intros [OF fixed_codec_ok]) (simp_all add: sent_server_def)
qed

definition registered_turns :: "iter_step list sys_input list" where
  "registered_turns = [ServerTurn (quiet_input [accept_event 5]), ServerTurn (quiet_input [readable_event]),
     ServerTurn (quiet_input [socket_event]), WorkerTurn 0 no_threads arrival_turn, WorkerTurn 0 no_threads idle_turn]"

lemma registered_stream:
  obtains u w where
    "run (system_step fixed_codec start_config) (system_start [new_recv workq_new]) registered_turns
       \<lparr>sys_server = sent_server u, sys_workers = [w]\<rparr>"
    "us_sent u = first_frame" "at_rest w" "wk_reading w = [(Token 0x1000000, (9, reader_new))]" "wk_pending w = []"
    "wk_writing w = []" "wk_threads w = python_threads_new (new_recv workq_new)"
    "hm_get (events_reg_read (wk_poll w)) (Token 0x1000000) = Some ServerStreamRead"
    "turn_ok fixed_codec start_config readable_turn w"
proof -
  let ?start = "system_start [new_recv workq_new]" and ?turns = "[ServerTurn (quiet_input [accept_event 5]),
      ServerTurn (quiet_input [readable_event]), ServerTurn (quiet_input [socket_event]), WorkerTurn 0 no_threads arrival_turn]"
  obtain u w1 where r: "run (system_step fixed_codec start_config) ?start ?turns \<lparr>sys_server = sent_server u, sys_workers = [w1]\<rparr>"
    and ok: "world_ok start_config (WorkerTurn 0 no_threads idle_turn) \<lparr>sys_server = sent_server u, sys_workers = [w1]\<rparr>"
    and u: "us_sent u = first_frame" by (rule first_stream)
  obtain v1 w2 where v: "run (worker_step fixed_codec start_config) start_worker [arrival_turn, idle_turn] w2"
    and w2: "wk_reading w2 = [(Token 0x1000000, (9, reader_new))]" "turn_ok fixed_codec start_config readable_turn w2"
      "wk_threads w2 = python_threads_new (new_recv workq_new)" "wk_closing w2 = False" "wk_results w2 = []"
      "wk_pending w2 = []" "wk_writing w2 = []" "wk_casket w2 = []" "wk_timeouts w2 = []"
      "stream_fds (wk_buf w2) = []" "wb_unread (wk_buf w2) = []" "wb_write_buffer (wk_buf w2) = []"
      "timerq (wk_poll w2) = [\<lparr>te_token = Token 0x1000000, te_timeout = from_secs 30, te_event = RequestReadTimeout\<rparr>]"
      "wk_log w2 = [UnixGot (frame u8_prefix (enc_request example_request)) [9]]"
    by (rule registration)
  have "run (worker_step fixed_codec start_config) start_worker [arrival_turn] w1"
    using system_workers [OF _ _ r, of 0] by (simp add: start_worker_def)
  with v have s: "worker_step fixed_codec start_config idle_turn w1 w2" by (auto simp: worker_step_def)
  have rest: "at_rest w2" using w2 by (simp add: at_rest_def)
  obtain b v where a: "worker_turn fixed_codec start_config arrival_turn start_worker = Ret (Next v)"
    "wk_log v = [UnixGot (frame u8_prefix (enc_request example_request)) [9]]" by (rule arrival)
  have "w1 = v" using \<open>run _ start_worker [arrival_turn] w1\<close> a(1) by (simp add: worker_step_def)
  then have "output_fits w1 w2" using a(2) rest by (simp add: output_fits_def wk_sent_def at_rest_def)
  with s ok have "system_step fixed_codec start_config (WorkerTurn 0 no_threads idle_turn)
      \<lparr>sys_server = sent_server u, sys_workers = [w1]\<rparr> \<lparr>sys_server = sent_server u, sys_workers = [w2]\<rparr>"
    by (intro system_step.intros [OF fixed_codec_ok]) (simp_all add: worker_step_def)
  with r have r2: "run (system_step fixed_codec start_config) ?start registered_turns \<lparr>sys_server = sent_server u, sys_workers = [w2]\<rparr>"
    using run_append [of _ ?start ?turns "[WorkerTurn 0 no_threads idle_turn]"] by (auto simp: registered_turns_def)
  have "worker_inv start_config w2" using wkr.run_inv [OF v [unfolded start_worker_def] worker_start_inv] by simp
  then have "poll_at w2 (Token 0x1000000)" using w2(4,6) by (auto simp: worker_inv_def mid_def UNIX_STREAM_TOKEN_def intro: polled_at)
  moreover have "mio_ok readable_turn w2" using w2(2) by (simp add: turn_ok_def)
  ultimately have "hm_get (events_reg_read (wk_poll w2)) (Token 0x1000000) = Some ServerStreamRead"
    by (auto simp: poll_at_def mio_ok_def mio_one_def readable_turn_def)
  with that r2 u rest w2(1-3,6,7) show ?thesis by blast
qed

theorem connections_live_apart_witness:
  "\<exists>(u :: unix_stream) w. run (system_step fixed_codec start_config) (system_start [new_recv workq_new]) registered_turns
       \<lparr>sys_server = sent_server u, sys_workers = [w]\<rparr> \<and> held w (Token 0x1000000) (Reading 9 reader_new) \<and>
     lives (requests (wk_threads w)) (taken (wk_threads w)) (Token 0x1000000) (Arrived 9) (Reading 9 reader_new)"
proof -
  obtain u w where r: "run (system_step fixed_codec start_config) (system_start [new_recv workq_new]) registered_turns
       \<lparr>sys_server = sent_server u, sys_workers = [w]\<rparr>"
    and k: "wk_reading w = [(Token 0x1000000, (9, reader_new))]" by (rule registered_stream)
  have h: "held w (Token 0x1000000) (Reading 9 reader_new)" by (simp add: k)
  from connections_live_apart [OF _ _ r, of 0 w, OF _ _ _ _ h] r h show ?thesis by auto
qed

text \<open>The whole run, from start-up to the answer.\<close>

lemma answered_stream:
  obtains "is" :: "iter_step list sys_input list" and u w resp where "run (system_step fixed_codec start_config) (system_start [new_recv workq_new]) is
       \<lparr>sys_server = sent_server u, sys_workers = [w]\<rparr>"
    "wk_writing w = [(Token 0x1000000, (9, writer_new resp))]" "threads_give [up_thread] [] (wk_threads w)"
proof -
  note step = worker_step_def fixed_codec_ok
  obtain u w2 where r: "run (system_step fixed_codec start_config) (system_start [new_recv workq_new]) registered_turns
       \<lparr>sys_server = sent_server u, sys_workers = [w2]\<rparr>"
    and w2: "us_sent u = first_frame" "at_rest w2" "wk_reading w2 = [(Token 0x1000000, (9, reader_new))]" "wk_pending w2 = []"
    "wk_writing w2 = []" "wk_threads w2 = python_threads_new (new_recv workq_new)"
    "hm_get (events_reg_read (wk_poll w2)) (Token 0x1000000) = Some ServerStreamRead"
    "turn_ok fixed_codec start_config readable_turn w2" by (rule registered_stream)
  obtain w3 where w3: "worker_turn fixed_codec start_config whole_turn w2 = Ret (Next w3)" "at_rest w3"
    "wk_reading w3 = []" "wk_writing w3 = []" "wk_pending w3 = [(Token 0x1000000, 9)]"
    "wk_threads w3 = queue_http_req (Token 0x1000000) up_request (python_threads_new (new_recv workq_new))"
    by (rule whole_run [OF w2(2-7)])
  obtain w4 sq where w4: "worker_turn fixed_codec start_config idle_turn w3 = Ret (Next w4)" "at_rest w4"
    "wk_reading w4 = []" "wk_writing w4 = []" "wk_pending w4 = [(Token 0x1000000, 9)]"
    "wk_threads w4 = (python_threads_new sq)\<lparr>num_pending_reqs := 1, pt_inflight := [Token 0x1000000],
       pt_sent := [(0x1000000, up_request)]\<rparr>" by (rule send_run [OF w3(2,3,5,4,6)])
  obtain resp where resp: "sent_back up_thread = [(0x1000000, resp)]" using up_answer by blast
  obtain w5 where w5: "worker_turn fixed_codec start_config (answer_turn resp) w4 = Ret (Next w5)" "at_rest w5"
    "wk_writing w5 = [(Token 0x1000000, (9, writer_new resp))]"
    "pt_sent (wk_threads w5) = [(0x1000000, up_request)]" "pt_taken (wk_threads w5) = [(0x1000000, resp)]"
    by (rule answer_run [OF w4(2,3,5,4,6)])
  have rec: "received up_thread = [(0x1000000, up_request)]" by (simp add: received_def up_thread_def example_call_def)
  have u: "wi_unix_read whole_turn = Ok []" "wi_unix_read idle_turn = Ok []" "wi_unix_read (answer_turn resp) = Ok []"
    "wi_resps whole_turn = []" "wi_resps idle_turn = []" "wi_resps (answer_turn resp) = [(0x1000000, resp)]"
    by (simp_all add: whole_turn_def readable_turn_def idle_turn_def answer_turn_def)
  have a: "PythonThreads.answers_ok [(0x1000000, resp)] (wk_threads w4)"
    using w4(6) by (simp add: PythonThreads.answers_ok_def resp_tokens_def)
  have "worker_step fixed_codec start_config whole_turn w2 w3"
    using w3(1) whole_turn_ok [OF w2(8,3)] by (simp add: step)
  from rest_step [OF this w2(2) w3(2) u(1) w2(1), of no_threads] w2(6)
  have s3: "system_step fixed_codec start_config (WorkerTurn 0 no_threads whole_turn)
      \<lparr>sys_server = sent_server u, sys_workers = [w2]\<rparr> \<lparr>sys_server = sent_server u, sys_workers = [w3]\<rparr>" by (simp add: u)
  have "worker_step fixed_codec start_config idle_turn w3 w4"
    using w4(1) rest_turn_ok [OF w3(2,3), of idle_turn] by (simp add: step u idle_turn_ok)
  from rest_step [OF this w3(2) w4(2) u(2) w2(1), of no_threads] w3(6)
  have s4: "system_step fixed_codec start_config (WorkerTurn 0 no_threads idle_turn)
      \<lparr>sys_server = sent_server u, sys_workers = [w3]\<rparr> \<lparr>sys_server = sent_server u, sys_workers = [w4]\<rparr>"
    by (simp add: u threads_give_def no_threads_def queue_http_req_def python_threads_new_def)
  have "worker_step fixed_codec start_config (answer_turn resp) w4 w5"
    using w5(1) rest_turn_ok [OF w4(2,3), of "answer_turn resp" resp] a by (simp add: step u)
  from rest_step [OF this w4(2) w5(2) u(3) w2(1), of "[up_thread]"] w4(6)
  have s5: "system_step fixed_codec start_config (WorkerTurn 0 [up_thread] (answer_turn resp))
      \<lparr>sys_server = sent_server u, sys_workers = [w4]\<rparr> \<lparr>sys_server = sent_server u, sys_workers = [w5]\<rparr>"
    by (simp add: u threads_give_def python_threads_new_def rec resp)
  have "run (system_step fixed_codec start_config) (system_start [new_recv workq_new])
      (registered_turns @ [WorkerTurn 0 no_threads whole_turn, WorkerTurn 0 no_threads idle_turn,
        WorkerTurn 0 [up_thread] (answer_turn resp)]) \<lparr>sys_server = sent_server u, sys_workers = [w5]\<rparr>"
    using r s3 s4 s5 unfolding run_append by auto
  moreover have "threads_give [up_thread] [] (wk_threads w5)" using w5(4,5) by (simp add: threads_give_def rec resp)
  ultimately show ?thesis using that w5(3) by blast
qed


end
