(* ===== verification/SystemPairs.thy ===== *)
theory SystemPairs
  imports SystemLife
begin

text \<open>
  The descriptors of the streams in the whole program. A descriptor goes over the Unix socket
  beside the bytes, in a queue of its own, and nothing in a message names it for the receiver: it is
  paired with its token by position. Here it is shown that the positions never shift. No code is
  modelled here.
\<close>

section \<open>The server's side\<close>

text \<open>
  A property of one worker's stream that every operation on it keeps holds of all of them after
  any part of a turn of the server.
\<close>

locale stream_property =
  fixes cd :: codec
    and Q :: "unix_stream \<Rightarrow> bool"
  assumes Q_read: "us_read_stream cd res u = Ret (u', r) \<Longrightarrow> Q u \<Longrightarrow> Q u'"
    and Q_write: "us_write_stream cd cap wres u = Ret (u', r) \<Longrightarrow> Q u \<Longrightarrow> Q u'"
    and Q_ask: "Q u \<Longrightarrow> Q (us_msg_send_tcp_stream tk fd u)"
    and Q_reregister: "Q u \<Longrightarrow> Q (u\<lparr>us_interest := j\<rparr>)"
    and Q_kept: "Q u \<Longrightarrow> Q (u\<lparr>us_buffer := (us_buffer u)\<lparr>stream_tks := tks\<rparr>, num_reqs := n\<rparr>)"
    and Q_closed: "Q u \<Longrightarrow> Q (u\<lparr>us_buffer := (us_buffer u)\<lparr>stream_close_tks := tks\<rparr>, num_reqs := n\<rparr>)"
begin

lemma Q_reregister_all: "list_all Q us \<Longrightarrow> list_all Q (fst (us_reregister_all reg us))"
  by (induction us) (auto simp: split_beta Let_def us_reregister_def Q_reregister split: option.split)

lemma Q_next_stream_tks: "list_all Q us \<Longrightarrow> list_all Q (fst (next_stream_tks us))"
proof -
  have "list_all Q us \<Longrightarrow> list_all Q (fst (next_stream_tks_loop us tks))" for tks
    by (induction us arbitrary: tks) (simp_all add: us_drain_tks_eq split_beta Let_def Q_kept)
  then show "list_all Q us \<Longrightarrow> list_all Q (fst (next_stream_tks us))" by (simp add: next_stream_tks_def)
qed

lemma Q_next_stream_close_tks: "list_all Q us \<Longrightarrow> list_all Q (fst (next_stream_close_tks us))"
proof -
  have "list_all Q us \<Longrightarrow> list_all Q (fst (next_stream_close_tks_loop us tks))" for tks
    by (induction us arbitrary: tks) (simp_all add: us_drain_close_tks_eq split_beta Let_def Q_closed)
  then show "list_all Q us \<Longrightarrow> list_all Q (fst (next_stream_close_tks us))" by (simp add: next_stream_close_tks_def)
qed

lemma Q_update: "list_all Q us \<Longrightarrow> Q u \<Longrightarrow> list_all Q (us[k := u])"
  by (cases "k < length us") (auto simp: list_all_length nth_list_update)

lemma Q_msg_send: "msg_send_tcp_stream tk fd us = Ret us' \<Longrightarrow> list_all Q us \<Longrightarrow> list_all Q us'"
  by (auto simp: msg_send_tcp_stream_def Let_def split: if_splits intro!: Q_update Q_ask)
    (simp add: list_all_length)

lemma Q_take_answers:
  assumes "take_answers i s = Ret t" and "list_all Q (sv_unix s)"
  shows "list_all Q (sv_unix (turn_state t))"
proof -
  have kept: "list_all Q (sv_unix (turn_state t))"
    if "turn_fold (kept_stream i) tks s = Ret t" "list_all Q (sv_unix s)" for tks s t
    using turn_fold_inv [OF _ that(1), of "\<lambda>s. list_all Q (sv_unix s)"] kept_stream_unix that(2) by simp
  have closed: "list_all Q (sv_unix (turn_state t))"
    if "turn_fold (closed_stream i) tks s = Ret t" "list_all Q (sv_unix s)" for tks s t
  proof (rule turn_fold_inv [where P = "\<lambda>s. list_all Q (sv_unix s)", OF _ that])
    fix x s t assume "closed_stream i x s = Ret t" "list_all Q (sv_unix s)"
    then show "list_all Q (sv_unix (turn_state t))" by (auto simp: closed_stream_def split: option.splits)
  qed
  have keep: "list_all Q (sv_unix (turn_state t))" if "keep_answers i s = Ret t" for t
    using that assms(2)
    by (auto simp: keep_answers_def Let_def split_beta intro!: kept Q_next_stream_tks Q_reregister_all)
  have close: "list_all Q (sv_unix (turn_state t))" if "close_answers i s = Ret t" "list_all Q (sv_unix s)" for s t
    using that by (auto simp: close_answers_def Let_def split_beta intro!: closed Q_next_stream_close_tks)
  from assms(1) show ?thesis using keep close by (auto simp: take_answers_def turn_bind_Ret)
qed

lemma Q_handle_event:
  assumes "handle_event cd cfg i ev s = Ret t" and "list_all Q (sv_unix s)"
  shows "list_all Q (sv_unix (turn_state t))"
proof -
  have accept: "sv_unix (accept_stream cfg i fd s) = sv_unix s" for fd
    by (simp add: accept_stream_def split_beta Let_def split: option.split)
  have start: "list_all Q (sv_unix (turn_state t))" if "start_processing i tk fd s = Ret t" for tk fd
    using that assms(2) Q_msg_send by (auto simp: start_processing_def Let_def split: option.splits)
  have unix: "list_all Q (sv_unix (turn_state t))" if "unix_event cd ev k s = Ret t" "k < length (sv_unix s)" for k
  proof -
    have "Q (sv_unix s ! k)" using assms(2) that(2) by (simp add: list_all_length)
    with that(1) show ?thesis
      by (auto simp: unix_event_def Let_def intro!: Q_update assms(2) split: if_splits dest: Q_read Q_write)
  qed
  from assms show ?thesis using accept start unix us_find_SomeD
    by (fastforce simp: handle_event_def split: if_splits result.splits option.splits)
qed

lemma Q_server_turn:
  assumes "server_turn cd cfg i s = Ret t" and "list_all Q (sv_unix s)"
  shows "list_all Q (sv_unix (turn_state t))"
proof -
  have check: "sv_unix (turn_state t) = sv_unix s" if "check_exit cfg i s = Ret t" for t
    using that by (auto simp: check_exit_def split: if_splits option.splits)
  have events: "list_all Q (sv_unix (turn_state t))" if "handle_events cd cfg i s = Ret t" "list_all Q (sv_unix s)" for s t
  proof -
    have "list_all Q (sv_unix (turn_state t))" if "turn_fold (handle_event cd cfg i) evs s = Ret t" for evs t
      using turn_fold_inv [OF _ that, of "\<lambda>s. list_all Q (sv_unix s)"] Q_handle_event \<open>list_all Q (sv_unix s)\<close> by blast
    with that(1) show ?thesis by (fastforce simp: handle_events_def turn_bind_Ret)
  qed
  from assms show ?thesis using check Q_take_answers events
    by (fastforce simp: server_turn_def turn_bind_Ret)
qed

end

text \<open>
  Of the streams the server was asked to send, those whose descriptor is on the socket are those whose
  frame is on it or in the buffer; the rest is queued.
\<close>

definition us_pairs :: "codec \<Rightarrow> unix_stream \<Rightarrow> bool" where
  "us_pairs cd u \<longleftrightarrow> (\<exists>gone. us_asked u = gone @ to_send (us_buffer u) \<and> us_fds u = map snd gone \<and>
     us_sent u @ sb_write_buffer (us_buffer u) = request_bytes cd (map fst gone)) \<and>
     (\<forall>x \<in> set (us_asked u). rq_fd (fst x) = snd x)"

lemma us_pairs_same:
  "us_pairs cd u \<Longrightarrow> us_asked u' = us_asked u \<Longrightarrow> us_fds u' = us_fds u \<Longrightarrow> us_sent u' = us_sent u \<Longrightarrow>
   to_send (us_buffer u') = to_send (us_buffer u) \<Longrightarrow>
   sb_write_buffer (us_buffer u') = sb_write_buffer (us_buffer u) \<Longrightarrow> us_pairs cd u'"
  by (simp add: us_pairs_def)

lemma sb_parse_queue:
  "sb_parse cd buf b n = Ret (b', m) \<Longrightarrow> to_send b' = to_send b \<and> sb_write_buffer b' = sb_write_buffer b"
  by (induction cd buf b n rule: sb_parse.induct)
    (auto simp: sb_parse.simps sb_push_def Let_def split: if_splits option.splits)

lemma us_pairs_write:
  assumes "us_write_stream cd cap res u = Ret (u', r)" and "us_pairs cd u"
  shows "us_pairs cd u'"
proof -
  obtain b fds out where w: "sb_write_stream cd cap res (us_buffer u) = Ret (b, fds, out, r)"
    and u': "u' = u\<lparr>us_buffer := b, us_sent := us_sent u @ out, us_fds := us_fds u @ fds\<rparr>"
    using assms(1) by (auto simp: us_write_stream_def)
  obtain q wb fds' where l: "sb_enqueue_loop cd cap (to_send (us_buffer u)) (sb_write_buffer (us_buffer u)) = Ret (q, wb, fds')"
    using w by (auto simp: sb_write_stream_def)
  have b: "to_send b = q" "fds = fds'" "out @ sb_write_buffer b = wb"
    using w l by (cases res; auto simp: sb_write_stream_def take_write_shift)+
  from sb_enqueue_loop_prefix [OF l] obtain mv where
    mv: "to_send (us_buffer u) = mv @ q" "fds' = map snd mv"
      "wb = sb_write_buffer (us_buffer u) @ request_bytes cd (map fst mv)"
    by (auto simp: request_bytes_def o_def)
  from assms(2) obtain gone where g: "us_asked u = gone @ mv @ q" "us_fds u = map snd gone"
    "us_sent u @ sb_write_buffer (us_buffer u) = request_bytes cd (map fst gone)"
    "\<forall>x \<in> set (us_asked u). rq_fd (fst x) = snd x" by (auto simp: us_pairs_def mv(1))
  have "us_sent u @ out @ sb_write_buffer b = request_bytes cd (map fst (gone @ mv))"
    using g(3) by (simp add: b(3) mv(3) append_assoc [symmetric] del: append_assoc)
  with g b mv(2) show ?thesis by (auto simp: us_pairs_def u' intro!: exI [of _ "gone @ mv"])
qed

interpretation paired: stream_property cd "us_pairs cd" for cd
proof unfold_locales
  fix u u' res r
  assume r: "us_read_stream cd res u = Ret (u', r)" and p: "us_pairs cd u"
  then show "us_pairs cd u'"
    by (cases res) (auto simp: us_read_stream_def sb_read_stream_def sb_grow_def Let_def elim!: us_pairs_same dest: sb_parse_queue)
next
  fix u u' cap wres r
  assume "us_write_stream cd cap wres u = Ret (u', r)" and "us_pairs cd u"
  then show "us_pairs cd u'" by (rule us_pairs_write)
next
  fix u tk fd assume "us_pairs cd u"
  then show "us_pairs cd (us_msg_send_tcp_stream tk fd u)"
    by (auto simp: us_pairs_def us_msg_send_tcp_stream_def req_tcp_stream_fd_def)
qed (auto elim: us_pairs_same)

section \<open>The worker's side\<close>

text \<open>
  The requests a worker has cut from the bytes it got, and the descriptors it got, have been taken
  out together, one by one from the front.
\<close>

definition wk_pairs :: "codec \<Rightarrow> worker \<Rightarrow> bool" where
  "wk_pairs cd w \<longleftrightarrow> (\<exists>whole n. n \<le> length whole \<and> n \<le> length (wk_fds w) \<and> stream_msgs (wk_buf w) = drop n whole \<and>
     stream_fds (wk_buf w) = drop n (wk_fds w) \<and> wk_got w = request_bytes cd whole @ wb_unread (wk_buf w))"

lemma drain_streams_drop:
  "stream_msgs (fst (drain_streams b)) = drop (length (snd (drain_streams b))) (stream_msgs b) \<and>
   stream_fds (fst (drain_streams b)) = drop (length (snd (drain_streams b))) (stream_fds b)"
proof (induction b rule: drain_streams.induct)
  case (1 b)
  obtain b' o' where n: "next_stream_fd b = (b', o')" by (cases "next_stream_fd b")
  show ?case
  proof (cases o')
    case None
    then have "b' = b" using n by (auto simp: next_stream_fd_def split: list.splits)
    then show ?thesis by (subst (1 2 3 4) drain_streams.simps) (simp add: n None)
  next
    case (Some x)
    then have "stream_msgs b = hd (stream_msgs b) # stream_msgs b'" "stream_fds b = snd x # stream_fds b'"
      using n by (auto simp: next_stream_fd_def split: list.splits)
    then have "stream_msgs b' = drop 1 (stream_msgs b)" "stream_fds b' = drop 1 (stream_fds b)"
      by (metis drop_Suc drop0 list.sel(3) One_nat_def)+
    moreover have "drain_streams b = (fst (drain_streams b'), x # snd (drain_streams b'))"
      by (subst drain_streams.simps) (simp add: n Some split_beta)
    ultimately show ?thesis using "1.IH" [OF n [symmetric] Some] by simp
  qed
qed

lemma wk_pairs_turn:
  assumes m: "moves cd bs ms qs (w\<lparr>wk_buf := fst (drain_streams (wk_buf w))\<rparr>) w'"
    and X: "wb_unread (wk_buf w) @ bs @ rest = request_bytes cd X" and p: "wk_pairs cd w"
  shows "wk_pairs cd w'"
proof -
  let ?k = "length (snd (drain_streams (wk_buf w)))"
  note dr = drain_streams_drop [of "wk_buf w"]
  have un: "wb_unread (fst (drain_streams (wk_buf w))) = wb_unread (wk_buf w)"
    using drain_streams_frame [of "wk_buf w"] by simp
  from p obtain whole n where n: "n \<le> length whole" "n \<le> length (wk_fds w)" "stream_msgs (wk_buf w) = drop n whole"
    "stream_fds (wk_buf w) = drop n (wk_fds w)" "wk_got w = request_bytes cd whole @ wb_unread (wk_buf w)"
    by (auto simp: wk_pairs_def)
  have "?k \<le> length (stream_msgs (wk_buf w))" "?k \<le> length (stream_fds (wk_buf w))" by (simp_all add: drain_streams_zip)
  then have k: "n + ?k \<le> length whole" "n + ?k \<le> length (wk_fds w)" using n(1-4) by simp_all
  from m obtain fds where fds: "wk_fds w' = wk_fds w @ fds" "stream_fds (wk_buf w') = drop ?k (stream_fds (wk_buf w)) @ fds"
    using dr by (auto simp: moves_def)
  have msgs: "stream_msgs (wk_buf w') = drop ?k (stream_msgs (wk_buf w)) @ ms" and got: "wk_got w' = wk_got w @ bs"
    using m dr by (simp_all add: moves_def)
  from m X un obtain Y where Y: "X = ms @ Y" "wb_unread (wk_buf w') @ rest = request_bytes cd Y" by (auto simp: moves_def)
  have "(wb_unread (wk_buf w) @ bs) @ rest = (request_bytes cd ms @ wb_unread (wk_buf w')) @ rest"
    using X Y by simp
  then have "wb_unread (wk_buf w) @ bs = request_bytes cd ms @ wb_unread (wk_buf w')" by (simp only: append_same_eq)
  then have "wk_got w' = request_bytes cd (whole @ ms) @ wb_unread (wk_buf w')" by (simp add: got n(5))
  with k show ?thesis unfolding wk_pairs_def
    by (intro exI [of _ "whole @ ms"] exI [of _ "n + ?k"]) (simp add: fds msgs n(3,4) add.commute)
qed

section \<open>The system\<close>

definition system_pairs :: "codec \<Rightarrow> system \<Rightarrow> bool" where
  "system_pairs cd sy \<longleftrightarrow> list_all (us_pairs cd) (sv_unix (sys_server sy)) \<and> list_all (wk_pairs cd) (sys_workers sy)"

lemma system_step_pairs:
  assumes "system_step cd cfg inp sy sy'" and inv: "system_inv cd cfg sy" and p: "system_pairs cd sy"
  shows "system_pairs cd sy'"
proof -
  from assms(1) have cd: "codec_ok cd" and ok: "world_ok cfg inp sy"
    and t: "system_turn cd cfg inp sy = Ret (Next sy')" by (auto elim: system_stepE)
  have sys: "sys_inv cd cfg (sys_server sy) (sys_workers sy)" using inv by (simp add: system_inv_def)
  show ?thesis
  proof (cases inp)
    case (ServerTurn i)
    then obtain s' where "server_turn cd cfg i (sys_server sy) = Ret (Next s')" "sy' = sy\<lparr>sys_server := s'\<rparr>"
      using t by (auto simp: map_turn_Next)
    with paired.Q_server_turn [of cd cfg i "sys_server sy" "Next s'"] p show ?thesis by (simp add: system_pairs_def)
  next
    case (WorkerTurn k ths i)
    let ?w = "sys_workers sy ! k" and ?u = "sv_unix (sys_server sy) ! k"
    from WorkerTurn t obtain w' where w': "worker_turn cd cfg i ?w = Ret (Next w')"
      "sy' = sy\<lparr>sys_workers := (sys_workers sy)[k := w']\<rparr>" by (auto simp: map_turn_Next)
    from WorkerTurn ok have k: "k < length (sys_workers sy)" and out: "outside_ok cfg ths i ?w" "socket_fits i ?u ?w"
      by simp_all
    have "worker_inv cfg ?w" using sys k by (simp add: sys_inv_def)
    from worker_turn_moves [OF cd this sys_turn_ok [OF cd sys k out] w'(1)] obtain bs ms qs where
      m: "moves cd bs ms qs (?w\<lparr>wk_buf := fst (drain_streams (wk_buf ?w))\<rparr>) w'" "bs = [] \<or> bs = read_bytes (wi_unix_read i)"
      by blast
    from out(2) m(2) obtain y where y: "us_sent ?u = wk_got ?w @ bs @ y" by (auto simp: socket_fits_def)
    from sys_link(2) [OF sys k] obtain X where "down_wire ?u ?w = request_bytes cd X" by (auto simp: link_ok_def)
    with y have "wb_unread (wk_buf ?w) @ bs @ (y @ sb_write_buffer (us_buffer ?u)) = request_bytes cd X"
      by (simp add: down_wire_def)
    from wk_pairs_turn [OF m(1) this] have "wk_pairs cd w'" using p k by (simp add: system_pairs_def list_all_length)
    with p w'(2) k show ?thesis by (simp add: system_pairs_def list_all_length nth_list_update)
  qed
qed

interpretation paired_run: step_invariant "system_step cd cfg" "\<lambda>sy. system_inv cd cfg sy \<and> system_pairs cd sy" for cd cfg
  by unfold_locales (use system_step_inv system_step_pairs in blast)

lemma system_run_pairs:
  assumes "list_all sender_inv sqs" and "sqs \<noteq> []" and "run (system_step cd cfg) (system_start sqs) is sy"
  shows "system_inv cd cfg sy \<and> system_pairs cd sy"
proof -
  have "us_pairs cd (unix_stream_new tk)" for tk by (simp add: us_pairs_def unix_stream_new_def server_buf_new_def)
  moreover have "wk_pairs cd (worker_start sq)" for sq
    by (simp add: wk_pairs_def worker_start_def worker_buf_new_def wk_fds_def wk_got_def wb_unread_def)
  ultimately have "system_pairs cd (system_start sqs)"
    by (simp add: system_pairs_def system_start_def server_start_def server_new_def list_all_length number_streams_nth)
  with system_start_inv [OF assms(1,2)] have "system_inv cd cfg (system_start sqs) \<and> system_pairs cd (system_start sqs)" ..
  with paired_run.run_inv [OF assms(3)] show ?thesis .
qed

lemma system_length:
  assumes "list_all sender_inv sqs" and "sqs \<noteq> []" and "run (system_step cd cfg) (system_start sqs) is sy"
  shows "length (sys_workers sy) = length sqs"
proof -
  have "run (system_step cd cfg) s is t \<Longrightarrow> system_inv cd cfg s \<Longrightarrow> length (sys_workers t) = length (sys_workers s)" for s t
  proof (induction rule: run.induct)
    case (run_cons i s u "is" t)
    have "0 < length (sys_workers s)" using run_cons.prems by (simp add: system_inv_def)
    with run_cons system_step_inv [OF run_cons.hyps(1)] system_step_worker(1) [OF run_cons.hyps(1)] show ?case by simp
  qed simp
  from this [OF assms(3) system_start_inv [OF assms(1,2)]] show ?thesis by (simp add: system_start_def)
qed

text \<open>Whole frames at the front of a stream of frames are its first messages.\<close>

lemma request_bytes_prefix:
  assumes cd: "codec_ok cd" and eq: "request_bytes cd whole @ rest = request_bytes cd X"
  shows "\<exists>Y. X = whole @ Y"
proof -
  let ?ser = "\<lambda>m. the (ser_request cd m)"
  have ne: "\<forall>p \<in> set (map ?ser Z). p \<noteq> [] \<and> length p < 256" for Z using ser_request_ok [OF cd] by simp
  have "request_bytes cd whole @ rest = concat (map (frame u8_prefix) (map ?ser X))"
    using eq by (simp add: request_bytes_frames)
  from f8.split_prefix [OF ne this] obtain ps2 where "map ?ser X = map ?ser whole @ ps2"
    using f8.split_all [OF ne, of whole] by (auto simp: request_bytes_frames)
  then obtain X1 X2 where X: "X = X1 @ X2" "map ?ser X1 = map ?ser whole" by (auto simp: map_eq_append_conv)
  moreover have "inj ?ser" by (rule inj_on_inverseI [of _ "\<lambda>b. the (de_request cd b)"]) (simp add: ser_request_ok(3) [OF cd])
  ultimately show ?thesis by (auto simp: inj_map_eq_map)
qed

text \<open>C6: a worker serves a stream on the descriptor the server sent for it. In any run of the program
  from start-up, each pair of a token and a descriptor that a worker takes out of its buffer is of
  one position on the socket: the descriptor is the one received at that position, and the one
  that the server put there belongs to the stream it was asked to send under that token. The
  positions follow each other without a gap.\<close>

theorem descriptors_stay_paired:
  assumes "codec_ok cd" and "list_all sender_inv sqs" and "sqs \<noteq> []" and "run (system_step cd cfg) (system_start sqs) is sy"
    and "k < length sqs" and "w = sys_workers sy ! k" and "u = sv_unix (sys_server sy) ! k"
    and "j < length (snd (drain_streams (wk_buf w)))" and "p = length (wk_fds w) - length (stream_fds (wk_buf w)) + j"
  shows "p < length (wk_fds w) \<and> p < length (us_fds u) \<and> p < length (us_asked u) \<and>
     snd (drain_streams (wk_buf w)) ! j = (Token (rq_token (fst (us_asked u ! p))), wk_fds w ! p) \<and>
     us_fds u ! p = snd (us_asked u ! p) \<and> rq_fd (fst (us_asked u ! p)) = us_fds u ! p"
proof -
  from system_run_pairs [OF assms(2-4)] have inv: "sys_inv cd cfg (sys_server sy) (sys_workers sy)"
    and pairs: "system_pairs cd sy" by (simp_all add: system_inv_def)
  have k: "k < length (sys_workers sy)" using system_length [OF assms(2-4)] assms(5) by simp
  then have k': "k < length (sv_unix (sys_server sy))" using inv by (simp add: sys_inv_def links_ok_def)
  have "us_pairs cd u" "wk_pairs cd w" using pairs k k' assms(6,7) by (simp_all add: system_pairs_def list_all_length)
  then obtain gone whole n where g: "us_asked u = gone @ to_send (us_buffer u)" "us_fds u = map snd gone"
    "us_sent u @ sb_write_buffer (us_buffer u) = request_bytes cd (map fst gone)" "\<forall>x \<in> set (us_asked u). rq_fd (fst x) = snd x"
    and n: "n \<le> length whole" "n \<le> length (wk_fds w)" "stream_msgs (wk_buf w) = drop n whole" "stream_fds (wk_buf w) = drop n (wk_fds w)"
      "wk_got w = request_bytes cd whole @ wb_unread (wk_buf w)"
    by (auto simp: us_pairs_def wk_pairs_def)
  from sys_link(2) [OF inv k] assms(6,7) obtain x where "us_sent u = wk_got w @ x" by (auto simp: link_ok_def)
  with g(3) n(5) have "request_bytes cd whole @ (wb_unread (wk_buf w) @ x @ sb_write_buffer (us_buffer u)) = request_bytes cd (map fst gone)"
    by simp
  from request_bytes_prefix [OF assms(1) this] obtain Y where Y: "map fst gone = whole @ Y" by blast
  have p: "p = n + j" using assms(9) n(2,4) by simp
  have j: "j < length (drop n whole)" "j < length (drop n (wk_fds w))"
    using assms(8) by (simp_all add: drain_streams_zip n(3,4))
  then have lt: "p < length whole" "p < length (wk_fds w)" by (simp_all add: p)
  moreover have "length whole \<le> length gone" using arg_cong [OF Y, of length] by simp
  ultimately have gl: "p < length gone" by simp
  have "fst (gone ! p) = whole ! p" using arg_cong [OF Y, of "\<lambda>l. l ! p"] lt(1) gl by (simp add: nth_append)
  moreover have "us_asked u ! p = gone ! p" using g(1) gl by (simp add: nth_append)
  moreover have "snd (drain_streams (wk_buf w)) ! j = (Token (rq_token (whole ! p)), wk_fds w ! p)"
    using j by (simp add: drain_streams_zip n(3,4) p)
  moreover have "rq_fd (fst (gone ! p)) = snd (gone ! p)" using g(1,4) gl by simp
  ultimately show ?thesis using lt(2) gl g(1,2) by simp
qed

theorem descriptors_stay_paired_witness:
  "\<exists>(u :: unix_stream) (w :: worker). snd (drain_streams (wk_buf w)) = [(first_token, 9)] \<and> wk_fds w ! 0 = 9 \<and>
     rq_token (fst (us_asked u ! 0)) = tok first_token \<and> us_fds u ! 0 = rq_fd (fst (us_asked u ! 0))"
proof -
  obtain u w where r: "run (system_step fixed_codec start_config) (system_start [new_recv workq_new])
       [ServerTurn (quiet_input [accept_event 5]), ServerTurn (quiet_input [readable_event]),
        ServerTurn (quiet_input [socket_event]), WorkerTurn 0 no_threads arrival_turn]
       \<lparr>sys_server = sent_server u, sys_workers = [w]\<rparr>"
    and w: "stream_msgs (wk_buf w) = [example_request]" "stream_fds (wk_buf w) = [9]" "wk_fds w = [9]" by (rule first_stream)
  have d: "snd (drain_streams (wk_buf w)) = [(first_token, 9)]"
    by (simp add: drain_streams_zip w example_request_def first_token_def)
  from descriptors_stay_paired [OF fixed_codec_ok _ _ r, of 0 w u 0, OF _ _ _ _ _ _ refl] d w(2,3)
  have "rq_token (fst (us_asked u ! 0)) = tok first_token \<and> us_fds u ! 0 = rq_fd (fst (us_asked u ! 0))"
    by (simp add: sent_server_def) (simp add: first_token_def)
  with d w(3) show ?thesis by (intro exI [of _ u] exI [of _ w]) simp
qed

end
